(* ===== verification/Go_Prelude.thy ===== *)
theory Go_Prelude
  imports Complex_Main "HOL-Library.Word"
begin

text \<open>
  Prelude of the development: the Go types the program uses (bytes, 16-, 32- and 64-bit
  integers), the conversions between byte slices and strings, decimal and hexadecimal printing
  (\<^verbatim>\<open>%d\<close> and the digits of an IPv6 group), slices kept to their last entries, and the generic
  list lemmas the components share.  The collections \<open>go_defs\<close> (definitions to unfold when a
  closed term is evaluated), \<open>seg_simps\<close> (facts on segmented input) and \<open>str_simps\<close> (facts on
  strings) are filled by this theory and by its importers.
\<close>

named_theorems go_defs \<open>definitions unfolded when closed terms are evaluated\<close>
named_theorems seg_simps \<open>facts on input that arrives in segments\<close>
named_theorems str_simps \<open>facts on Go strings\<close>

section \<open>Types\<close>

type_synonym byte = "8 word"
type_synonym u16 = "16 word"
type_synonym i32 = "32 word"
type_synonym i64 = "64 word"

text \<open>
  A Go string is a sequence of bytes, and so is an Isabelle \<^typ>\<open>string\<close>: a \<^typ>\<open>char\<close> has
  exactly eight bits.  \<open>str_of\<close> is Go's conversion \<^verbatim>\<open>string(b)\<close>, \<open>bytes_of\<close> is \<^verbatim>\<open>[]byte(s)\<close>.
\<close>

definition chr :: "byte \<Rightarrow> char" where
  "chr b = char_of (unat b)"

definition byte_of :: "char \<Rightarrow> byte" where
  "byte_of c = word_of_nat (of_char c)"

definition str_of :: "byte list \<Rightarrow> string" where
  "str_of bs = map chr bs"

definition bytes_of :: "string \<Rightarrow> byte list" where
  "bytes_of s = map byte_of s"

lemma chr_byte_of [simp]: "chr (byte_of c) = c"
proof -
  have "of_char c < (256::nat)" by simp
  then show ?thesis
    by (simp add: chr_def byte_of_def unat_of_nat take_bit_nat_eq_self)
qed

lemma byte_of_chr [simp]: "byte_of (chr b) = b"
proof -
  have "unat b < 256" using unsigned_less [where w = b and ?'a = nat] by simp
  then show ?thesis by (simp add: chr_def byte_of_def)
qed

lemma chr_inject [simp]: "chr a = chr b \<longleftrightarrow> a = b"
  by (metis byte_of_chr)

lemma str_of_bytes_of [simp]: "str_of (bytes_of s) = s"
  by (simp add: str_of_def bytes_of_def comp_def)

lemma bytes_of_str_of [simp]: "bytes_of (str_of b) = b"
  by (simp add: str_of_def bytes_of_def comp_def)

lemma str_of_simps [simp]:
  "str_of [] = []" "str_of (b # bs) = chr b # str_of bs"
  "str_of (xs @ ys) = str_of xs @ str_of ys"
  "str_of (take n xs) = take n (str_of xs)" "str_of (drop n xs) = drop n (str_of xs)"
  "length (str_of xs) = length xs"
  by (simp_all add: str_of_def take_map drop_map)

lemma bytes_of_simps [simp]:
  "bytes_of [] = []" "bytes_of (c # cs) = byte_of c # bytes_of cs"
  "bytes_of (xs @ ys) = bytes_of xs @ bytes_of ys"
  "length (bytes_of xs) = length xs"
  by (simp_all add: bytes_of_def)

lemma str_of_inject [simp]: "str_of a = str_of b \<longleftrightarrow> a = b"
  by (metis bytes_of_str_of)

lemma bytes_of_inject [simp]: "bytes_of a = bytes_of b \<longleftrightarrow> a = b"
  by (metis str_of_bytes_of)

lemma unat_byte_less [simp]: "unat (b::byte) < 256"
  using unsigned_less [where w = b and ?'a = nat] by simp

lemma unat_byte_le [simp]: "unat (b::byte) \<le> 255"
  using unat_byte_less [of b] by linarith

section \<open>The big-endian byte order\<close>

text \<open>\<^verbatim>\<open>binary.BigEndian.Uint16\<close> and \<^verbatim>\<open>PutUint16\<close>.\<close>

definition be16 :: "byte \<Rightarrow> byte \<Rightarrow> nat" where
  "be16 hi lo = unat hi * 256 + unat lo"

definition put_be16 :: "nat \<Rightarrow> byte list" where
  "put_be16 p = [word_of_nat (p div 256), word_of_nat (p mod 256)]"

lemma be16_less: "be16 hi lo < 65536"
  using unat_byte_le [of hi] unat_byte_le [of lo] unfolding be16_def by linarith

lemma length_put_be16 [simp]: "length (put_be16 p) = 2"
  by (simp add: put_be16_def)

lemma put_be16_be16: "put_be16 (be16 hi lo) = [hi, lo]"
  by (simp add: put_be16_def be16_def)

lemma be16_put_be16:
  assumes "p < 65536"
  shows "be16 (word_of_nat (p div 256)) (word_of_nat (p mod 256)) = p"
proof -
  from assms have "p div 256 < 256" by simp
  then show ?thesis by (simp add: be16_def unat_of_nat take_bit_nat_eq_self)
qed

section \<open>Slices kept to their last entries\<close>

text \<open>
  The connection log and the metrics history are appended to and then cut to their last
  entries, \<^verbatim>\<open>s[len(s)-n:]\<close>.
\<close>

definition last_n :: "nat \<Rightarrow> 'a list \<Rightarrow> 'a list" where
  "last_n n xs = drop (length xs - n) xs"

lemma last_n_short [simp]: "length xs \<le> n \<Longrightarrow> last_n n xs = xs"
  by (simp add: last_n_def)

lemma length_last_n [simp]: "length (last_n n xs) = min n (length xs)"
  by (auto simp: last_n_def)

lemma last_n_append_one: "last_n n (last_n n xs @ [x]) = last_n n (xs @ [x])"
  by (cases "length xs \<le> n") (auto simp: last_n_def Suc_diff_le)

lemma set_last_n: "set (last_n n xs) \<subseteq> set xs"
  by (simp add: last_n_def set_drop_subset)

section \<open>Decimal and hexadecimal numbers\<close>

text \<open>The digit of a number below 16, as \<^verbatim>\<open>"0123456789abcdef"[n]\<close>.\<close>

definition digit :: "nat \<Rightarrow> char" where
  "digit n = ''0123456789abcdef'' ! n"

text \<open>\<open>show_base b n\<close> prints \<open>n\<close> in base \<open>b\<close>; \<open>show_nat\<close> is \<^verbatim>\<open>%d\<close>.\<close>

fun show_base :: "nat \<Rightarrow> nat \<Rightarrow> string" where
  "show_base b n =
     (if b < 2 \<or> n < b then [digit n] else show_base b (n div b) @ [digit (n mod b)])"

declare show_base.simps [simp del]

definition show_nat :: "nat \<Rightarrow> string" where
  "show_nat n = show_base 10 n"

definition hex_digits :: "char set" where
  "hex_digits = set ''0123456789abcdef''"

definition dec_digits :: "char set" where
  "dec_digits = set ''0123456789''"

lemma digit_hex: "n < 16 \<Longrightarrow> digit n \<in> hex_digits"
  unfolding digit_def hex_digits_def by (rule nth_mem) simp

lemma below_10: "n < 10 \<Longrightarrow> n \<in> {0::nat, 1, 2, 3, 4, 5, 6, 7, 8, 9}"
  by auto

lemma digit_dec:
  assumes "n < 10"
  shows "digit n \<in> dec_digits"
proof -
  from assms have "n \<in> {0, 1, 2, 3, 4, 5, 6, 7, 8, 9}" by (rule below_10)
  then show ?thesis by (auto simp: digit_def dec_digits_def)
qed

lemma show_base_nonempty [simp]: "show_base b n \<noteq> []"
  by (subst show_base.simps) simp

lemma set_show_base:
  assumes "2 \<le> b" and "\<And>k. k < b \<Longrightarrow> digit k \<in> D"
  shows "set (show_base b n) \<subseteq> D"
  using assms
proof (induction b n rule: show_base.induct)
  case (1 b n)
  show ?case
  proof (cases "b < 2 \<or> n < b")
    case True
    with 1 show ?thesis by (subst show_base.simps) auto
  next
    case False
    with 1 have "set (show_base b (n div b)) \<subseteq> D" and "digit (n mod b) \<in> D" by auto
    with False show ?thesis by (subst show_base.simps) simp
  qed
qed

lemma set_show_nat: "set (show_nat n) \<subseteq> dec_digits"
  unfolding show_nat_def by (rule set_show_base) (auto intro: digit_dec)

lemma set_show_hex: "set (show_base 16 n) \<subseteq> hex_digits"
  by (rule set_show_base) (auto intro: digit_hex)

lemma show_nat_nonempty [simp]: "show_nat n \<noteq> []"
  by (simp add: show_nat_def)

lemma show_nat_small: "n < 10 \<Longrightarrow> show_nat n = [digit n]"
  by (simp add: show_nat_def show_base.simps)

lemma show_nat_step: "10 \<le> n \<Longrightarrow> show_nat n = show_nat (n div 10) @ [digit (n mod 10)]"
  by (simp add: show_nat_def show_base.simps [of 10 n])

lemma show_nat_induct [case_names small step]:
  assumes "\<And>n. n < 10 \<Longrightarrow> P n" and "\<And>n. 10 \<le> n \<Longrightarrow> P (n div 10) \<Longrightarrow> P n"
  shows "P (n::nat)"
proof (induction n rule: less_induct)
  case (less n)
  show ?case
  proof (cases "n < 10")
    case True
    then show ?thesis by (rule assms(1))
  next
    case False
    with less have "P (n div 10)" by simp
    with False show ?thesis using assms(2) [of n] by simp
  qed
qed

text \<open>Reading decimal digits back: the value of a digit, and of a digit string.\<close>

definition digit_val :: "char \<Rightarrow> nat" where
  "digit_val c = of_char c - 48"

definition is_digit :: "char \<Rightarrow> bool" where
  "is_digit c \<longleftrightarrow> 48 \<le> (of_char c :: nat) \<and> (of_char c :: nat) \<le> 57"

definition read_nat :: "string \<Rightarrow> nat" where
  "read_nat s = foldl (\<lambda>n c. 10 * n + digit_val c) 0 s"

lemma dec_digits_is_digit: "c \<in> dec_digits \<Longrightarrow> is_digit c"
  by (auto simp: dec_digits_def is_digit_def)

lemma digit_val_digit: "n < 10 \<Longrightarrow> digit_val (digit n) = n"
proof -
  assume "n < 10"
  then have "n \<in> {0, 1, 2, 3, 4, 5, 6, 7, 8, 9}" by (rule below_10)
  then show ?thesis by (auto simp: digit_def digit_val_def)
qed

lemma is_digit_digit: "n < 10 \<Longrightarrow> is_digit (digit n)"
  using digit_dec dec_digits_is_digit by blast

lemma read_nat_snoc: "read_nat (s @ [c]) = 10 * read_nat s + digit_val c"
  by (simp add: read_nat_def)

lemma read_show_nat [simp]: "read_nat (show_nat n) = n"
proof (induction n rule: show_nat_induct)
  case (small n)
  then show ?case by (simp add: show_nat_small read_nat_def digit_val_digit)
next
  case (step n)
  then show ?case by (simp add: show_nat_step read_nat_snoc digit_val_digit)
qed

lemma show_nat_inject [simp]: "show_nat m = show_nat n \<longleftrightarrow> m = n"
  by (metis read_show_nat)

lemma show_nat_is_digit: "c \<in> set (show_nat n) \<Longrightarrow> is_digit c"
  using set_show_nat dec_digits_is_digit by blast

lemma show_nat_no_colon: "CHR '':'' \<notin> set (show_nat n)"
  using show_nat_is_digit by (fastforce simp: is_digit_def)

lemma show_nat_no_newline: "CHR 0x0A \<notin> set (show_nat n)"
  using show_nat_is_digit by (fastforce simp: is_digit_def)

section \<open>Runs of steps\<close>

text \<open>What every step of a system keeps, every run of steps keeps.\<close>

locale step_invariant =
  fixes step :: "'e \<Rightarrow> 's \<Rightarrow> 's"
    and inv :: "'s \<Rightarrow> bool"
  assumes step_inv: "inv s \<Longrightarrow> inv (step e s)"
begin

lemma run_inv: "inv s \<Longrightarrow> inv (fold step es s)"
  by (induction es arbitrary: s) (simp_all add: step_inv)

end

section \<open>Fair rounds\<close>

text \<open>
  A run in rounds, each of which holds an event of every kind that the system must not neglect,
  with any events before, between and after them.  If no step raises the rank, and at every rank
  but zero the events of some kind lower it, then each round lowers it.
\<close>

locale fair_rounds =
  fixes step :: "'e \<Rightarrow> 's \<Rightarrow> 's"
    and inv :: "'s \<Rightarrow> bool"
    and rank :: "'s \<Rightarrow> nat"
    and helps :: "nat \<Rightarrow> 'e set"
  assumes round_inv: "inv s \<Longrightarrow> inv (step e s)"
    and descent_step: "inv s \<Longrightarrow> rank (step e s) \<le> rank s"
    and descent_help: "inv s \<Longrightarrow> rank s \<noteq> 0 \<Longrightarrow> e \<in> helps (rank s) \<Longrightarrow> rank (step e s) < rank s"
begin

definition fair :: "'e list \<Rightarrow> bool" where
  "fair es \<longleftrightarrow> (\<forall>n. set es \<inter> helps n \<noteq> {})"

lemma run_inv: "inv s \<Longrightarrow> inv (fold step es s)"
  by (induction es arbitrary: s) (simp_all add: round_inv)

lemma descent_run: "inv s \<Longrightarrow> rank (fold step es s) \<le> rank s"
proof (induction es arbitrary: s)
  case (Cons e es)
  from Cons.IH [OF round_inv [OF Cons.prems], of e] descent_step [OF Cons.prems, of e] show ?case
    by simp
qed simp

lemma descent_round:
  assumes "inv s" and "fair es" and "rank s \<noteq> 0"
  shows "rank (fold step es s) < rank s"
proof -
  obtain e where e: "e \<in> set es" "e \<in> helps (rank s)" using assms(2) unfolding fair_def by blast
  then obtain xs ys where es: "es = xs @ e # ys" by (meson split_list)
  let ?t = "fold step xs s"
  have t: "inv ?t" "rank ?t \<le> rank s" using assms(1) by (simp_all add: run_inv descent_run)
  then have "rank (step e ?t) < rank s"
    using descent_help [OF t(1)] e(2) assms(3) descent_step [OF t(1), of e] by (cases "rank ?t = rank s") auto
  with descent_run [OF round_inv [OF t(1)], of ys e] show ?thesis by (simp add: es order_le_less_trans)
qed

lemma descent_rounds:
  assumes "inv s" and "\<forall>es\<in>set rounds. fair es"
  shows "rank (fold step (concat rounds) s) \<le> rank s - length rounds"
  using assms
proof (induction rounds arbitrary: s)
  case (Cons es rounds)
  let ?t = "fold step es s"
  have "rank ?t < rank s" if "rank s \<noteq> 0" using descent_round [OF Cons.prems(1) _ that] Cons.prems(2) by simp
  with descent_run [OF Cons.prems(1), of es] have "rank ?t \<le> rank s - 1" by (cases "rank s = 0") simp_all
  with Cons.IH [OF run_inv [OF Cons.prems(1)], of es] Cons.prems(2) show ?case by simp
qed simp

lemma descent_ends:
  assumes "inv s" and "\<forall>es\<in>set rounds. fair es" and "rank s \<le> length rounds"
  shows "inv (fold step (concat rounds) s)" and "rank (fold step (concat rounds) s) = 0"
  using descent_rounds [OF assms(1,2)] run_inv [OF assms(1)] assms(3) by simp_all

end

end
