(* ===== verification/Go_Strings.thy ===== *)
theory Go_Strings
  imports Go_Prelude "HOL-Library.Sublist"
begin

text \<open>
  The operations of Go's package \<^verbatim>\<open>strings\<close> that the program calls, on strings as byte
  sequences: \<^verbatim>\<open>HasPrefix\<close>, \<^verbatim>\<open>Index\<close>, \<^verbatim>\<open>LastIndex\<close>, \<^verbatim>\<open>Contains\<close>, \<^verbatim>\<open>Split\<close>, \<^verbatim>\<open>SplitN(s, sep, 2)\<close>,
  \<^verbatim>\<open>TrimSpace\<close>, \<^verbatim>\<open>TrimRight\<close> and \<^verbatim>\<open>EqualFold\<close>.  An index that Go reports as \<^verbatim>\<open>-1\<close> is
  \<^const>\<open>None\<close> here.
\<close>

section \<open>Prefixes and indices\<close>

definition has_prefix :: "string \<Rightarrow> string \<Rightarrow> bool" where
  "has_prefix s p \<longleftrightarrow> length p \<le> length s \<and> take (length p) s = p"

lemma has_prefix_append [simp]: "has_prefix (p @ s) p"
  by (simp add: has_prefix_def)

lemma has_prefix_iff: "has_prefix s p \<longleftrightarrow> (\<exists>t. s = p @ t)"
proof
  assume "has_prefix s p"
  then have "s = p @ drop (length p) s"
    unfolding has_prefix_def by (metis append_take_drop_id)
  then show "\<exists>t. s = p @ t" ..
qed (auto simp: has_prefix_def)

fun str_index :: "string \<Rightarrow> string \<Rightarrow> nat option" where
  "str_index [] sub = (if sub = [] then Some 0 else None)"
| "str_index (c # s) sub =
     (if has_prefix (c # s) sub then Some 0 else map_option Suc (str_index s sub))"

fun last_index :: "string \<Rightarrow> string \<Rightarrow> nat option" where
  "last_index [] sub = (if sub = [] then Some 0 else None)"
| "last_index (c # s) sub =
     (case last_index s sub of
        Some i \<Rightarrow> Some (Suc i)
      | None \<Rightarrow> if has_prefix (c # s) sub then Some 0 else None)"

definition str_contains :: "string \<Rightarrow> string \<Rightarrow> bool" where
  "str_contains s sub \<longleftrightarrow> str_index s sub \<noteq> None"

lemma str_index_bound: "str_index s sub = Some i \<Longrightarrow> i + length sub \<le> length s"
  by (induction s arbitrary: i) (auto simp: has_prefix_def split: if_splits)

lemma last_index_bound: "last_index s sub = Some i \<Longrightarrow> i + length sub \<le> length s"
  by (induction s arbitrary: i) (auto simp: has_prefix_def split: if_splits option.splits)

lemma has_prefix_single [simp]: "has_prefix (c # s) [x] \<longleftrightarrow> c = x"
  by (auto simp: has_prefix_def)

lemma str_index_single_None: "str_index s [x] = None \<longleftrightarrow> x \<notin> set s"
  by (induction s) auto

lemma str_index_single_take: "str_index s [x] = Some i \<Longrightarrow> x \<notin> set (take i s)"
  by (induction s arbitrary: i) (auto split: if_splits)

lemma last_index_single_None: "last_index s [x] = None \<longleftrightarrow> x \<notin> set s"
  by (induction s) (auto split: option.splits)

lemma str_contains_single [simp]: "str_contains s [x] \<longleftrightarrow> x \<in> set s"
  by (simp add: str_contains_def str_index_single_None)

lemma str_index_single_append: "x \<notin> set s \<Longrightarrow> str_index (s @ x # t) [x] = Some (length s)"
  by (induction s) auto

lemma last_index_single_append: "x \<notin> set t \<Longrightarrow> last_index (s @ x # t) [x] = Some (length s)"
proof (induction s)
  case Nil
  then have "last_index t [x] = None" by (simp add: last_index_single_None)
  then show ?case by simp
qed simp

lemma str_index_single_Some:
  "str_index s [x] = Some i \<Longrightarrow> x \<notin> set (take i s) \<and> i < length s \<and> s ! i = x"
  by (induction s arbitrary: i) (auto split: if_splits)

lemma last_index_single_Some:
  "last_index s [x] = Some i \<Longrightarrow> x \<notin> set (drop (Suc i) s) \<and> i < length s \<and> s ! i = x"
  by (induction s arbitrary: i) (auto split: if_splits option.splits simp: last_index_single_None)

section \<open>Splitting\<close>

text \<open>
  \<^verbatim>\<open>strings.Split(s, sep)\<close> for a separator that is not empty (the program splits at
  \<^verbatim>\<open>"\r\n"\<close>), and \<^verbatim>\<open>strings.SplitN(s, sep, 2)\<close>, which cuts at the first separator only.
\<close>

function str_split :: "string \<Rightarrow> string \<Rightarrow> string list" where
  "str_split s sep =
     (case str_index s sep of
        None \<Rightarrow> [s]
      | Some i \<Rightarrow> if sep = [] then [s] else take i s # str_split (drop (i + length sep) s) sep)"
  by pat_completeness auto
termination
proof (relation "measure (\<lambda>(s, sep). length s)", goal_cases)
  case (2 s sep i)
  then have "i + length sep \<le> length s" by (auto dest: str_index_bound)
  with 2 show ?case by (cases sep) auto
qed simp

declare str_split.simps [simp del]

definition splitn2 :: "string \<Rightarrow> string \<Rightarrow> string list" where
  "splitn2 s sep =
     (case str_index s sep of
        None \<Rightarrow> [s]
      | Some i \<Rightarrow> [take i s, drop (i + length sep) s])"

lemma splitn2_single [str_simps]: "x \<notin> set a \<Longrightarrow> splitn2 (a @ x # b) [x] = [a, b]"
  by (simp add: splitn2_def str_index_single_append)

section \<open>Trimming\<close>

text \<open>
  The white space of \<^verbatim>\<open>unicode.IsSpace\<close> as UTF-8 byte sequences: the six ASCII spaces, U+0085,
  U+00A0, U+1680, U+2000 to U+200A, U+2028, U+2029, U+202F, U+205F and U+3000.
  \<^verbatim>\<open>strings.TrimSpace\<close> removes such sequences from both ends.
\<close>

definition go_spaces :: "string list" where
  "go_spaces = [[CHR 0x09], [CHR 0x0A], [CHR 0x0B], [CHR 0x0C], [CHR 0x0D], '' '',
     [CHR 0xC2, CHR 0x85], [CHR 0xC2, CHR 0xA0], [CHR 0xE1, CHR 0x9A, CHR 0x80],
     [CHR 0xE2, CHR 0x80, CHR 0x80], [CHR 0xE2, CHR 0x80, CHR 0x81],
     [CHR 0xE2, CHR 0x80, CHR 0x82], [CHR 0xE2, CHR 0x80, CHR 0x83],
     [CHR 0xE2, CHR 0x80, CHR 0x84], [CHR 0xE2, CHR 0x80, CHR 0x85],
     [CHR 0xE2, CHR 0x80, CHR 0x86], [CHR 0xE2, CHR 0x80, CHR 0x87],
     [CHR 0xE2, CHR 0x80, CHR 0x88], [CHR 0xE2, CHR 0x80, CHR 0x89],
     [CHR 0xE2, CHR 0x80, CHR 0x8A], [CHR 0xE2, CHR 0x80, CHR 0xA8],
     [CHR 0xE2, CHR 0x80, CHR 0xA9], [CHR 0xE2, CHR 0x80, CHR 0xAF],
     [CHR 0xE2, CHR 0x81, CHR 0x9F], [CHR 0xE3, CHR 0x80, CHR 0x80]]"

function trim_left :: "string list \<Rightarrow> string \<Rightarrow> string" where
  "trim_left ws s =
     (case find (\<lambda>w. w \<noteq> [] \<and> has_prefix s w) ws of
        None \<Rightarrow> s
      | Some w \<Rightarrow> trim_left ws (drop (length w) s))"
  by pat_completeness auto
termination
proof (relation "measure (\<lambda>(ws, s). length s)", goal_cases)
  case (2 ws s w)
  then have "w \<noteq> []" and "has_prefix s w" by (auto simp: find_Some_iff)
  then show ?case by (cases s; cases w) (auto simp: has_prefix_def)
qed simp

declare trim_left.simps [simp del]

definition trim_space :: "string \<Rightarrow> string" where
  "trim_space s = rev (trim_left (map rev go_spaces) (rev (trim_left go_spaces s)))"

text \<open>\<^verbatim>\<open>strings.TrimRight(s, cutset)\<close> with an ASCII cutset.\<close>

definition trim_right :: "string \<Rightarrow> string \<Rightarrow> string" where
  "trim_right s cs = rev (dropWhile (\<lambda>c. c \<in> set cs) (rev s))"

text \<open>
  A string whose first character begins no white space and whose last character ends none is
  not changed by \<^const>\<open>trim_space\<close>.
\<close>

definition space_first :: "char set" where
  "space_first = set (map hd go_spaces)"

definition space_last :: "char set" where
  "space_last = set (map last go_spaces)"

lemma find_space_None:
  assumes "\<And>w. w \<in> set ws \<Longrightarrow> w \<noteq> []"
    and "s \<noteq> [] \<Longrightarrow> hd s \<notin> hd ` set ws"
  shows "find (\<lambda>w. w \<noteq> [] \<and> has_prefix s w) ws = None"
proof -
  have "\<not> has_prefix s w" if w: "w \<in> set ws" for w
  proof
    assume "has_prefix s w"
    with assms(1) [OF w] have "s \<noteq> []" and "hd s = hd w"
      by (auto simp: has_prefix_iff)
    with assms(2) w show False by auto
  qed
  then show ?thesis by (auto simp: find_None_iff)
qed

lemma trim_left_id:
  assumes "\<And>w. w \<in> set ws \<Longrightarrow> w \<noteq> []"
    and "s \<noteq> [] \<Longrightarrow> hd s \<notin> hd ` set ws"
  shows "trim_left ws s = s"
  using find_space_None [OF assms] by (subst trim_left.simps) simp

lemma go_spaces_nonempty: "w \<in> set go_spaces \<Longrightarrow> w \<noteq> []"
  by (auto simp: go_spaces_def)

lemma rev_go_spaces_nonempty: "w \<in> set (map rev go_spaces) \<Longrightarrow> w \<noteq> []"
  using go_spaces_nonempty by auto

lemma hd_rev_go_spaces: "hd ` set (map rev go_spaces) = space_last"
  unfolding space_last_def by (auto simp: hd_rev go_spaces_nonempty image_image)

lemma trim_space_id:
  assumes "s \<noteq> [] \<Longrightarrow> hd s \<notin> space_first" and "s \<noteq> [] \<Longrightarrow> last s \<notin> space_last"
  shows "trim_space s = s"
proof -
  have "trim_left go_spaces s = s"
    using assms(1) by (intro trim_left_id) (auto simp: space_first_def go_spaces_nonempty)
  moreover have "trim_left (map rev go_spaces) (rev s) = rev s"
    using assms(2)
    by (intro trim_left_id rev_go_spaces_nonempty)
      (auto simp: hd_rev simp flip: hd_rev_go_spaces)
  ultimately show ?thesis by (simp add: trim_space_def)
qed

text \<open>A line break at the end of such a string is removed.\<close>

lemma trim_space_line:
  assumes "s \<noteq> []" and "hd s \<notin> space_first" and "last s \<notin> space_last"
  shows "trim_space (s @ [CHR 0x0A]) = s"
proof -
  have "trim_left go_spaces (s @ [CHR 0x0A]) = s @ [CHR 0x0A]"
    using assms(1,2) by (intro trim_left_id) (auto simp: space_first_def go_spaces_nonempty)
  moreover have "trim_left (map rev go_spaces) (CHR 0x0A # rev s) = rev s"
  proof -
    have "find (\<lambda>w. w \<noteq> [] \<and> has_prefix (CHR 0x0A # rev s) w) (map rev go_spaces)
      = Some [CHR 0x0A]"
      by (simp add: go_spaces_def)
    moreover have "trim_left (map rev go_spaces) (rev s) = rev s"
      using assms by (intro trim_left_id rev_go_spaces_nonempty)
        (auto simp: hd_rev simp flip: hd_rev_go_spaces)
    ultimately show ?thesis by (subst trim_left.simps) simp
  qed
  ultimately show ?thesis by (simp add: trim_space_def)
qed

text \<open>White space around a string is removed: its sequences neither begin nor end each other.\<close>

lemma go_spaces_prefix_free:
  "\<forall>w\<in>set go_spaces. \<forall>b\<in>set go_spaces. prefix w b \<longrightarrow> w = b"
  "\<forall>w\<in>set (map rev go_spaces). \<forall>b\<in>set (map rev go_spaces). prefix w b \<longrightarrow> w = b"
  by code_simp+

lemma trim_left_padded:
  assumes ws: "\<And>w. w \<in> set ws \<Longrightarrow> w \<noteq> []" "\<forall>w\<in>set ws. \<forall>b\<in>set ws. prefix w b \<longrightarrow> w = b"
    and s: "s \<noteq> [] \<Longrightarrow> hd s \<notin> hd ` set ws" and bs: "set bs \<subseteq> set ws"
  shows "trim_left ws (concat bs @ s) = s"
  using bs
proof (induction bs)
  case Nil
  then show ?case using trim_left_id [OF ws(1) s] by simp
next
  case (Cons b bs)
  let ?t = "b @ concat bs @ s"
  have b: "b \<in> set ws" "b \<noteq> []" using Cons.prems ws(1) by auto
  have "has_prefix ?t b" by simp
  with b have "find (\<lambda>w. w \<noteq> [] \<and> has_prefix ?t w) ws \<noteq> None" by (auto simp: find_None_iff)
  then obtain w where w: "find (\<lambda>w. w \<noteq> [] \<and> has_prefix ?t w) ws = Some w" by auto
  then have "w \<in> set ws" "has_prefix ?t w" by (auto simp: find_Some_iff)
  moreover have "prefix w b \<or> prefix b w"
    using \<open>has_prefix ?t w\<close> prefix_same_cases [of w ?t b] by (auto simp: has_prefix_iff prefix_def)
  ultimately have "w = b" using ws(2) b(1) by auto
  with w Cons show ?case by (subst trim_left.simps) simp
qed

lemma trim_space_padded:
  assumes "set bs \<subseteq> set go_spaces" and "set cs \<subseteq> set go_spaces"
    and "s \<noteq> []" and "hd s \<notin> space_first" and "last s \<notin> space_last"
  shows "trim_space (concat bs @ s @ concat cs) = s"
proof -
  have "trim_left go_spaces (concat bs @ s @ concat cs) = s @ concat cs"
    using assms by (intro trim_left_padded go_spaces_nonempty go_spaces_prefix_free)
      (auto simp: space_first_def)
  moreover have "trim_left (map rev go_spaces) (concat (rev (map rev cs)) @ rev s) = rev s"
    using assms(2,3,5) by (intro trim_left_padded rev_go_spaces_nonempty go_spaces_prefix_free)
      (auto simp: hd_rev simp flip: hd_rev_go_spaces)
  ultimately show ?thesis by (simp add: trim_space_def rev_concat rev_map)
qed

text \<open>A line of one line feed, at its end, has none once it is trimmed.\<close>

lemma trim_left_suffix: "suffix (trim_left ws s) s"
proof (induction ws s rule: trim_left.induct)
  case (1 ws s)
  show ?case
  proof (cases "find (\<lambda>w. w \<noteq> [] \<and> has_prefix s w) ws")
    case None
    then show ?thesis by (subst trim_left.simps) simp
  next
    case (Some w)
    with 1 [OF Some] suffix_drop [of "length w" s] show ?thesis
      by (subst trim_left.simps) (auto intro: suffix_order.trans)
  qed
qed

lemma trim_left_hd: "[x] \<in> set ws \<Longrightarrow> trim_left ws s = y # t \<Longrightarrow> y \<noteq> x"
proof (induction ws s rule: trim_left.induct)
  case (1 ws s)
  show ?case
  proof (cases "find (\<lambda>w. w \<noteq> [] \<and> has_prefix s w) ws")
    case None
    with 1(3) have "s = y # t" by (subst (asm) trim_left.simps) simp
    with None 1(2) show ?thesis by (auto simp: find_None_iff)
  next
    case (Some w)
    with 1(3) have "trim_left ws (drop (length w) s) = y # t" by (subst (asm) trim_left.simps) simp
    with 1(1) [OF Some 1(2)] show ?thesis .
  qed
qed

lemma trim_space_no_newline:
  assumes "CHR 0x0A \<notin> set l"
  shows "CHR 0x0A \<notin> set (trim_space (l @ [CHR 0x0A]))"
proof -
  let ?a = "trim_left go_spaces (l @ [CHR 0x0A])"
  let ?b = "trim_left (map rev go_spaces) (rev ?a)"
  obtain u where u: "l @ [CHR 0x0A] = u @ ?a" using trim_left_suffix by (auto simp: suffix_def)
  obtain v where v: "rev ?a = v @ ?b" using trim_left_suffix by (auto simp: suffix_def)
  show ?thesis
  proof (cases ?b)
    case (Cons y t)
    have "[CHR 0x0A] \<in> set (map rev go_spaces)" by (simp add: go_spaces_def)
    from trim_left_hd [OF this Cons] have y: "y \<noteq> CHR 0x0A" .
    have a: "?a = rev ?b @ rev v" using arg_cong [OF v, of rev] by simp
    have "last (l @ [CHR 0x0A]) = last ?a" using u a Cons by (simp add: last_append)
    then have "v \<noteq> []" using a Cons y by (auto simp: last_append)
    then obtain x v' where "v = x # v'" by (cases v) auto
    with a have "?a = (rev ?b @ rev v') @ [x]" by simp
    with u have "l @ [CHR 0x0A] = (u @ rev ?b @ rev v') @ [x]" by (metis append.assoc)
    then have "l = u @ rev ?b @ rev v'" unfolding append1_eq_conv ..
    with assms show ?thesis unfolding trim_space_def by (metis Un_iff set_append)
  qed (simp add: trim_space_def)
qed

section \<open>Case folding\<close>

text \<open>
  \<^verbatim>\<open>strings.EqualFold\<close> against an ASCII string of the same length in bytes: both then have one
  byte for each letter, and simple folding is lower-casing.
\<close>

definition ascii_lower :: "char \<Rightarrow> char" where
  "ascii_lower c =
     (let n = (of_char c :: nat) in if 65 \<le> n \<and> n \<le> 90 then char_of (n + 32) else c)"

definition equal_fold :: "string \<Rightarrow> string \<Rightarrow> bool" where
  "equal_fold s t \<longleftrightarrow> map ascii_lower s = map ascii_lower t"

end
