(* ===== verification/Go_Net.thy ===== *)
theory Go_Net
  imports Go_Strings
begin

text \<open>
  What the program uses of Go's packages \<^verbatim>\<open>net\<close> and \<^verbatim>\<open>io\<close>: a connection as the bytes its peer will
  still send and the bytes written to it, \<^verbatim>\<open>Read\<close>, \<^verbatim>\<open>io.ReadFull\<close>, \<^verbatim>\<open>Write\<close>, deadlines and closing;
  the text form of IP addresses, \<^verbatim>\<open>JoinHostPort\<close>, \<^verbatim>\<open>SplitHostPort\<close> and \<^verbatim>\<open>Dial\<close>.

  The network is a parameter.  A peer is a script: the segments it sends, in the sizes in which
  \<^verbatim>\<open>Read\<close> delivers them, followed by the end of the stream, an error or the deadline (the code treats
  the three alike), and the outcome of each write to it.  Every theorem quantifies over the script.
\<close>

section \<open>Connections\<close>

datatype wres = WOk | WErr nat \<comment> \<open>an error after so many bytes went out\<close>

record conn =
  inq :: "byte list list"      \<comment> \<open>segments still to be read; then reads fail\<close>
  wq :: "wres list"            \<comment> \<open>outcomes of the coming writes; later ones succeed\<close>
  outq :: "byte list"          \<comment> \<open>bytes that went out\<close>
  deadline :: "nat option"     \<comment> \<open>the deadline in force, in seconds from where it was set\<close>
  is_tcp :: bool               \<comment> \<open>whether the value is a \<open>*net.TCPConn\<close>\<close>
  wclosed :: bool              \<comment> \<open>\<open>CloseWrite\<close> was called\<close>
  closed :: bool               \<comment> \<open>\<open>Close\<close> was called\<close>

definition fresh_conn :: "byte list list \<Rightarrow> wres list \<Rightarrow> conn" where
  "fresh_conn segs ws = \<lparr>inq = segs, wq = ws, outq = [], deadline = None, is_tcp = True,
     wclosed = False, closed = False\<rparr>"

text \<open>\<^verbatim>\<open>conn.Read(buf)\<close> with a buffer of \<open>n\<close> bytes; \<^const>\<open>None\<close> is an error.\<close>

definition conn_read :: "nat \<Rightarrow> conn \<Rightarrow> (byte list \<times> conn) option" where
  "conn_read n c =
     (if closed c then None
      else case inq c of
        [] \<Rightarrow> None
      | seg # q \<Rightarrow>
          Some (take n seg, c\<lparr>inq := (if length seg \<le> n then q else drop n seg # q)\<rparr>))"

text \<open>\<^verbatim>\<open>io.ReadFull(conn, buf)\<close>: reads until \<open>k\<close> bytes are there, none when \<open>k\<close> is 0.\<close>

fun take_bytes :: "nat \<Rightarrow> byte list list \<Rightarrow> (byte list \<times> byte list list) option" where
  "take_bytes 0 q = Some ([], q)"
| "take_bytes (Suc k) [] = None"
| "take_bytes (Suc k) (seg # q) =
     (if Suc k < length seg then Some (take (Suc k) seg, drop (Suc k) seg # q)
      else case take_bytes (Suc k - length seg) q of
             None \<Rightarrow> None
           | Some (b, q') \<Rightarrow> Some (seg @ b, q'))"

definition read_full :: "nat \<Rightarrow> conn \<Rightarrow> (byte list \<times> conn) option" where
  "read_full k c =
     (case take_bytes k (if closed c then [] else inq c) of
        None \<Rightarrow> None
      | Some (b, q) \<Rightarrow> Some (b, if closed c then c else c\<lparr>inq := q\<rparr>))"

text \<open>\<^verbatim>\<open>conn.Write(b)\<close>: whether it succeeded, and the connection after it.\<close>

definition conn_write :: "byte list \<Rightarrow> conn \<Rightarrow> bool \<times> conn" where
  "conn_write b c =
     (if closed c \<or> wclosed c then (False, c)
      else case wq c of
        [] \<Rightarrow> (True, c\<lparr>outq := outq c @ b\<rparr>)
      | WOk # ws \<Rightarrow> (True, c\<lparr>wq := ws, outq := outq c @ b\<rparr>)
      | WErr k # ws \<Rightarrow> (False, c\<lparr>wq := ws, outq := outq c @ take k b\<rparr>))"

definition set_deadline :: "nat option \<Rightarrow> conn \<Rightarrow> conn" where
  "set_deadline d c = c\<lparr>deadline := d\<rparr>"

definition conn_close :: "conn \<Rightarrow> conn" where
  "conn_close c = c\<lparr>closed := True\<rparr>"

subsection \<open>Reads depend on the stream, not on its segments\<close>

definition stream :: "conn \<Rightarrow> byte list" where
  "stream c = (if closed c then [] else concat (inq c))"

definition writable :: "conn \<Rightarrow> bool" where
  "writable c \<longleftrightarrow> \<not> closed c \<and> \<not> wclosed c \<and> wq c = []"

lemma take_bytes_Some:
  "take_bytes k q = Some (b, q') \<Longrightarrow>
     b = take k (concat q) \<and> concat q' = drop k (concat q) \<and> k \<le> length (concat q)"
  by (induction k q arbitrary: b q' rule: take_bytes.induct)
    (auto split: if_splits option.splits)

lemma take_bytes_None: "take_bytes k q = None \<longleftrightarrow> length (concat q) < k"
  by (induction k q rule: take_bytes.induct) (auto split: option.splits)

lemma read_full_None [seg_simps]: "read_full k c = None \<longleftrightarrow> length (stream c) < k"
  using take_bytes_None [of k "if closed c then [] else inq c"]
  by (auto simp: read_full_def stream_def split: option.splits if_splits)

lemma read_full_Some:
  assumes "read_full k c = Some (b, c')"
  shows "b = take k (stream c)" "stream c' = drop k (stream c)" "k \<le> length (stream c)"
    "\<exists>q. c' = c\<lparr>inq := q\<rparr>"
  using assms take_bytes_Some [of k "if closed c then [] else inq c"]
  by (auto simp: read_full_def stream_def split: option.splits if_splits
      intro: exI [of _ "inq c"])

lemma read_full_length: "read_full k c = Some (b, c') \<Longrightarrow> length b = k"
  using read_full_Some [of k c b c'] by simp

lemma read_full_append:
  assumes "stream c = b @ rest" and "length b = k"
  obtains q where "read_full k c = Some (b, c\<lparr>inq := q\<rparr>)" and "stream (c\<lparr>inq := q\<rparr>) = rest"
proof -
  have "read_full k c \<noteq> None" using assms by (simp add: read_full_None)
  then obtain b' c' where r: "read_full k c = Some (b', c')" by auto
  from read_full_Some [OF r] assms have "b' = b" and "stream c' = rest" by auto
  with r read_full_Some(4) [OF r] that show thesis by metis
qed

lemma conn_write_frame [simp]:
  "inq (snd (conn_write b c)) = inq c" "deadline (snd (conn_write b c)) = deadline c"
  "is_tcp (snd (conn_write b c)) = is_tcp c" "closed (snd (conn_write b c)) = closed c"
  "wclosed (snd (conn_write b c)) = wclosed c" "stream (snd (conn_write b c)) = stream c"
  by (auto simp: conn_write_def stream_def split: list.splits wres.splits)

lemma conn_write_ok [simp]:
  "writable c \<Longrightarrow> conn_write b c = (True, c\<lparr>outq := outq c @ b\<rparr>)"
  by (simp add: conn_write_def writable_def)

lemma conn_write_True: "conn_write b c = (True, c') \<Longrightarrow> outq c' = outq c @ b"
  by (auto simp: conn_write_def split: list.splits wres.splits if_splits)

lemma set_deadline_frame [simp]:
  "inq (set_deadline d c) = inq c" "wq (set_deadline d c) = wq c"
  "outq (set_deadline d c) = outq c" "deadline (set_deadline d c) = d"
  "is_tcp (set_deadline d c) = is_tcp c" "stream (set_deadline d c) = stream c"
  "closed (set_deadline d c) = closed c" "wclosed (set_deadline d c) = wclosed c"
  "writable (set_deadline d c) = writable c"
  by (simp_all add: set_deadline_def stream_def writable_def)

lemma conn_update_frame [simp]:
  "stream (c\<lparr>outq := x\<rparr>) = stream c" "writable (c\<lparr>inq := q\<rparr>) = writable c"
  "writable (c\<lparr>outq := x\<rparr>) = writable c"
  by (simp_all add: stream_def writable_def)

lemma fresh_conn_simps [simp]:
  "writable (fresh_conn q [])" "stream (fresh_conn q ws) = concat q" "outq (fresh_conn q ws) = []"
  by (simp_all add: fresh_conn_def writable_def stream_def)

lemma conn_close_simps [simp]: "outq (conn_close c) = outq c" "closed (conn_close c)"
  by (simp_all add: conn_close_def)

end
