(* ===== verification/Buffer_Pool.thy ===== *)
theory Buffer_Pool
  imports Go_Net
begin

text \<open>
  \<^verbatim>\<open>internal/pool/pool.go\<close>, the three tiers of buffers.  A buffer is the whole slice a tier
  handed out: its length is its capacity, and its bytes are what its last user left in it.
  \<^verbatim>\<open>sync.Pool\<close> is Go's: its \<^verbatim>\<open>Get\<close> takes any available value or calls \<^verbatim>\<open>New\<close>, and the garbage
  collector may drop values; which of these happens is the \<open>pick\<close> argument.  The statistics are
  the package variable \<^verbatim>\<open>globalStats\<close>, to which the \<^verbatim>\<open>stats\<close> pointer of every pool points, so
  the operations take and return them.
\<close>

definition BufferSize :: nat where "BufferSize = 64 * 1024"
definition SmallBufSize :: nat where "SmallBufSize = 4 * 1024"
definition LargeBufSize :: nat where "LargeBufSize = 256 * 1024"
definition WarmupBuffers :: nat where "WarmupBuffers = 128"

record pool_stats =
  allocated :: i64
  reused :: i64
  put_back :: i64
  dropped :: i64

type_synonym buffer = "byte list"

record buffer_pool =
  small :: "buffer list"
  medium :: "buffer list"
  large :: "buffer list"
  stats :: pool_stats

section \<open>\<open>sync.Pool\<close>\<close>

type_synonym pick = "nat option"

definition tier_get :: "pick \<Rightarrow> nat \<Rightarrow> buffer list \<Rightarrow> buffer \<times> buffer list \<times> bool" where
  "tier_get pick sz bs =
     (case pick of
        Some i \<Rightarrow> if i < length bs then (bs ! i, take i bs @ drop (Suc i) bs, False)
                  else (replicate sz 0, bs, True)
      | None \<Rightarrow> (replicate sz 0, bs, True))"

definition count_new :: "bool \<Rightarrow> pool_stats \<Rightarrow> pool_stats" where
  "count_new is_new st = (if is_new then st\<lparr>allocated := allocated st + 1\<rparr> else st)"

section \<open>The operations\<close>

definition pool_small_get :: "pick \<Rightarrow> buffer_pool \<Rightarrow> buffer \<times> buffer_pool" where
  "pool_small_get pick bp =
     (let (b, bs, n) = tier_get pick SmallBufSize (small bp)
      in (b, bp\<lparr>small := bs, stats := count_new n (stats bp)\<rparr>))"

definition pool_medium_get :: "pick \<Rightarrow> buffer_pool \<Rightarrow> buffer \<times> buffer_pool" where
  "pool_medium_get pick bp =
     (let (b, bs, n) = tier_get pick BufferSize (medium bp)
      in (b, bp\<lparr>medium := bs, stats := count_new n (stats bp)\<rparr>))"

definition pool_large_get :: "pick \<Rightarrow> buffer_pool \<Rightarrow> buffer \<times> buffer_pool" where
  "pool_large_get pick bp =
     (let (b, bs, n) = tier_get pick LargeBufSize (large bp)
      in (b, bp\<lparr>large := bs, stats := count_new n (stats bp)\<rparr>))"

definition count_reused :: "buffer_pool \<Rightarrow> buffer_pool" where
  "count_reused bp = bp\<lparr>stats := (stats bp)\<lparr>reused := reused (stats bp) + 1\<rparr>\<rparr>"

definition count_put_back :: "buffer_pool \<Rightarrow> buffer_pool" where
  "count_put_back bp = bp\<lparr>stats := (stats bp)\<lparr>put_back := put_back (stats bp) + 1\<rparr>\<rparr>"

definition count_dropped :: "buffer_pool \<Rightarrow> buffer_pool" where
  "count_dropped bp = bp\<lparr>stats := (stats bp)\<lparr>dropped := dropped (stats bp) + 1\<rparr>\<rparr>"

definition Get :: "pick \<Rightarrow> buffer_pool \<Rightarrow> buffer \<times> buffer_pool" where
  "Get pick bp = pool_medium_get pick (count_reused bp)"

definition GetSmall :: "pick \<Rightarrow> buffer_pool \<Rightarrow> buffer \<times> buffer_pool" where
  "GetSmall pick bp = pool_small_get pick (count_reused bp)"

definition GetLarge :: "pick \<Rightarrow> buffer_pool \<Rightarrow> buffer \<times> buffer_pool" where
  "GetLarge pick bp = pool_large_get pick (count_reused bp)"

text \<open>A nil slice is \<^const>\<open>None\<close>.\<close>

definition Put :: "buffer option \<Rightarrow> buffer_pool \<Rightarrow> buffer_pool" where
  "Put b bp =
     (case b of
        None \<Rightarrow> bp
      | Some b \<Rightarrow>
          if LargeBufSize \<le> length b then count_put_back (bp\<lparr>large := b # large bp\<rparr>)
          else if BufferSize \<le> length b then count_put_back (bp\<lparr>medium := b # medium bp\<rparr>)
          else if SmallBufSize \<le> length b then count_put_back (bp\<lparr>small := b # small bp\<rparr>)
          else count_dropped bp)"

definition PutSmall :: "buffer option \<Rightarrow> buffer_pool \<Rightarrow> buffer_pool" where
  "PutSmall b bp =
     (case b of None \<Rightarrow> bp | Some b \<Rightarrow> count_put_back (bp\<lparr>small := b # small bp\<rparr>))"

definition PutLarge :: "buffer option \<Rightarrow> buffer_pool \<Rightarrow> buffer_pool" where
  "PutLarge b bp =
     (case b of None \<Rightarrow> bp | Some b \<Rightarrow> count_put_back (bp\<lparr>large := b # large bp\<rparr>))"

definition PoolGetStats :: "buffer_pool \<Rightarrow> pool_stats" where
  "PoolGetStats bp = stats bp"

text \<open>
  \<^verbatim>\<open>New\<close>: the pool starts empty over the global statistics, then each of the 128 rounds of the
  warm-up loop gets one value of each tier and puts it back at once.
\<close>

definition warm_round :: "pick \<times> pick \<times> pick \<Rightarrow> buffer_pool \<Rightarrow> buffer_pool" where
  "warm_round p bp =
     (let (s, bp) = pool_small_get (fst p) bp;
          bp = bp\<lparr>small := s # small bp\<rparr>;
          (m, bp) = pool_medium_get (fst (snd p)) bp;
          bp = bp\<lparr>medium := m # medium bp\<rparr>;
          (l, bp) = pool_large_get (snd (snd p)) bp
      in bp\<lparr>large := l # large bp\<rparr>)"

definition empty_pool :: "pool_stats \<Rightarrow> buffer_pool" where
  "empty_pool st = \<lparr>small = [], medium = [], large = [], stats = st\<rparr>"

definition New :: "(nat \<Rightarrow> pick \<times> pick \<times> pick) \<Rightarrow> pool_stats \<Rightarrow> buffer_pool" where
  "New picks st =
     fold (\<lambda>i. warm_round (picks i)) [0..<WarmupBuffers] (empty_pool st)"

lemmas pool_defs =
  pool_small_get_def pool_medium_get_def pool_large_get_def count_reused_def
  count_put_back_def count_dropped_def count_new_def tier_get_def

lemmas size_defs [go_defs] = BufferSize_def SmallBufSize_def LargeBufSize_def WarmupBuffers_def

section \<open>Users of a pool\<close>

text \<open>
  The program's use of a pool: goroutines get buffers, write into the ones they hold (the
  capacity cannot change), and give each back with the operation of its tier; the collector may
  drop pooled buffers.  \<open>held\<close> lists the buffers that are out with their tiers, \<open>collected\<close>
  counts the dropped ones.
\<close>

datatype tier = Small | Medium | Large

fun tier_size :: "tier \<Rightarrow> nat" where
  "tier_size Small = SmallBufSize"
| "tier_size Medium = BufferSize"
| "tier_size Large = LargeBufSize"

fun pool_get :: "tier \<Rightarrow> pick \<Rightarrow> buffer_pool \<Rightarrow> buffer \<times> buffer_pool" where
  "pool_get Small = GetSmall"
| "pool_get Medium = Get"
| "pool_get Large = GetLarge"

fun pool_put :: "tier \<Rightarrow> buffer option \<Rightarrow> buffer_pool \<Rightarrow> buffer_pool" where
  "pool_put Small = PutSmall"
| "pool_put Medium = Put"
| "pool_put Large = PutLarge"

fun pooled :: "tier \<Rightarrow> buffer_pool \<Rightarrow> buffer list" where
  "pooled Small = small"
| "pooled Medium = medium"
| "pooled Large = large"

fun set_pooled :: "tier \<Rightarrow> buffer list \<Rightarrow> buffer_pool \<Rightarrow> buffer_pool" where
  "set_pooled Small bs bp = bp\<lparr>small := bs\<rparr>"
| "set_pooled Medium bs bp = bp\<lparr>medium := bs\<rparr>"
| "set_pooled Large bs bp = bp\<lparr>large := bs\<rparr>"

datatype pool_op =
    OpGet tier pick
  | OpWrite nat buffer \<comment> \<open>overwrite the buffer held at this index\<close>
  | OpPut nat          \<comment> \<open>give it back\<close>
  | OpCollect tier nat \<comment> \<open>the collector drops a pooled buffer\<close>

record pool_use =
  the_pool :: buffer_pool
  held :: "(tier \<times> buffer) list"
  collected :: nat

definition remove_nth :: "nat \<Rightarrow> 'a list \<Rightarrow> 'a list" where
  "remove_nth i xs = take i xs @ drop (Suc i) xs"

fun pool_step :: "pool_op \<Rightarrow> pool_use \<Rightarrow> pool_use" where
  "pool_step (OpGet t pick) u =
     (let (b, bp) = pool_get t pick (the_pool u)
      in u\<lparr>the_pool := bp, held := (t, b) # held u\<rparr>)"
| "pool_step (OpWrite i b') u =
     (if i < length (held u) \<and> length b' = length (snd (held u ! i))
      then u\<lparr>held := (held u)[i := (fst (held u ! i), b')]\<rparr> else u)"
| "pool_step (OpPut i) u =
     (if i < length (held u)
      then u\<lparr>the_pool := pool_put (fst (held u ! i)) (Some (snd (held u ! i))) (the_pool u),
             held := remove_nth i (held u)\<rparr>
      else u)"
| "pool_step (OpCollect t i) u =
     (if i < length (pooled t (the_pool u))
      then u\<lparr>the_pool := set_pooled t (remove_nth i (pooled t (the_pool u))) (the_pool u),
             collected := Suc (collected u)\<rparr>
      else u)"

definition pool_run :: "pool_op list \<Rightarrow> pool_use \<Rightarrow> pool_use" where
  "pool_run ops u = fold pool_step ops u"

text \<open>The invariant: every buffer of a tier, pooled or out, has the capacity of its tier.\<close>

definition pool_wf :: "buffer_pool \<Rightarrow> bool" where
  "pool_wf bp \<longleftrightarrow> (\<forall>t. \<forall>b\<in>set (pooled t bp). length b = tier_size t)"

definition use_wf :: "pool_use \<Rightarrow> bool" where
  "use_wf u \<longleftrightarrow> pool_wf (the_pool u) \<and> (\<forall>(t, b)\<in>set (held u). length b = tier_size t)"

text \<open>And what \<^verbatim>\<open>Allocated\<close> counts: the buffers pooled, out and collected together.\<close>

definition live :: "pool_use \<Rightarrow> nat" where
  "live u = length (small (the_pool u)) + length (medium (the_pool u)) +
     length (large (the_pool u)) + length (held u)"

section \<open>A tier as a source of buffers\<close>

text \<open>
  What the users of a tier rely on: a buffer that is got has the tier's capacity, whatever the
  pool held, and giving back a buffer of that capacity keeps the pool in order.
\<close>

locale buffer_source =
  fixes get :: "pick \<Rightarrow> buffer_pool \<Rightarrow> buffer \<times> buffer_pool"
    and put :: "buffer option \<Rightarrow> buffer_pool \<Rightarrow> buffer_pool"
    and bytes :: nat
  assumes get_length: "pool_wf bp \<Longrightarrow> length (fst (get pick bp)) = bytes"
    and get_wf: "pool_wf bp \<Longrightarrow> pool_wf (snd (get pick bp))"
    and put_wf: "pool_wf bp \<Longrightarrow> length b = bytes \<Longrightarrow> pool_wf (put (Some b) bp)"
    and get_reused: "reused (stats (snd (get pick bp))) = reused (stats bp) + 1"
    and get_put_back: "put_back (stats (snd (get pick bp))) = put_back (stats bp)"
    and put_put_back: "length b = bytes \<Longrightarrow> put_back (stats (put (Some b) bp)) = put_back (stats bp) + 1"
    and put_reused: "reused (stats (put (Some b) bp)) = reused (stats bp)"
begin

text \<open>A user that gets a buffer, works in it and gives it back leaves the pool in order and balanced.\<close>

lemma borrow_wf:
  assumes "pool_wf bp" and "length (f (fst (get pick bp))) = length (fst (get pick bp))"
  shows "pool_wf (put (Some (f (fst (get pick bp)))) (snd (get pick bp)))"
  using assms by (intro put_wf get_wf) (auto simp: get_length)

lemma borrow_balance:
  assumes "pool_wf bp" and "length b = bytes"
  shows "reused (stats (put (Some b) (snd (get pick bp)))) = reused (stats bp) + 1 \<and>
    put_back (stats (put (Some b) (snd (get pick bp)))) = put_back (stats bp) + 1"
  using assms by (simp add: put_reused get_reused put_put_back get_put_back)

end

lemma all_tiers: "(\<forall>t. P t) \<longleftrightarrow> P Small \<and> P Medium \<and> P Large"
  by (metis tier.exhaust)

lemma pool_wf_iff:
  "pool_wf bp \<longleftrightarrow> (\<forall>b\<in>set (small bp). length b = SmallBufSize) \<and>
     (\<forall>b\<in>set (medium bp). length b = BufferSize) \<and>
     (\<forall>b\<in>set (large bp). length b = LargeBufSize)"
  by (simp add: pool_wf_def all_tiers)

lemma pool_wf_empty [simp]: "pool_wf (empty_pool st)"
  by (simp add: pool_wf_iff empty_pool_def)

lemma in_set_remove_nth: "x \<in> set (take i xs @ drop (Suc i) xs) \<Longrightarrow> x \<in> set xs"
  by (auto dest: in_set_takeD in_set_dropD)

lemma tier_get_length:
  assumes "\<forall>b\<in>set bs. length b = n"
  shows "length (fst (tier_get pick n bs)) = n"
    and "\<forall>b\<in>set (fst (snd (tier_get pick n bs))). length b = n"
  using assms
  by (auto simp: tier_get_def split: option.splits dest: in_set_takeD in_set_dropD)

lemma pool_get_tier:
  "fst (pool_get t pick bp) = fst (tier_get pick (tier_size t) (pooled t bp))"
  "pooled t' (snd (pool_get t pick bp)) =
     (if t' = t then fst (snd (tier_get pick (tier_size t) (pooled t bp))) else pooled t' bp)"
  by (cases t; cases t'; simp add: GetSmall_def Get_def GetLarge_def pool_small_get_def
      pool_medium_get_def pool_large_get_def count_reused_def split: prod.splits)+

lemma pool_get_wf:
  assumes "pool_wf bp"
  shows "length (fst (pool_get t pick bp)) = tier_size t" and "pool_wf (snd (pool_get t pick bp))"
proof -
  have "\<forall>b\<in>set (pooled t bp). length b = tier_size t" using assms by (simp add: pool_wf_def)
  from tier_get_length [OF this, of pick]
  show "length (fst (pool_get t pick bp)) = tier_size t" and "pool_wf (snd (pool_get t pick bp))"
    using assms by (simp_all add: pool_get_tier pool_wf_def)
qed

lemma pool_put_wf:
  assumes "pool_wf bp" and "length b = tier_size t"
  shows "pool_wf (pool_put t (Some b) bp)"
  using assms
  by (cases t) (auto simp: pool_wf_iff PutSmall_def Put_def PutLarge_def count_put_back_def
      size_defs)

lemma pool_get_stats [simp]:
  "reused (stats (snd (pool_get t pick bp))) = reused (stats bp) + 1"
  "put_back (stats (snd (pool_get t pick bp))) = put_back (stats bp)"
  "dropped (stats (snd (pool_get t pick bp))) = dropped (stats bp)"
  by (cases t; simp add: GetSmall_def Get_def GetLarge_def pool_small_get_def
      pool_medium_get_def pool_large_get_def count_reused_def count_new_def split: prod.splits)+

lemma pool_put_stats [simp]:
  "reused (stats (pool_put t b bp)) = reused (stats bp)"
  "allocated (stats (pool_put t b bp)) = allocated (stats bp)"
  by (cases t; cases b; simp add: PutSmall_def Put_def PutLarge_def count_put_back_def
      count_dropped_def)+

lemma pool_put_put_back [simp]:
  "length b = tier_size t \<Longrightarrow>
     put_back (stats (pool_put t (Some b) bp)) = put_back (stats bp) + 1"
  by (cases t) (simp_all add: PutSmall_def Put_def PutLarge_def count_put_back_def size_defs)

interpretation small_source: buffer_source GetSmall PutSmall SmallBufSize
  using pool_get_wf [of _ Small] pool_put_wf [of _ _ Small] pool_get_stats [of Small]
    pool_put_stats [of Small] pool_put_put_back [of _ Small]
  by unfold_locales simp_all

interpretation medium_source: buffer_source Get Put BufferSize
  using pool_get_wf [of _ Medium] pool_put_wf [of _ _ Medium] pool_get_stats [of Medium]
    pool_put_stats [of Medium] pool_put_put_back [of _ Medium]
  by unfold_locales simp_all

interpretation large_source: buffer_source GetLarge PutLarge LargeBufSize
  using pool_get_wf [of _ Large] pool_put_wf [of _ _ Large] pool_get_stats [of Large]
    pool_put_stats [of Large] pool_put_put_back [of _ Large]
  by unfold_locales simp_all

section \<open>Any run of users keeps the pool in order\<close>

lemma pool_collect_wf:
  assumes "pool_wf bp"
  shows "pool_wf (set_pooled t (remove_nth i (pooled t bp)) bp)"
  using assms by (cases t)
    (auto simp: pool_wf_iff remove_nth_def dest: in_set_takeD in_set_dropD)

lemma pool_step_wf: "use_wf u \<Longrightarrow> use_wf (pool_step op u)"
proof (cases op)
  case (OpGet t pick)
  assume "use_wf u"
  with pool_get_wf [of "the_pool u" t pick] show ?thesis
    by (auto simp: OpGet use_wf_def split: prod.splits)
next
  case (OpWrite i b)
  assume u: "use_wf u"
  show ?thesis
  proof (cases "i < length (held u) \<and> length b = length (snd (held u ! i))")
    case True
    with u have "length b = tier_size (fst (held u ! i))"
      by (force simp: use_wf_def dest: nth_mem)
    with True u show ?thesis
      by (auto simp: OpWrite use_wf_def dest!: set_update_subset_insert [THEN subsetD])
  qed (use u in \<open>auto simp: OpWrite\<close>)
next
  case (OpPut i)
  assume u: "use_wf u"
  show ?thesis
  proof (cases "i < length (held u)")
    case True
    with u have "length (snd (held u ! i)) = tier_size (fst (held u ! i))"
      by (force simp: use_wf_def dest: nth_mem)
    with True u show ?thesis
      by (auto simp: OpPut use_wf_def remove_nth_def intro!: pool_put_wf
          dest: in_set_takeD in_set_dropD)
  qed (use u in \<open>simp add: OpPut\<close>)
next
  case (OpCollect t i)
  assume "use_wf u"
  then show ?thesis by (auto simp: OpCollect use_wf_def intro: pool_collect_wf)
qed

lemma pool_run_wf: "use_wf u \<Longrightarrow> use_wf (pool_run ops u)"
  unfolding pool_run_def by (induction ops arbitrary: u) (auto intro: pool_step_wf)

section \<open>What the statistics count\<close>

definition pool_size :: "buffer_pool \<Rightarrow> nat" where
  "pool_size bp = length (small bp) + length (medium bp) + length (large bp)"

definition pool_accounts :: "i64 \<Rightarrow> i64 \<Rightarrow> pool_use \<Rightarrow> bool" where
  "pool_accounts a0 r0 u \<longleftrightarrow>
     allocated (stats (the_pool u)) = a0 + of_nat (live u + collected u) \<and>
     reused (stats (the_pool u)) = r0 + put_back (stats (the_pool u)) + of_nat (length (held u))"

lemma tier_get_count:
  "length (fst (snd (tier_get pick n bs))) + 1 =
     length bs + (if snd (snd (tier_get pick n bs)) then 1 else 0)"
  by (auto simp: tier_get_def split: option.splits)

lemma pool_get_new:
  "allocated (stats (snd (pool_get t pick bp))) = allocated (stats bp) +
     (if snd (snd (tier_get pick (tier_size t) (pooled t bp))) then 1 else 0)"
  by (cases t; simp add: GetSmall_def Get_def GetLarge_def pool_small_get_def pool_medium_get_def
      pool_large_get_def count_reused_def count_new_def split: prod.splits)

lemma pool_get_size:
  "Suc (pool_size (snd (pool_get t pick bp))) = pool_size bp +
     (if snd (snd (tier_get pick (tier_size t) (pooled t bp))) then 1 else 0)"
proof -
  have "pool_size b = length (pooled Small b) + length (pooled Medium b) + length (pooled Large b)"
    for b by (simp add: pool_size_def)
  then show ?thesis
    using tier_get_count [of pick "tier_size t" "pooled t bp"]
    by (cases t) (simp_all only: pool_get_tier(2), simp_all)
qed

lemma pool_get_allocated:
  "allocated (stats (snd (pool_get t pick bp))) + of_nat (pool_size bp) =
     allocated (stats bp) + of_nat (pool_size (snd (pool_get t pick bp))) + 1"
proof -
  have "of_nat (pool_size bp + (if snd (snd (tier_get pick (tier_size t) (pooled t bp))) then 1 else 0)) =
    (of_nat (pool_size (snd (pool_get t pick bp))) + 1 :: i64)"
    by (simp only: flip: pool_get_size) simp
  then show ?thesis by (simp add: pool_get_new algebra_simps split: if_splits)
qed

lemma pool_put_size:
  "length b = tier_size t \<Longrightarrow> pool_size (pool_put t (Some b) bp) = Suc (pool_size bp)"
  by (cases t) (simp_all add: PutSmall_def Put_def PutLarge_def count_put_back_def pool_size_def
      size_defs)

lemma pool_collect:
  assumes "i < length (pooled t bp)"
  shows "Suc (pool_size (set_pooled t (remove_nth i (pooled t bp)) bp)) = pool_size bp"
    and "stats (set_pooled t bs bp) = stats bp"
  using assms by (cases t; simp add: pool_size_def remove_nth_def)+

lemma live_pool_size: "live u = pool_size (the_pool u) + length (held u)"
  by (simp add: live_def pool_size_def)

lemma pool_step_accounts:
  assumes "use_wf u" and "pool_accounts a0 r0 u"
  shows "pool_accounts a0 r0 (pool_step op u)"
proof (cases op)
  case (OpGet t pick)
  obtain b bp where g: "pool_get t pick (the_pool u) = (b, bp)" by fastforce
  note st = pool_get_allocated [of t pick "the_pool u", unfolded g snd_conv]
    pool_get_stats [of t pick "the_pool u", unfolded g snd_conv]
  show ?thesis
    using assms(2) st
    by (simp add: OpGet g pool_accounts_def live_def pool_size_def algebra_simps)
next
  case (OpPut i)
  show ?thesis
  proof (cases "i < length (held u)")
    case True
    then have len: "length (snd (held u ! i)) = tier_size (fst (held u ! i))"
      using assms(1) by (force simp: use_wf_def dest: nth_mem)
    have rem: "length (held u) = Suc (length (remove_nth i (held u)))"
      using True by (simp add: remove_nth_def)
    have "live (pool_step op u) = live u"
      using True pool_put_size [OF len, of "the_pool u"] rem
      by (simp add: OpPut live_pool_size)
    then show ?thesis
      using assms(2) True len rem
      by (simp add: OpPut pool_accounts_def)
  qed (use assms in \<open>simp add: OpPut\<close>)
next
  case (OpCollect t i)
  have "live (pool_step op u) + collected (pool_step op u) = live u + collected u"
    using pool_collect(1) [of i t "the_pool u"] by (simp add: OpCollect live_pool_size)
  then show ?thesis
    using assms(2) unfolding pool_accounts_def
    by (simp add: OpCollect pool_collect(2) del: of_nat_add)
qed (use assms in \<open>auto simp: pool_accounts_def live_def\<close>)

lemma pool_run_accounts:
  "use_wf u \<Longrightarrow> pool_accounts a0 r0 u \<Longrightarrow> pool_accounts a0 r0 (pool_run ops u)"
  unfolding pool_run_def
  by (induction ops arbitrary: u) (auto intro: pool_step_wf pool_step_accounts)

section \<open>Warming up\<close>

lemma warm_tiers:
  "pooled t (warm_round p bp) =
     (let k = (case t of Small \<Rightarrow> fst p | Medium \<Rightarrow> fst (snd p) | Large \<Rightarrow> snd (snd p));
          (b, bs, n) = tier_get k (tier_size t) (pooled t bp)
      in b # bs)"
  by (cases t) (auto simp: warm_round_def Let_def pool_small_get_def pool_medium_get_def
      pool_large_get_def split: prod.splits)

lemma warm_round_length:
  "length (pooled t (warm_round p bp)) = length (pooled t bp) \<or>
   length (pooled t (warm_round p bp)) = Suc (length (pooled t bp))"
  "pooled t (warm_round p bp) \<noteq> []"
  by (auto simp: warm_tiers Let_def tier_get_def split: option.splits)

lemma warm_round_wf: "pool_wf bp \<Longrightarrow> pool_wf (warm_round p bp)"
  unfolding pool_wf_def
proof (intro allI)
  fix t
  assume "\<forall>t. \<forall>b\<in>set (pooled t bp). length b = tier_size t"
  then have "\<forall>b\<in>set (pooled t bp). length b = tier_size t" ..
  note * = tier_get_length [OF this]
  show "\<forall>b\<in>set (pooled t (warm_round p bp)). length b = tier_size t"
    using * by (auto simp: warm_tiers Let_def split: prod.splits tier.splits)
       (metis fst_conv snd_conv)+
qed

lemma warm_round_stats:
  "allocated (stats (warm_round p bp)) - of_nat (pool_size (warm_round p bp)) =
     allocated (stats bp) - of_nat (pool_size bp)"
  "reused (stats (warm_round p bp)) = reused (stats bp)"
  "put_back (stats (warm_round p bp)) = put_back (stats bp)"
  by (auto simp: warm_round_def Let_def pool_small_get_def pool_medium_get_def pool_large_get_def
      tier_get_def count_new_def pool_size_def algebra_simps split: option.splits)

lemma warm_fold:
  assumes "pool_wf bp"
  shows "pool_wf (fold (\<lambda>i. warm_round (f i)) is bp)"
    and "length (pooled t (fold (\<lambda>i. warm_round (f i)) is bp)) \<le> length (pooled t bp) + length is"
    and "is \<noteq> [] \<Longrightarrow> pooled t (fold (\<lambda>i. warm_round (f i)) is bp) \<noteq> []"
    and "allocated (stats (fold (\<lambda>i. warm_round (f i)) is bp)) -
        of_nat (pool_size (fold (\<lambda>i. warm_round (f i)) is bp)) =
      allocated (stats bp) - of_nat (pool_size bp)"
proof -
  show "pool_wf (fold (\<lambda>i. warm_round (f i)) is bp)"
    using assms by (induction "is" arbitrary: bp) (auto intro: warm_round_wf)
  show "length (pooled t (fold (\<lambda>i. warm_round (f i)) is bp)) \<le> length (pooled t bp) + length is"
  proof (induction "is" arbitrary: bp)
    case (Cons i "is")
    have "length (pooled t (warm_round (f i) bp)) \<le> Suc (length (pooled t bp))"
      using warm_round_length(1) [of t "f i" bp] by auto
    with Cons.IH [of "warm_round (f i) bp"] show ?case by simp
  qed simp
  show "pooled t (fold (\<lambda>i. warm_round (f i)) is bp) \<noteq> []" if "is \<noteq> []"
    using that by (cases "is" rule: rev_cases) (simp_all add: warm_round_length(2))
  show "allocated (stats (fold (\<lambda>i. warm_round (f i)) is bp)) -
      of_nat (pool_size (fold (\<lambda>i. warm_round (f i)) is bp)) =
      allocated (stats bp) - of_nat (pool_size bp)"
    by (induction "is" arbitrary: bp) (simp_all add: warm_round_stats(1))
qed

lemma warm_reuse_length:
  "length (pooled t bp) \<le> 1 \<Longrightarrow>
     length (pooled t (warm_round (Some 0, Some 0, Some 0) bp)) = 1"
  by (cases "pooled t bp") (simp_all add: warm_tiers Let_def tier_get_def split: tier.split)

lemma warm_reuse_fold:
  "length (pooled t bp) \<le> 1 \<Longrightarrow> is \<noteq> [] \<Longrightarrow>
     length (pooled t (fold (\<lambda>i. warm_round (Some 0, Some 0, Some 0)) is bp)) = 1"
proof (induction "is" arbitrary: bp)
  case (Cons i "is")
  then show ?case using warm_reuse_length [OF Cons.prems(1)] by (cases "is") simp_all
qed simp

section \<open>Properties\<close>

definition new_use :: "(nat \<Rightarrow> pick \<times> pick \<times> pick) \<Rightarrow> pool_stats \<Rightarrow> pool_use" where
  "new_use picks st = \<lparr>the_pool = New picks st, held = [], collected = 0\<rparr>"

lemma New_wf: "pool_wf (New picks st)"
  unfolding New_def by (rule warm_fold(1)) simp

lemma New_stats:
  "reused (stats (New picks st)) = reused st" "put_back (stats (New picks st)) = put_back st"
proof -
  have "reused (stats (fold (\<lambda>i. warm_round (picks i)) is bp)) = reused (stats bp) \<and>
    put_back (stats (fold (\<lambda>i. warm_round (picks i)) is bp)) = put_back (stats bp)" for "is" bp
    by (induction "is" arbitrary: bp) (simp_all add: warm_round_stats(2,3))
  then show "reused (stats (New picks st)) = reused st" "put_back (stats (New picks st)) = put_back st"
    by (simp_all add: New_def empty_pool_def)
qed

lemma New_allocated: "allocated (stats (New picks st)) = allocated st + of_nat (pool_size (New picks st))"
  using warm_fold(4) [of "empty_pool st" picks "[0..<WarmupBuffers]"]
  by (simp add: New_def) (simp add: empty_pool_def pool_size_def algebra_simps)

lemma new_use_wf: "use_wf (new_use picks st)"
  by (simp add: use_wf_def new_use_def New_wf)

text \<open>
  C36. However goroutines get, write and give back buffers, whatever \<open>sync.Pool\<close> hands out and
  whatever the collector drops: every buffer that is out, and the next one of any tier, has exactly
  the capacity of its tier, so no user slices out of range and no relay gets an empty buffer.
\<close>

theorem pool_capacities:
  "(\<forall>(t, b)\<in>set (held (pool_run ops (new_use picks st))). length b = tier_size t) \<and>
   length (fst (pool_get t pick (the_pool (pool_run ops (new_use picks st))))) = tier_size t"
  using pool_run_wf [OF new_use_wf [of picks st], of ops] pool_get_wf(1)
  by (auto simp: use_wf_def)

theorem pool_capacities_witness:
  "length (fst (GetSmall None (the_pool (pool_run [OpGet Large None, OpPut 0]
     (new_use (\<lambda>_. (None, None, None)) \<lparr>allocated = 0, reused = 0, put_back = 0, dropped = 0\<rparr>))))) = 4096"
  using pool_capacities [of "[OpGet Large None, OpPut 0]" "\<lambda>_. (None, None, None)"
      "\<lparr>allocated = 0, reused = 0, put_back = 0, dropped = 0\<rparr>" Small None]
  by (simp add: SmallBufSize_def)

text \<open>
  What the global statistics mean, in any run: \<^verbatim>\<open>Allocated\<close> counts the buffers made (pooled, out
  or collected), and \<^verbatim>\<open>Reused\<close> exceeds \<^verbatim>\<open>PutBack\<close> by the number of buffers that are out: it counts
  every get, also those that allocate.
\<close>

lemma pool_statistics:
  "allocated (stats (the_pool (pool_run ops (new_use picks st)))) =
     allocated st + of_nat (live (pool_run ops (new_use picks st)) + collected (pool_run ops (new_use picks st))) \<and>
   reused (stats (the_pool (pool_run ops (new_use picks st)))) - put_back (stats (the_pool (pool_run ops (new_use picks st)))) =
     reused st - put_back st + of_nat (length (held (pool_run ops (new_use picks st))))"
proof -
  have "pool_accounts (allocated st) (reused st - put_back st) (new_use picks st)"
    by (simp add: pool_accounts_def new_use_def New_allocated New_stats live_pool_size)
  from pool_run_accounts [OF new_use_wf this, of ops] show ?thesis
    by (simp add: pool_accounts_def)
qed

text \<open>
  Warming up: whatever \<open>sync.Pool\<close> does, a new pool has between one and 128 buffers in each
  tier; and when its \<^verbatim>\<open>Get\<close> takes a pooled value if there is one, exactly one, since each round puts
  its buffer back before the next round gets one.
\<close>

lemma pool_warmup:
  "1 \<le> length (pooled t (New picks st)) \<and> length (pooled t (New picks st)) \<le> WarmupBuffers \<and>
   length (pooled t (New (\<lambda>_. (Some 0, Some 0, Some 0)) st)) = 1"
proof -
  have ne: "[0..<WarmupBuffers] \<noteq> []" by (simp add: size_defs)
  have "pooled t (empty_pool st) = []" for t by (cases t) (simp_all add: empty_pool_def)
  moreover have "pooled t (New picks st) \<noteq> []"
    unfolding New_def by (rule warm_fold(3)) (use ne in simp_all)
  ultimately have "1 \<le> length (pooled t (New picks st)) \<and> length (pooled t (New picks st)) \<le> WarmupBuffers"
    using warm_fold(2) [of "empty_pool st" t picks "[0..<WarmupBuffers]"]
    by (simp add: New_def Suc_le_eq)
  moreover have "length (pooled t (New (\<lambda>_. (Some 0, Some 0, Some 0)) st)) = 1"
    unfolding New_def
    by (rule warm_reuse_fold) (use ne \<open>\<And>t. pooled t (empty_pool st) = []\<close> in simp_all)
  ultimately show ?thesis by blast
qed

end
