(* ===== verification/Conn_Relay.thy ===== *)
theory Conn_Relay
  imports Buffer_Pool
begin

text \<open>
  \<^verbatim>\<open>internal/pool/pool.go\<close>, \<^verbatim>\<open>Relay\<close> and \<^verbatim>\<open>closeWrite\<close>: the bidirectional copy between two
  connections.  \<open>copy_loop\<close> is the loop of \<^verbatim>\<open>io.CopyBuffer\<close>: read a piece of at most the buffer's
  size, write it, stop at a failed write or when reading ends.  The two goroutines of \<^verbatim>\<open>Relay\<close> touch
  different halves of the connections (each reads one and writes the other), so the model runs them
  one after the other; \<open>relay_halves_commute\<close> shows that the order does not matter.
\<close>

definition pending :: "conn \<Rightarrow> nat" where
  "pending c = sum_list (map (\<lambda>seg. Suc (length seg)) (inq c))"

lemma conn_read_pending:
  "0 < n \<Longrightarrow> conn_read n c = Some (b, c') \<Longrightarrow> pending c' < pending c"
  by (cases "inq c") (auto simp: conn_read_def pending_def split: if_splits)

function copy_loop :: "nat \<Rightarrow> conn \<Rightarrow> conn \<Rightarrow> nat \<Rightarrow> conn \<times> conn \<times> nat" where
  "copy_loop n src dst written =
     (if n = 0 then (src, dst, written)
      else case conn_read n src of
        None \<Rightarrow> (src, dst, written)
      | Some (b, src') \<Rightarrow>
          if b = [] then copy_loop n src' dst written
          else
            (let (ok, dst') = conn_write b dst;
                 nw = length (outq dst') - length (outq dst)
             in if ok then copy_loop n src' dst' (written + nw) else (src', dst', written + nw)))"
  by pat_completeness auto
termination
  by (relation "measure (\<lambda>(n, src, dst, w). pending src)")
    (auto dest: conn_read_pending)

declare copy_loop.simps [simp del]

text \<open>\<^verbatim>\<open>io.CopyBuffer(dst, src, buf)\<close> panics on an empty buffer: \<^const>\<open>None\<close>.\<close>

definition copy_buffer :: "buffer \<Rightarrow> conn \<Rightarrow> conn \<Rightarrow> (conn \<times> conn \<times> nat) option" where
  "copy_buffer buf src dst = (if buf = [] then None else Some (copy_loop (length buf) src dst 0))"

definition closeWrite :: "conn \<Rightarrow> conn" where
  "closeWrite c = (if is_tcp c then c\<lparr>wclosed := True\<rparr> else c)"

text \<open>One goroutine: copy \<open>src\<close> to \<open>dst\<close> with a large buffer, then half-close \<open>dst\<close>.\<close>

definition relay_half :: "buffer \<Rightarrow> conn \<Rightarrow> conn \<Rightarrow> (conn \<times> conn \<times> nat) option" where
  "relay_half buf src dst =
     (case copy_buffer buf src dst of
        None \<Rightarrow> None
      | Some (src', dst', n) \<Rightarrow> Some (src', closeWrite dst', n))"

record relay_result =
  r_conn1 :: conn
  r_conn2 :: conn
  r_n1 :: nat      \<comment> \<open>bytes from \<open>conn1\<close> to \<open>conn2\<close>\<close>
  r_n2 :: nat      \<comment> \<open>bytes from \<open>conn2\<close> to \<open>conn1\<close>\<close>
  r_pool :: buffer_pool

definition relay :: "pick \<times> pick \<Rightarrow> buffer_pool \<Rightarrow> conn \<Rightarrow> conn \<Rightarrow> relay_result option" where
  "relay picks bp conn1 conn2 =
     (let (buf1, bp) = GetLarge (fst picks) bp;
          (buf2, bp) = GetLarge (snd picks) bp
      in case relay_half buf1 conn1 conn2 of
           None \<Rightarrow> None
         | Some (conn1, conn2, n1) \<Rightarrow>
             (case relay_half buf2 conn2 conn1 of
                None \<Rightarrow> None
              | Some (conn2, conn1, n2) \<Rightarrow>
                  Some \<lparr>r_conn1 = conn1, r_conn2 = conn2, r_n1 = n1, r_n2 = n2,
                    r_pool = PutLarge (Some buf2) (PutLarge (Some buf1) bp)\<rparr>))"

section \<open>What the loop copies\<close>

lemma conn_read_Some:
  assumes "conn_read n c = Some (b, c')"
  shows "stream c = b @ stream c'" "c' = c\<lparr>inq := inq c'\<rparr>" "length b \<le> n" "closed c' = closed c"
  using assms
  by (auto simp: conn_read_def stream_def split: list.splits if_splits)

lemma conn_read_None_stream: "conn_read n c = None \<Longrightarrow> stream c = []"
  by (auto simp: conn_read_def stream_def split: list.splits if_splits)

lemma conn_write_out:
  assumes "conn_write b c = (ok, c')"
  shows "\<exists>k\<le>length b. outq c' = outq c @ take k b \<and> (ok \<longrightarrow> k = length b)"
    and "c' = c\<lparr>outq := outq c', wq := wq c'\<rparr>"
proof -
  have "outq c' = outq c @ take (length b) b" if ok
    using assms conn_write_True that by simp
  moreover have "\<exists>k\<le>length b. outq c' = outq c @ take k b"
    using assms by (auto simp: conn_write_def split: list.splits wres.splits if_splits
        intro: exI [of _ "min _ (length b)"] exI [of _ "0::nat"]
          exI [of _ "length b"] simp: take_all_iff [THEN iffD2] min_def)
      (metis nat_le_linear take_all)+
  ultimately show "\<exists>k\<le>length b. outq c' = outq c @ take k b \<and> (ok \<longrightarrow> k = length b)"
    by (cases ok) auto
  show "c' = c\<lparr>outq := outq c', wq := wq c'\<rparr>"
    using assms by (auto simp: conn_write_def split: list.splits wres.splits if_splits)
qed

text \<open>One round of the loop, by what the read and the write give.\<close>

lemma copy_loop_stop:
  "n = 0 \<or> conn_read n src = None \<Longrightarrow> copy_loop n src dst w = (src, dst, w)"
  by (auto simp: copy_loop.simps [of n src dst w])

lemma copy_loop_skip:
  "n \<noteq> 0 \<Longrightarrow> conn_read n src = Some ([], s) \<Longrightarrow> copy_loop n src dst w = copy_loop n s dst w"
  by (simp add: copy_loop.simps [of n src dst w])

lemma copy_loop_wrote:
  assumes "n \<noteq> 0" and "conn_read n src = Some (b, s)" and "b \<noteq> []" and "conn_write b dst = (True, d)"
  shows "copy_loop n src dst w = copy_loop n s d (w + length b)"
  using assms conn_write_True [OF assms(4)] by (simp add: copy_loop.simps [of n src dst w])

lemma copy_loop_failed:
  assumes "n \<noteq> 0" and "conn_read n src = Some (b, s)" and "b \<noteq> []" and "conn_write b dst = (False, d)"
  shows "copy_loop n src dst w = (s, d, w + (length (outq d) - length (outq dst)))"
  using assms by (simp add: copy_loop.simps [of n src dst w])

text \<open>Induction over the loop, with one case for each of these.\<close>

lemma copy_loop_cases [case_names stop skip wrote failed]:
  assumes stop: "\<And>src dst w. n = 0 \<or> conn_read n src = None \<Longrightarrow> P src dst w"
    and skip: "\<And>src dst w s. n \<noteq> 0 \<Longrightarrow> conn_read n src = Some ([], s) \<Longrightarrow> P s dst w \<Longrightarrow> P src dst w"
    and wrote: "\<And>src dst w b s d. n \<noteq> 0 \<Longrightarrow> conn_read n src = Some (b, s) \<Longrightarrow> b \<noteq> [] \<Longrightarrow>
      conn_write b dst = (True, d) \<Longrightarrow> P s d (w + length b) \<Longrightarrow> P src dst w"
    and failed: "\<And>src dst w b s d. n \<noteq> 0 \<Longrightarrow> conn_read n src = Some (b, s) \<Longrightarrow> b \<noteq> [] \<Longrightarrow>
      conn_write b dst = (False, d) \<Longrightarrow> P src dst w"
  shows "P src dst w"
proof (induction src arbitrary: dst w rule: measure_induct_rule [of pending])
  case (less src)
  show ?case
  proof (cases "n = 0 \<or> conn_read n src = None")
    case False
    then obtain b s where r: "conn_read n src = Some (b, s)" and n: "n \<noteq> 0" by auto
    with conn_read_pending have p: "pending s < pending src" by simp
    show ?thesis
    proof (cases "b = []")
      case True
      with skip n r less.IH [OF p] show ?thesis by blast
    next
      case False
      obtain ok d where "conn_write b dst = (ok, d)" by fastforce
      then show ?thesis
        using wrote [OF n r False _ less.IH [OF p]] failed [OF n r False] by (cases ok) simp_all
    qed
  qed (rule stop)
qed

text \<open>
  Whatever the segments, the buffer size and the write failures: what arrives is a prefix of the
  source's stream and the count is its length.
\<close>

lemma copy_loop_prefix:
  "\<exists>m\<le>length (stream src). outq (fst (snd (copy_loop n src dst w))) = outq dst @ take m (stream src) \<and>
     snd (snd (copy_loop n src dst w)) = w + m"
proof (induction src dst w rule: copy_loop_cases [of n])
  case (stop src dst w)
  then show ?case by (intro exI [of _ 0]) (simp add: copy_loop_stop)
next
  case (skip src dst w s)
  then show ?case using conn_read_Some(1) [OF skip(2)] by (simp add: copy_loop_skip)
next
  case (wrote src dst w b s d)
  then obtain m where "m \<le> length (stream s)"
    and "outq (fst (snd (copy_loop n s d (w + length b)))) = outq d @ take m (stream s)"
    and "snd (snd (copy_loop n s d (w + length b))) = w + length b + m" by auto
  then show ?case
    using wrote(1-4) conn_read_Some(1) [OF wrote(2)] conn_write_True [OF wrote(4)]
    by (intro exI [of _ "length b + m"]) (simp add: copy_loop_wrote)
next
  case (failed src dst w b s d)
  obtain k where "k \<le> length b" "outq d = outq dst @ take k b"
    using conn_write_out(1) [OF failed(4)] by blast
  then show ?case
    using failed conn_read_Some(1) [OF failed(2)]
    by (intro exI [of _ k]) (simp add: copy_loop_failed)
qed

text \<open>With a destination that takes every write, everything arrives.\<close>

lemma conn_read_closed: "conn_read n c = Some (b, s) \<Longrightarrow> \<not> closed c"
  by (auto simp: conn_read_def split: if_splits)

lemma copy_loop_all:
  assumes "0 < n" and "writable dst"
  shows "copy_loop n src dst w =
    (src\<lparr>inq := (if closed src then inq src else [])\<rparr>,
     dst\<lparr>outq := outq dst @ stream src\<rparr>, w + length (stream src))"
  using assms
proof (induction src dst w rule: copy_loop_cases [of n])
  case (stop src dst w)
  then have r: "conn_read n src = None" by simp
  then have "closed src \<or> inq src = []" by (auto simp: conn_read_def split: if_splits list.splits)
  with conn_read_None_stream [OF r] show ?case by (auto simp: copy_loop_stop r)
next
  case (skip src dst w s)
  note rd = conn_read_Some [OF skip(2)] conn_read_closed [OF skip(2)]
  have "s\<lparr>inq := []\<rparr> = src\<lparr>inq := []\<rparr>" by (subst rd(2)) simp
  with skip rd show ?case by (simp add: copy_loop_skip)
next
  case (wrote src dst w b s d)
  note rd = conn_read_Some [OF wrote(2)] conn_read_closed [OF wrote(2)]
  have "s\<lparr>inq := []\<rparr> = src\<lparr>inq := []\<rparr>" by (subst rd(2)) simp
  moreover have "d = dst\<lparr>outq := outq dst @ b\<rparr>" using wrote by simp
  ultimately show ?case using wrote rd by (simp add: copy_loop_wrote)
next
  case (failed src dst w b s d)
  then show ?case by simp
qed

text \<open>
  The loop changes the source's input and the destination's output only, and looks at nothing
  else: the other halves may be anything.
\<close>

lemma copy_loop_frame:
  "fst (copy_loop n src dst w) = src\<lparr>inq := inq (fst (copy_loop n src dst w))\<rparr> \<and>
   fst (snd (copy_loop n src dst w)) =
     dst\<lparr>outq := outq (fst (snd (copy_loop n src dst w))), wq := wq (fst (snd (copy_loop n src dst w)))\<rparr>"
proof (induction src dst w rule: copy_loop_cases [of n])
  case (skip src dst w s)
  have "src\<lparr>inq := q\<rparr> = s\<lparr>inq := q\<rparr>" for q by (subst conn_read_Some(2) [OF skip(2)]) simp
  with skip show ?case by (simp add: copy_loop_skip)
next
  case (wrote src dst w b s d)
  have "src\<lparr>inq := q\<rparr> = s\<lparr>inq := q\<rparr>" for q by (subst conn_read_Some(2) [OF wrote(2)]) simp
  moreover have "dst\<lparr>outq := x, wq := y\<rparr> = d\<lparr>outq := x, wq := y\<rparr>" for x y
    by (subst conn_write_out(2) [OF wrote(4)]) simp
  ultimately show ?case using wrote by (simp add: copy_loop_wrote)
next
  case (failed src dst w b s d)
  then show ?case
    using conn_read_Some(2) [OF failed(2)] conn_write_out(2) [OF failed(4)]
    by (simp add: copy_loop_failed)
qed (simp add: copy_loop_stop)

lemma conn_read_out_half:
  "conn_read n (c\<lparr>outq := x, wq := y, wclosed := z\<rparr>) =
     map_option (\<lambda>(b, s). (b, s\<lparr>outq := x, wq := y, wclosed := z\<rparr>)) (conn_read n c)"
  by (simp add: conn_read_def split: list.split)

lemma conn_write_in_half:
  "conn_write b (c\<lparr>inq := q\<rparr>) = (fst (conn_write b c), (snd (conn_write b c))\<lparr>inq := q\<rparr>)"
  by (simp add: conn_write_def split: list.split wres.split)

lemma copy_loop_out_half:
  "copy_loop n (src\<lparr>outq := x, wq := y, wclosed := z\<rparr>) dst w =
     (let (s, d, k) = copy_loop n src dst w in (s\<lparr>outq := x, wq := y, wclosed := z\<rparr>, d, k))"
proof (induction src dst w rule: copy_loop_cases [of n])
  case (stop src dst w)
  then show ?case by (auto simp: copy_loop_stop conn_read_out_half)
qed (simp_all add: conn_read_out_half copy_loop_skip copy_loop_wrote copy_loop_failed Let_def)

lemma copy_loop_in_half:
  "copy_loop n src (dst\<lparr>inq := q\<rparr>) w =
     (let (s, d, k) = copy_loop n src dst w in (s, d\<lparr>inq := q\<rparr>, k))"
proof (induction src dst w rule: copy_loop_cases [of n])
  case (stop src dst w)
  then show ?case by (auto simp: copy_loop_stop)
next
  case (failed src dst w b s d)
  then show ?case
    using copy_loop_failed [of n src b s "dst\<lparr>inq := q\<rparr>" "d\<lparr>inq := q\<rparr>" w]
    by (simp add: conn_write_in_half copy_loop_failed)
next
  case (wrote src dst w b s d)
  then show ?case
    using copy_loop_wrote [of n src b s "dst\<lparr>inq := q\<rparr>" "d\<lparr>inq := q\<rparr>" w]
    by (simp add: conn_write_in_half copy_loop_wrote)
qed (simp add: copy_loop_skip)

section \<open>What \<open>Relay\<close> does\<close>

text \<open>
  Each half as an update of the two connections: the source loses input, the destination gains
  output and is half-closed.
\<close>

lemma relay_half_Some:
  assumes "relay_half buf src dst = Some (src', dst', n)"
  shows "\<exists>i. src' = src\<lparr>inq := i\<rparr>"
    and "\<exists>x y z. dst' = dst\<lparr>outq := x, wq := y, wclosed := z\<rparr>"
    and "n \<le> length (stream src)" and "outq dst' = outq dst @ take n (stream src)"
    and "wclosed dst' = (is_tcp dst \<or> wclosed dst)"
proof -
  obtain d where c: "copy_loop (length buf) src dst 0 = (src', d, n)" and d: "dst' = closeWrite d"
    using assms by (auto simp: relay_half_def copy_buffer_def split: option.splits if_splits prod.splits)
  obtain i x y where s: "src' = src\<lparr>inq := i\<rparr>" and dd: "d = dst\<lparr>outq := x, wq := y\<rparr>"
    using copy_loop_frame [of "length buf" src dst 0, unfolded c fst_conv snd_conv] by blast
  show "\<exists>i. src' = src\<lparr>inq := i\<rparr>" using s by blast
  show "\<exists>x y z. dst' = dst\<lparr>outq := x, wq := y, wclosed := z\<rparr>"
    unfolding d dd closeWrite_def
    by (rule exI [of _ x], rule exI [of _ y], rule exI [of _ "is_tcp dst \<or> wclosed dst"]) simp
  show "wclosed dst' = (is_tcp dst \<or> wclosed dst)"
    by (simp add: d dd closeWrite_def)
  show "n \<le> length (stream src)" and "outq dst' = outq dst @ take n (stream src)"
    using copy_loop_prefix [of src "length buf" dst 0] c d by (auto simp: closeWrite_def)
qed

lemma closeWrite_in_half [simp]: "closeWrite (d\<lparr>inq := q\<rparr>) = (closeWrite d)\<lparr>inq := q\<rparr>"
  by (simp add: closeWrite_def)

lemma relay_half_out_half:
  "relay_half buf (src\<lparr>outq := x, wq := y, wclosed := z\<rparr>) dst =
     map_option (\<lambda>(s, d, k). (s\<lparr>outq := x, wq := y, wclosed := z\<rparr>, d, k)) (relay_half buf src dst)"
  by (simp add: relay_half_def copy_buffer_def copy_loop_out_half split: prod.splits)

lemma relay_half_in_half:
  "relay_half buf src (dst\<lparr>inq := q\<rparr>) =
     map_option (\<lambda>(s, d, k). (s, d\<lparr>inq := q\<rparr>, k)) (relay_half buf src dst)"
  by (simp add: relay_half_def copy_buffer_def copy_loop_in_half split: prod.splits)

lemma relay_half_all:
  assumes "relay_half buf src dst = Some (src', dst', n)" and "writable dst"
  shows "n = length (stream src)"
proof -
  have "buf \<noteq> []" using assms(1) by (auto simp: relay_half_def copy_buffer_def)
  with assms show ?thesis by (simp add: relay_half_def copy_buffer_def copy_loop_all)
qed

text \<open>The two goroutines can run in either order (and so in any interleaving of their rounds).\<close>

lemma relay_halves_commute:
  assumes "relay_half buf1 c1 c2 = Some (d1, d2, n1)" and "relay_half buf2 d2 d1 = Some (e2, e1, n2)"
  shows "\<exists>f1 f2. relay_half buf2 c2 c1 = Some (f2, f1, n2) \<and> relay_half buf1 f1 f2 = Some (e1, e2, n1)"
proof -
  obtain i1 x1 y1 z1 where d: "d1 = c1\<lparr>inq := i1\<rparr>" "d2 = c2\<lparr>outq := x1, wq := y1, wclosed := z1\<rparr>"
    using relay_half_Some(1,2) [OF assms(1)] by blast
  have "relay_half buf2 d2 d1 =
    map_option (\<lambda>(s, d, k). (s\<lparr>outq := x1, wq := y1, wclosed := z1\<rparr>, d\<lparr>inq := i1\<rparr>, k))
      (relay_half buf2 c2 c1)"
    by (simp add: d relay_half_out_half relay_half_in_half option.map_comp comp_def case_prod_unfold)
  with assms(2) obtain f2 f1 where f: "relay_half buf2 c2 c1 = Some (f2, f1, n2)"
    and e: "e2 = f2\<lparr>outq := x1, wq := y1, wclosed := z1\<rparr>" "e1 = f1\<lparr>inq := i1\<rparr>" by auto
  obtain i2 x2 y2 z2 where g: "f2 = c2\<lparr>inq := i2\<rparr>" "f1 = c1\<lparr>outq := x2, wq := y2, wclosed := z2\<rparr>"
    using relay_half_Some(1,2) [OF f] by blast
  have "relay_half buf1 f1 f2 =
    map_option (\<lambda>(s, d, k). (s\<lparr>outq := x2, wq := y2, wclosed := z2\<rparr>, d\<lparr>inq := i2\<rparr>, k))
      (relay_half buf1 c1 c2)"
    by (simp add: g relay_half_out_half relay_half_in_half option.map_comp comp_def case_prod_unfold)
  then have "relay_half buf1 f1 f2 = Some (e1, e2, n1)"
    using assms(1) by (simp add: d e g)
  with f show ?thesis by blast
qed

lemma relay_half_total:
  assumes "buf \<noteq> []"
  obtains src' dst' n where "relay_half buf src dst = Some (src', dst', n)"
  using assms that by (cases "copy_loop (length buf) src dst 0") (simp add: relay_half_def copy_buffer_def)

lemma relay_total:
  assumes "pool_wf bp"
  shows "\<exists>r. relay picks bp c1 c2 = Some r \<and> pool_wf (r_pool r)"
proof -
  obtain b1 p1 where g1: "GetLarge (fst picks) bp = (b1, p1)" by fastforce
  obtain b2 p2 where g2: "GetLarge (snd picks) p1 = (b2, p2)" by fastforce
  have p1: "length b1 = LargeBufSize" "pool_wf p1"
    using large_source.get_length large_source.get_wf assms g1 by (metis fst_conv snd_conv)+
  have p2: "length b2 = LargeBufSize" "pool_wf p2"
    using large_source.get_length large_source.get_wf p1(2) g2 by (metis fst_conv snd_conv)+
  have ne: "b1 \<noteq> []" "b2 \<noteq> []" using p1(1) p2(1) by (auto simp: size_defs)
  obtain d1 d2 n1 where "relay_half b1 c1 c2 = Some (d1, d2, n1)"
    using ne(1) by (rule relay_half_total)
  moreover obtain e1 e2 n2 where "relay_half b2 d2 d1 = Some (e2, e1, n2)"
    using ne(2) by (rule relay_half_total)
  ultimately show ?thesis
    using large_source.put_wf [OF large_source.put_wf [OF p2(2) p1(1)] p2(1)]
    by (simp add: relay_def g1 g2)
qed

lemma relay_SomeE:
  assumes "relay picks bp c1 c2 = Some r"
  obtains b1 b2 d1 d2 where "relay_half b1 c1 c2 = Some (d1, d2, r_n1 r)"
    and "relay_half b2 d2 d1 = Some (r_conn2 r, r_conn1 r, r_n2 r)"
  using assms by (auto simp: relay_def split: prod.splits option.splits)

text \<open>For any peers: each side receives a prefix of what the other sent, counted exactly.\<close>

lemma relay_prefix:
  assumes "relay picks bp c1 c2 = Some r"
  shows "r_n1 r \<le> length (stream c1)" "outq (r_conn2 r) = outq c2 @ take (r_n1 r) (stream c1)"
    "r_n2 r \<le> length (stream c2)" "outq (r_conn1 r) = outq c1 @ take (r_n2 r) (stream c2)"
    "is_tcp c1 \<Longrightarrow> wclosed (r_conn1 r)" "is_tcp c2 \<Longrightarrow> wclosed (r_conn2 r)"
proof -
  obtain b1 b2 d1 d2 where h1: "relay_half b1 c1 c2 = Some (d1, d2, r_n1 r)"
    and h2: "relay_half b2 d2 d1 = Some (r_conn2 r, r_conn1 r, r_n2 r)"
    using assms by (rule relay_SomeE)
  note a = relay_half_Some [OF h1] and b = relay_half_Some [OF h2]
  obtain i x y z i' where d: "d1 = c1\<lparr>inq := i\<rparr>" "d2 = c2\<lparr>outq := x, wq := y, wclosed := z\<rparr>"
    "r_conn2 r = d2\<lparr>inq := i'\<rparr>" using a(1,2) b(1) by blast
  have st: "stream d2 = stream c2" by (simp add: d stream_def)
  show "r_n1 r \<le> length (stream c1)" by (rule a(3))
  show "outq (r_conn2 r) = outq c2 @ take (r_n1 r) (stream c1)" using a(4) by (simp add: d(3))
  show "r_n2 r \<le> length (stream c2)" using b(3) st by simp
  show "outq (r_conn1 r) = outq c1 @ take (r_n2 r) (stream c2)" using b(4) st by (simp add: d(1))
  show "wclosed (r_conn1 r)" if "is_tcp c1" using b(5) that by (simp add: d(1))
  show "wclosed (r_conn2 r)" if "is_tcp c2" using a(5) that by (simp add: d(3))
qed

text \<open>A side that takes every write receives everything.\<close>

lemma relay_exact:
  assumes "relay picks bp c1 c2 = Some r"
  shows "writable c2 \<Longrightarrow> r_n1 r = length (stream c1)" "writable c1 \<Longrightarrow> r_n2 r = length (stream c2)"
proof -
  obtain b1 b2 d1 d2 where h1: "relay_half b1 c1 c2 = Some (d1, d2, r_n1 r)"
    and h2: "relay_half b2 d2 d1 = Some (r_conn2 r, r_conn1 r, r_n2 r)"
    using assms by (rule relay_SomeE)
  obtain i x y z where d: "d1 = c1\<lparr>inq := i\<rparr>" "d2 = c2\<lparr>outq := x, wq := y, wclosed := z\<rparr>"
    using relay_half_Some(1,2) [OF h1] by blast
  show "r_n1 r = length (stream c1)" if "writable c2" using relay_half_all [OF h1 that] .
  have "stream d2 = stream c2" by (simp add: d stream_def)
  then show "r_n2 r = length (stream c2)" if "writable c1"
    using relay_half_all [OF h2] that by (simp add: d)
qed

section \<open>Properties\<close>

text \<open>
  C37. The relay always returns (given peers whose streams end) and is honest: on a pool in order it
  does not panic and leaves the pool in order; each side has received a prefix of what the other
  sent and the returned counts are the lengths of these prefixes; a side that takes every write has
  received everything; both TCP connections are half-closed for writing.
\<close>

theorem relay_faithful:
  assumes "pool_wf bp"
  shows "\<exists>r. relay picks bp c1 c2 = Some r \<and> pool_wf (r_pool r) \<and>
    outq (r_conn2 r) = outq c2 @ take (r_n1 r) (stream c1) \<and> r_n1 r \<le> length (stream c1) \<and>
    outq (r_conn1 r) = outq c1 @ take (r_n2 r) (stream c2) \<and> r_n2 r \<le> length (stream c2) \<and>
    (writable c2 \<longrightarrow> r_n1 r = length (stream c1)) \<and> (writable c1 \<longrightarrow> r_n2 r = length (stream c2)) \<and>
    (is_tcp c1 \<longrightarrow> wclosed (r_conn1 r)) \<and> (is_tcp c2 \<longrightarrow> wclosed (r_conn2 r))"
proof -
  obtain r where "relay picks bp c1 c2 = Some r" and "pool_wf (r_pool r)"
    using relay_total [OF assms] by blast
  with relay_prefix [OF this(1)] relay_exact [OF this(1)] show ?thesis by blast
qed

theorem relay_faithful_witness:
  "\<exists>r. relay (None, Some 3) (empty_pool \<lparr>allocated = 0, reused = 0, put_back = 0, dropped = 0\<rparr>)
     (fresh_conn [[1, 2], [], [3]] []) (fresh_conn [[9]] [WErr 1]) = Some r \<and> r_n2 r = 1 \<and> r_n1 r \<le> 3"
  using relay_faithful [of "empty_pool \<lparr>allocated = 0, reused = 0, put_back = 0, dropped = 0\<rparr>"
      "(None, Some 3)" "fresh_conn [[1, 2], [], [3]] []" "fresh_conn [[9]] [WErr 1]"]
  by (auto simp: fresh_conn_def stream_def writable_def)

text \<open>
  The two goroutines of a relay do not interfere: copying in either order gives the same
  connections and the same counts.
\<close>

lemma relay_order_irrelevant:
  assumes "relay_half buf1 c1 c2 = Some (d1, d2, n1)" and "relay_half buf2 d2 d1 = Some (e2, e1, n2)"
  shows "\<exists>f1 f2. relay_half buf2 c2 c1 = Some (f2, f1, n2) \<and> relay_half buf1 f1 f2 = Some (e1, e2, n1)"
  using assms by (rule relay_halves_commute)

lemma relay_order_irrelevant_witness:
  "\<exists>f1 f2. relay_half [0] (fresh_conn [[9]] []) (fresh_conn [[1]] []) = Some (f2, f1, 1) \<and>
     (\<exists>e1 e2. relay_half [0] f1 f2 = Some (e1, e2, 1))"
proof -
  let ?a = "fresh_conn [[1]] []" and ?b = "fresh_conn [[9]] []"
  let ?d1 = "?a\<lparr>inq := []\<rparr>" and ?d2 = "?b\<lparr>outq := [1], wclosed := True\<rparr>"
  have "relay_half [0] ?a ?b = Some (?d1, ?d2, 1)"
    by (simp add: relay_half_def copy_buffer_def copy_loop_all writable_def fresh_conn_def stream_def closeWrite_def)
  moreover have "relay_half [0] ?d2 ?d1 = Some (?d2\<lparr>inq := []\<rparr>, ?d1\<lparr>outq := [9], wclosed := True\<rparr>, 1)"
    by (simp add: relay_half_def copy_buffer_def copy_loop_all writable_def fresh_conn_def stream_def closeWrite_def)
  ultimately show ?thesis using relay_order_irrelevant by blast
qed

end
