(* ===== verification/Server_System.thy ===== *)
theory Server_System
  imports Conn_Relay
begin

text \<open>
  How the two TCP servers run: an accept loop that takes a slot of the connection semaphore or
  rejects, one goroutine for each accepted connection, and shared counters that goroutines change
  by atomic additions.  A handler's effect on the shared state is a list of such operations; the
  scheduler is the list of events, so a run is any interleaving of arrivals, single effects of
  running handlers, and handlers ending (the deferred release of the slot).

  The locales state what the accept loop and the deferred release promise (\<open>slot_gate\<close>) and what
  an atomic counter promises (\<open>counted_gate\<close>); the invariants of all runs are proved once here and
  interpreted for both servers.
\<close>

datatype 'c event =
    Arrive 'c     \<comment> \<open>\<open>Accept\<close> returns this connection\<close>
  | Effect nat    \<comment> \<open>the handler at this index performs its next operation on the shared state\<close>
  | Finish nat    \<comment> \<open>the handler at this index has returned; its deferred calls run\<close>

record ('s, 'e, 'c) system =
  server :: 's
  running :: "'e list list"
  served :: "'c list"    \<comment> \<open>the connections that were admitted, in order\<close>

fun sys_step ::
  "('s \<Rightarrow> bool \<times> 's) \<Rightarrow> ('s \<Rightarrow> 's) \<Rightarrow> ('e \<Rightarrow> 's \<Rightarrow> 's) \<Rightarrow> ('c \<Rightarrow> 'e list) \<Rightarrow>
   'c event \<Rightarrow> ('s, 'e, 'c) system \<Rightarrow> ('s, 'e, 'c) system" where
  "sys_step admit release act handler (Arrive c) S =
     (case admit (server S) of
        (True, s) \<Rightarrow> S\<lparr>server := s, running := running S @ [handler c], served := served S @ [c]\<rparr>
      | (False, s) \<Rightarrow> S\<lparr>server := s\<rparr>)"
| "sys_step admit release act handler (Effect i) S =
     (if i < length (running S) then
        (case running S ! i of
           [] \<Rightarrow> S
         | e # es \<Rightarrow> S\<lparr>server := act e (server S), running := (running S)[i := es]\<rparr>)
      else S)"
| "sys_step admit release act handler (Finish i) S =
     (if i < length (running S) \<and> running S ! i = []
      then S\<lparr>server := release (server S), running := remove_nth i (running S)\<rparr> else S)"

definition sys_run ::
  "('s \<Rightarrow> bool \<times> 's) \<Rightarrow> ('s \<Rightarrow> 's) \<Rightarrow> ('e \<Rightarrow> 's \<Rightarrow> 's) \<Rightarrow> ('c \<Rightarrow> 'e list) \<Rightarrow>
   'c event list \<Rightarrow> ('s, 'e, 'c) system \<Rightarrow> ('s, 'e, 'c) system" where
  "sys_run admit release act handler evs S = fold (sys_step admit release act handler) evs S"

definition sys_start :: "'s \<Rightarrow> ('s, 'e, 'c) system" where
  "sys_start s = \<lparr>server = s, running = [], served = []\<rparr>"

definition arrivals :: "'c event list \<Rightarrow> nat" where
  "arrivals evs = length (filter (\<lambda>e. case e of Arrive _ \<Rightarrow> True | _ \<Rightarrow> False) evs)"

lemma arrivals_simps [simp]:
  "arrivals [] = 0" "arrivals (Arrive c # evs) = Suc (arrivals evs)"
  "arrivals (Effect i # evs) = arrivals evs" "arrivals (Finish i # evs) = arrivals evs"
  by (simp_all add: arrivals_def)

lemma length_remove_nth: "i < length xs \<Longrightarrow> length (remove_nth i xs) = length xs - 1"
  by (auto simp: remove_nth_def)

section \<open>The gate\<close>

locale slot_gate =
  fixes admit :: "'s \<Rightarrow> bool \<times> 's"
    and release :: "'s \<Rightarrow> 's"
    and act :: "'e \<Rightarrow> 's \<Rightarrow> 's"
    and occupied :: "'s \<Rightarrow> nat"
    and slots :: "'s \<Rightarrow> nat"
    and active :: "'s \<Rightarrow> i32"
    and total :: "'s \<Rightarrow> i64"
    and rejected :: "'s \<Rightarrow> i64"
  assumes admit_iff: "fst (admit s) \<longleftrightarrow> occupied s < slots s"
    and admit_occupied: "occupied (snd (admit s)) = occupied s + (if fst (admit s) then 1 else 0)"
    and admit_active: "active (snd (admit s)) = active s + (if fst (admit s) then 1 else 0)"
    and admit_total: "total (snd (admit s)) = total s + (if fst (admit s) then 1 else 0)"
    and admit_rejected: "rejected (snd (admit s)) = rejected s + (if fst (admit s) then 0 else 1)"
    and admit_slots: "slots (snd (admit s)) = slots s"
    and release_occupied: "occupied (release s) = occupied s - 1"
    and release_active: "active (release s) = active s - 1"
    and release_frame: "slots (release s) = slots s" "total (release s) = total s"
      "rejected (release s) = rejected s"
    and act_frame: "occupied (act e s) = occupied s" "slots (act e s) = slots s"
      "active (act e s) = active s" "total (act e s) = total s" "rejected (act e s) = rejected s"
begin

text \<open>
  In every state of a run: the semaphore counts the running handlers, never more than its
  capacity, \<open>ConnsActive\<close> agrees, and every arrival was counted once, as served or rejected.
\<close>

definition gate_inv :: "'s \<Rightarrow> nat \<Rightarrow> ('s, 'e, 'c) system \<Rightarrow> bool" where
  "gate_inv s0 n S \<longleftrightarrow>
     occupied (server S) = length (running S) \<and> length (running S) \<le> slots (server S) \<and>
     slots (server S) = slots s0 \<and>
     active (server S) = active s0 + of_nat (length (running S)) \<and>
     total (server S) = total s0 + of_nat (length (served S)) \<and>
     rejected (server S) + of_nat (length (served S)) = rejected s0 + of_nat n"

lemmas gate_laws = admit_iff admit_occupied admit_active admit_total admit_rejected admit_slots
  release_occupied release_active release_frame act_frame

lemma gate_inv_arrive:
  assumes "gate_inv s0 n S"
  shows "gate_inv s0 (Suc n) (sys_step admit release act handler (Arrive c) S)"
proof (cases "admit (server S)")
  case (Pair ok s)
  note laws = gate_laws(1-6) [of "server S", unfolded Pair fst_conv snd_conv]
  show ?thesis
    using assms laws by (cases ok) (auto simp: Pair gate_inv_def)
qed

lemma gate_inv_effect:
  assumes "gate_inv s0 n S"
  shows "gate_inv s0 n (sys_step admit release act handler (Effect i) S)"
  using assms by (auto simp: gate_inv_def act_frame split: list.split)

lemma gate_inv_finish:
  assumes "gate_inv s0 n S"
  shows "gate_inv s0 n (sys_step admit release act handler (Finish i) S)"
proof (cases "i < length (running S) \<and> running S ! i = []")
  case True
  then obtain k where k: "length (running S) = Suc k" by (cases "length (running S)") auto
  with True have "length (remove_nth i (running S)) = k" by (simp add: length_remove_nth)
  with True assms k show ?thesis
    by (simp add: gate_inv_def release_occupied release_active release_frame)
qed (use assms in auto)

lemma gate_inv_run:
  "gate_inv s0 n S \<Longrightarrow> gate_inv s0 (n + arrivals evs) (sys_run admit release act handler evs S)"
proof (induction evs arbitrary: n S)
  case (Cons ev evs)
  show ?case
  proof (cases ev)
    case (Arrive c)
    with Cons.IH [OF gate_inv_arrive [OF Cons.prems]] show ?thesis by (simp add: sys_run_def)
  next
    case (Effect i)
    with Cons.IH [OF gate_inv_effect [OF Cons.prems]] show ?thesis by (simp add: sys_run_def)
  next
    case (Finish i)
    with Cons.IH [OF gate_inv_finish [OF Cons.prems]] show ?thesis by (simp add: sys_run_def)
  qed
qed (simp add: sys_run_def)

lemma gate_run:
  assumes "occupied s0 = 0"
  shows "gate_inv s0 (arrivals evs) (sys_run admit release act handler evs (sys_start s0))"
proof -
  have "gate_inv s0 0 (sys_start s0)" using assms by (simp add: gate_inv_def sys_start_def)
  from gate_inv_run [OF this, of evs handler] show ?thesis by simp
qed

text \<open>One step, where others may change the counters in between: the law speaks of differences.\<close>

lemma gate_step:
  assumes "occupied (server S) = length (running S)" and "length (running S) \<le> slots (server S)"
  shows "occupied (server (sys_step admit release act handler ev S)) = length (running (sys_step admit release act handler ev S)) \<and>
    length (running (sys_step admit release act handler ev S)) \<le> slots (server S) \<and>
    slots (server (sys_step admit release act handler ev S)) = slots (server S) \<and>
    active (server (sys_step admit release act handler ev S)) + of_nat (length (running S)) =
      active (server S) + of_nat (length (running (sys_step admit release act handler ev S))) \<and>
    total (server (sys_step admit release act handler ev S)) + of_nat (length (served S)) =
      total (server S) + of_nat (length (served (sys_step admit release act handler ev S)))"
proof (cases ev)
  case (Arrive c)
  obtain ok s where a: "admit (server S) = (ok, s)" by fastforce
  note laws = gate_laws(1-6) [of "server S", unfolded a fst_conv snd_conv]
  show ?thesis using assms laws by (cases ok) (auto simp: Arrive a)
next
  case (Effect i)
  with assms show ?thesis by (auto simp: act_frame split: list.split)
next
  case (Finish i)
  show ?thesis
  proof (cases "i < length (running S) \<and> running S ! i = []")
    case True
    then obtain k where k: "length (running S) = Suc k" by (cases "length (running S)") auto
    with True have "length (remove_nth i (running S)) = k" by (simp add: length_remove_nth)
    with True assms k show ?thesis
      by (simp add: Finish release_occupied release_active release_frame)
  qed (use assms in \<open>auto simp: Finish\<close>)
qed

text \<open>A gate without slots rejects everything.\<close>

lemma no_slots_no_service:
  assumes "slots s0 = 0" and "occupied s0 = 0"
  shows "served (sys_run admit release act handler evs (sys_start s0)) = []"
proof -
  have "served (sys_run admit release act handler evs S) = []"
    if "served S = []" "running S = []" "slots (server S) = 0" for S
    using that
  proof (induction evs arbitrary: S)
    case (Cons ev evs)
    have "served (sys_step admit release act handler ev S) = [] \<and>
      running (sys_step admit release act handler ev S) = [] \<and>
      slots (server (sys_step admit release act handler ev S)) = 0"
      using Cons.prems admit_iff [of "server S"] admit_slots [of "server S"]
      by (cases ev) (auto split: prod.split bool.split)
    with Cons.IH [of "sys_step admit release act handler ev S"] show ?case
      by (simp add: sys_run_def)
  qed (simp add: sys_run_def)
  then show ?thesis using assms by (simp add: sys_start_def)
qed

end

section \<open>Counters\<close>

text \<open>
  A counter that only the handlers change, each effect by a fixed amount.  Whatever the
  interleaving, what the counter shows and what the running handlers still owe is the sum over
  the handlers of all connections served.
\<close>

locale counted_gate = slot_gate admit release act occupied slots active total rejected
  for admit :: "'s \<Rightarrow> bool \<times> 's"
    and release :: "'s \<Rightarrow> 's"
    and act :: "'e \<Rightarrow> 's \<Rightarrow> 's"
    and occupied :: "'s \<Rightarrow> nat"
    and slots :: "'s \<Rightarrow> nat"
    and active :: "'s \<Rightarrow> i32"
    and total :: "'s \<Rightarrow> i64"
    and rejected :: "'s \<Rightarrow> i64" +
  fixes counter :: "'s \<Rightarrow> i64"
    and amount :: "'e \<Rightarrow> i64"
  assumes admit_counter: "counter (snd (admit s)) = counter s"
    and release_counter: "counter (release s) = counter s"
    and act_counter: "counter (act e s) = counter s + amount e"
begin

definition owed :: "'e list list \<Rightarrow> i64" where
  "owed rs = sum_list (map (\<lambda>es. sum_list (map amount es)) rs)"

lemma owed_append: "owed (xs @ ys) = owed xs + owed ys"
  by (simp add: owed_def)

lemma owed_split: "i < length rs \<Longrightarrow> owed rs = owed (take i rs) + sum_list (map amount (rs ! i)) + owed (drop (Suc i) rs)"
  by (subst id_take_nth_drop [of i rs]) (simp_all add: owed_def)

definition count_inv :: "'s \<Rightarrow> ('c \<Rightarrow> 'e list) \<Rightarrow> ('s, 'e, 'c) system \<Rightarrow> bool" where
  "count_inv s0 handler S \<longleftrightarrow>
     counter (server S) + owed (running S) = counter s0 + owed (map handler (served S))"

lemma count_inv_step:
  assumes "count_inv s0 handler S"
  shows "count_inv s0 handler (sys_step admit release act handler ev S)"
proof (cases ev)
  case (Arrive c)
  obtain ok s where a: "admit (server S) = (ok, s)" by fastforce
  have "counter s = counter (server S)" using admit_counter [of "server S"] a by simp
  then show ?thesis
    using assms by (cases ok) (simp_all add: Arrive a count_inv_def owed_append algebra_simps owed_def)
next
  case (Effect i)
  show ?thesis
  proof (cases "i < length (running S) \<and> running S ! i \<noteq> []")
    case True
    then obtain e es where e: "running S ! i = e # es" by (cases "running S ! i") auto
    have "owed (running S) = amount e + owed ((running S)[i := es])"
      using True e owed_split [of i "running S"] by (simp add: upd_conv_take_nth_drop owed_append owed_def)
    with True e assms show ?thesis
      by (simp add: Effect count_inv_def act_counter algebra_simps)
  qed (use assms in \<open>auto simp: Effect split: list.split\<close>)
next
  case (Finish i)
  show ?thesis
  proof (cases "i < length (running S) \<and> running S ! i = []")
    case True
    then have "owed (remove_nth i (running S)) = owed (running S)"
      using owed_split [of i "running S"] by (simp add: remove_nth_def owed_append)
    with True assms show ?thesis by (simp add: Finish count_inv_def release_counter)
  qed (use assms in \<open>auto simp: Finish\<close>)
qed

lemma count_run: "count_inv s0 handler (sys_run admit release act handler evs (sys_start s0))"
proof -
  have "count_inv s0 handler (sys_run admit release act handler evs S)"
    if "count_inv s0 handler S" for S
    using that by (induction evs arbitrary: S) (simp_all add: sys_run_def count_inv_step)
  moreover have "count_inv s0 handler (sys_start s0)"
    by (simp add: count_inv_def sys_start_def owed_def)
  ultimately show ?thesis by blast
qed

text \<open>Once every handler has returned, the counter is the sum over the connections served.\<close>

lemma count_quiescent:
  assumes "running (sys_run admit release act handler evs (sys_start s0)) = []"
  shows "counter (server (sys_run admit release act handler evs (sys_start s0))) =
    counter s0 + sum_list (map (\<lambda>c. sum_list (map amount (handler c)))
      (served (sys_run admit release act handler evs (sys_start s0))))"
  using count_run [of s0 handler evs] assms by (simp add: count_inv_def owed_def comp_def)

end

end
