(* ===== verification/Accept_Loop.thy ===== *)
theory Accept_Loop
  imports Server_System
begin

text \<open>
  The accept loop, which \<^verbatim>\<open>SOCKS5Server.Start\<close> and \<^verbatim>\<open>Server.startTCP\<close> have in common: listen, spawn a
  goroutine that closes the listener when the context is done, then accept in a loop, where an
  error ends the loop only if the context is done.  The admission of a connection and its handler
  are those of the server's system; the loop feeds it with arrivals.  The loop runs from one call
  that blocks, or one read of shared state, to the next in one step; the outcome of such a call is
  an argument of the step.
\<close>

section \<open>State and steps\<close>

datatype listener = Unbound | Bound | Shut    \<comment> \<open>\<^verbatim>\<open>s.listener\<close>: nil, open, closed\<close>

datatype 'c accept_pc =
    Unstarted
  | Binding                     \<comment> \<open>in \<open>Listen\<close>\<close>
  | Accepting                   \<comment> \<open>in \<open>Accept\<close>\<close>
  | Admitting 'c                \<comment> \<open>\<open>Accept\<close> has returned a connection\<close>
  | Failed                      \<comment> \<open>\<open>Accept\<close> has returned an error\<close>
  | Finished "string option"        \<comment> \<open>returned: \<^verbatim>\<open>nil\<close>, or why it could not listen\<close>

datatype 'c outcome =
    Fine            \<comment> \<open>\<open>Listen\<close> succeeds; \<open>Accept\<close> goes on waiting\<close>
  | Comes 'c        \<comment> \<open>\<open>Accept\<close> returns a connection\<close>
  | Fails string    \<comment> \<open>an error of the network or of the operating system\<close>

record ('s, 'e, 'c) acceptor =
  ac_pc :: "'c accept_pc"
  ac_listener :: listener
  ac_sys :: "('s, 'e, 'c) system"

datatype 'c accept_event =
    Loop "'c outcome"      \<comment> \<open>the loop runs to its next point\<close>
  | Closer                 \<comment> \<open>the goroutine that waits for the context runs\<close>
  | Handler "'c event"     \<comment> \<open>a handler performs an effect or ends\<close>

definition accept_idle :: "'s \<Rightarrow> ('s, 'e, 'c) acceptor" where
  "accept_idle s = \<lparr>ac_pc = Unstarted, ac_listener = Unbound, ac_sys = sys_start s\<rparr>"

text \<open>Closing a listener, unless there is none; that it was closed before is an error nobody reads.\<close>

definition shut :: "listener \<Rightarrow> listener" where
  "shut l = (if l = Unbound then Unbound else Shut)"

text \<open>\<open>done\<close> tells whether the context that the loop watches is done.\<close>

fun accept_loop ::
  "('c event \<Rightarrow> ('s, 'e, 'c) system \<Rightarrow> ('s, 'e, 'c) system) \<Rightarrow> bool \<Rightarrow> 'c outcome \<Rightarrow>
   ('s, 'e, 'c) acceptor \<Rightarrow> ('s, 'e, 'c) acceptor" where
  "accept_loop step done x a =
     (case ac_pc a of
        Unstarted \<Rightarrow> a
      | Binding \<Rightarrow>
          (case x of
             Fails e \<Rightarrow> a\<lparr>ac_pc := Finished (Some e)\<rparr>
           | _ \<Rightarrow> a\<lparr>ac_pc := Accepting, ac_listener := Bound\<rparr>)
      | Accepting \<Rightarrow>
          if ac_listener a = Shut then a\<lparr>ac_pc := Failed\<rparr>
          else (case x of
                  Fine \<Rightarrow> a
                | Comes c \<Rightarrow> a\<lparr>ac_pc := Admitting c\<rparr>
                | Fails _ \<Rightarrow> a\<lparr>ac_pc := Failed\<rparr>)
      | Admitting c \<Rightarrow> a\<lparr>ac_pc := Accepting, ac_sys := step (Arrive c) (ac_sys a)\<rparr>
      | Failed \<Rightarrow> a\<lparr>ac_pc := (if done then Finished None else Accepting)\<rparr>
      | Finished _ \<Rightarrow> a)"

declare accept_loop.simps [simp del]

fun accept_step ::
  "('c event \<Rightarrow> ('s, 'e, 'c) system \<Rightarrow> ('s, 'e, 'c) system) \<Rightarrow> bool \<Rightarrow> 'c accept_event \<Rightarrow>
   ('s, 'e, 'c) acceptor \<Rightarrow> ('s, 'e, 'c) acceptor" where
  "accept_step step done (Loop x) a = accept_loop step done x a"
| "accept_step step done Closer a = (if done then a\<lparr>ac_listener := shut (ac_listener a)\<rparr> else a)"
| "accept_step step done (Handler (Arrive c)) a = a"
| "accept_step step done (Handler ev) a = a\<lparr>ac_sys := step ev (ac_sys a)\<rparr>"

lemmas accept_defs = accept_loop.simps shut_def

section \<open>Termination\<close>

text \<open>
  Once the context is done, turns of the loop and of the closing goroutine end the loop and close
  the listener: with the listener open it takes the goroutine's turn, then the loop's.
\<close>

fun loop_rank :: "'c accept_pc \<Rightarrow> listener \<Rightarrow> nat" where
  "loop_rank Unstarted _ = 7"
| "loop_rank Binding _ = 6"
| "loop_rank (Finished _) Bound = 1"
| "loop_rank (Finished _) _ = 0"
| "loop_rank _ Bound = 5"
| "loop_rank (Admitting _) _ = 4"
| "loop_rank Accepting _ = 3"
| "loop_rank Failed _ = 2"

definition accept_rank :: "('s, 'e, 'c) acceptor \<Rightarrow> nat" where
  "accept_rank a = loop_rank (ac_pc a) (ac_listener a)"

definition unbound_at :: "'c accept_pc \<Rightarrow> bool" where
  "unbound_at pc \<longleftrightarrow> pc = Unstarted \<or> pc = Binding \<or> (\<exists>e. pc = Finished (Some e))"

definition accept_wf :: "('s, 'e, 'c) acceptor \<Rightarrow> bool" where
  "accept_wf a \<longleftrightarrow> (ac_listener a = Unbound \<longleftrightarrow> unbound_at (ac_pc a))"

lemma accept_wf_step: "accept_wf a \<Longrightarrow> accept_wf (accept_step step done ev a)"
  by (cases "(step, done, ev, a)" rule: accept_step.cases)
    (auto simp: accept_wf_def unbound_at_def accept_defs split: accept_pc.splits outcome.splits option.splits)

lemma accept_wf_idle [simp]: "accept_wf (accept_idle s)"
  by (simp add: accept_wf_def unbound_at_def accept_idle_def)

lemma accept_rank_step: "accept_wf a \<Longrightarrow> accept_rank (accept_step step True ev a) \<le> accept_rank a"
  by (cases "(step, True, ev, a)" rule: accept_step.cases; cases "ac_listener a"; cases "ac_pc a")
    (auto simp: accept_rank_def accept_wf_def unbound_at_def accept_defs split: accept_pc.splits outcome.splits option.splits)

text \<open>Which event lowers the rank: the launch at 7, the closing goroutine at 5 and 1, else the loop.\<close>

lemma accept_rank_closer:
  "accept_wf a \<Longrightarrow> accept_rank a \<in> {1, 5} \<Longrightarrow> accept_rank (accept_step step True Closer a) < accept_rank a"
  by (cases "ac_pc a"; cases "ac_listener a")
    (auto simp: accept_rank_def accept_wf_def unbound_at_def accept_defs split: option.splits)

lemma accept_rank_loop:
  "accept_wf a \<Longrightarrow> accept_rank a \<in> {2, 3, 4, 6} \<Longrightarrow> accept_rank (accept_step step True (Loop x) a) < accept_rank a"
  by (cases "ac_pc a"; cases "ac_listener a"; cases x)
    (auto simp: accept_rank_def accept_wf_def unbound_at_def accept_defs split: option.splits)

lemma accept_rank_le: "accept_rank a \<le> 7"
  by (cases "(ac_pc a, ac_listener a)" rule: loop_rank.cases) (simp_all add: accept_rank_def)

lemma accept_rank_zero:
  "accept_wf a \<Longrightarrow> accept_rank a = 0 \<longleftrightarrow> (\<exists>r. ac_pc a = Finished r) \<and> ac_listener a \<noteq> Bound"
  by (cases "ac_pc a"; cases "ac_listener a") (auto simp: accept_rank_def accept_wf_def unbound_at_def)

section \<open>What the loop feeds into the system\<close>

text \<open>The loop and the handlers change the system by its own steps only, so that what holds in all its runs holds under the loop.\<close>

lemma accept_step_sys:
  obtains "ac_sys (accept_step step done ev a) = ac_sys a"
  | e where "ac_sys (accept_step step done ev a) = step e (ac_sys a)"
proof (cases ev)
  case (Loop x)
  with that show thesis by (cases "ac_pc a"; cases x; cases "ac_listener a = Shut") (simp_all add: accept_defs)
next
  case (Handler e)
  with that show thesis by (cases e) auto
qed (use that in auto)

text \<open>With its listener closed the loop admits at most the connection it has in hand.\<close>

definition in_hand :: "('s, 'e, 'c) acceptor \<Rightarrow> 'c list" where
  "in_hand a = (case ac_pc a of Admitting c \<Rightarrow> [c] | _ \<Rightarrow> [])"

definition shut_since :: "('s, 'e, 'c) acceptor \<Rightarrow> ('s, 'e, 'c) acceptor \<Rightarrow> bool" where
  "shut_since a b \<longleftrightarrow> ac_listener b = Shut \<and>
     (served (ac_sys b) = served (ac_sys a) \<and> (in_hand b = [] \<or> in_hand b = in_hand a) \<or>
      served (ac_sys b) = served (ac_sys a) @ in_hand a \<and> in_hand b = [])"

locale service =
  fixes step :: "'c event \<Rightarrow> ('s, 'e, 'c) system \<Rightarrow> ('s, 'e, 'c) system"
  assumes arrive_served: "served (step (Arrive c) S) = served S \<or> served (step (Arrive c) S) = served S @ [c]"
    and handler_served: "served (step (Effect i) S) = served S" "served (step (Finish i) S) = served S"
begin

lemma shut_since_step:
  assumes "shut_since a b" and "accept_wf b"
  shows "shut_since a (accept_step step done ev b)"
proof (cases ev)
  case (Loop x)
  show ?thesis
  proof (cases "ac_pc b")
    case (Admitting c)
    with assms Loop arrive_served [of c "ac_sys b"] show ?thesis
      by (auto simp: shut_since_def accept_defs in_hand_def)
  qed (use assms Loop in \<open>auto simp: shut_since_def accept_wf_def unbound_at_def accept_defs in_hand_def\<close>)
next
  case (Handler e)
  with assms handler_served show ?thesis by (cases e) (simp_all add: shut_since_def in_hand_def)
qed (use assms in \<open>simp add: shut_since_def accept_defs in_hand_def\<close>)

end

end
