(* ===== verification/Go_Addr.thy ===== *)
theory Go_Addr
  imports Go_Net
begin

text \<open>
  Addresses as Go's package \<^verbatim>\<open>net\<close> treats them: \<^verbatim>\<open>net.IP\<close> values of 4 or 16 bytes, \<^verbatim>\<open>To4\<close>,
  \<^verbatim>\<open>String\<close> (dotted decimal, or the compressed form of RFC 5952), \<^verbatim>\<open>net.ParseIP\<close> on dotted
  decimal, \<^verbatim>\<open>JoinHostPort\<close>, \<^verbatim>\<open>SplitHostPort\<close> and \<^verbatim>\<open>Dial\<close>, which splits the address before it
  touches the network.
\<close>

section \<open>IP addresses\<close>

definition to4 :: "byte list \<Rightarrow> byte list option" where
  "to4 ip =
     (if length ip = 4 then Some ip
      else if length ip = 16 \<and> take 12 ip = replicate 10 0 @ [255, 255] then Some (drop 12 ip)
      else None)"

fun str_join :: "string \<Rightarrow> string list \<Rightarrow> string" where
  "str_join sep [] = []"
| "str_join sep [s] = s"
| "str_join sep (s # t # ss) = s @ sep @ str_join sep (t # ss)"

definition ip4_string :: "byte list \<Rightarrow> string" where
  "ip4_string ip = str_join ''.'' (map (\<lambda>b. show_nat (unat b)) ip)"

text \<open>The eight groups of an IPv6 address, and the length of the zero run at their start.\<close>

fun groups :: "byte list \<Rightarrow> nat list" where
  "groups (hi # lo # bs) = be16 hi lo # groups bs"
| "groups _ = []"

definition zero_run :: "nat list \<Rightarrow> nat" where
  "zero_run gs = length (takeWhile (\<lambda>g. g = 0) gs)"

text \<open>
  The first of the longest runs of at least two zero groups, as its first and last index:
  the scan of \<open>netip.Addr.appendTo6\<close> replaces its candidate only by a strictly longer run.
\<close>

fun scan_run :: "nat list \<Rightarrow> nat \<Rightarrow> (nat \<times> nat) option \<Rightarrow> (nat \<times> nat) option" where
  "scan_run [] i best = best"
| "scan_run (g # gs) i best =
     (let l = zero_run (g # gs);
          cur = (case best of None \<Rightarrow> 0 | Some (a, b) \<Rightarrow> b - a)
      in scan_run gs (Suc i) (if 2 \<le> l \<and> cur < l then Some (i, i + l) else best))"

definition ip6_string :: "byte list \<Rightarrow> string" where
  "ip6_string ip =
     (let gs = groups ip; hex = map (show_base 16) gs in
      case scan_run gs 0 None of
        None \<Rightarrow> str_join '':'' hex
      | Some (a, b) \<Rightarrow> str_join '':'' (take a hex) @ ''::'' @ str_join '':'' (drop b hex))"

definition ip_string :: "byte list \<Rightarrow> string" where
  "ip_string ip =
     (if ip = [] then ''<nil>''
      else case to4 ip of
             Some p4 \<Rightarrow> ip4_string p4
           | None \<Rightarrow> if length ip = 16 then ip6_string ip
                     else ''?'' @ concat (map (\<lambda>b. [digit (unat b div 16), digit (unat b mod 16)]) ip))"

text \<open>\<^verbatim>\<open>net.ParseIP\<close> on a dotted quad: four decimal fields below 256, without leading zeros.\<close>

definition parse_octet :: "string \<Rightarrow> byte option" where
  "parse_octet s =
     (if s = [] \<or> \<not> list_all is_digit s \<or> (1 < length s \<and> hd s = CHR ''0'') \<or> 255 < read_nat s
      then None else Some (word_of_nat (read_nat s)))"

definition parse_ip4 :: "string \<Rightarrow> byte list option" where
  "parse_ip4 s =
     (case map parse_octet (str_split s ''.'') of
        [Some a, Some b, Some c, Some d] \<Rightarrow> Some [a, b, c, d]
      | _ \<Rightarrow> None)"

section \<open>Host and port\<close>

definition join_host_port :: "string \<Rightarrow> string \<Rightarrow> string" where
  "join_host_port host port =
     (if CHR '':'' \<in> set host then ''['' @ host @ '']:'' @ port else host @ '':'' @ port)"

text \<open>\<^verbatim>\<open>net.SplitHostPort\<close>; \<^const>\<open>None\<close> stands for its address errors.\<close>

definition split_host_port :: "string \<Rightarrow> (string \<times> string) option" where
  "split_host_port s =
     (case last_index s '':'' of
        None \<Rightarrow> None
      | Some i \<Rightarrow>
          if s ! 0 = CHR ''['' then
            (case str_index s '']'' of
               None \<Rightarrow> None
             | Some e \<Rightarrow>
                 if e + 1 = length s \<or> e + 1 \<noteq> i then None
                 else if CHR ''['' \<in> set (drop 1 s) \<or> CHR '']'' \<in> set (drop (e + 1) s) then None
                 else Some (drop 1 (take e s), drop (i + 1) s))
          else if CHR '':'' \<in> set (take i s) then None
          else if CHR ''['' \<in> set s \<or> CHR '']'' \<in> set s then None
          else Some (take i s, drop (i + 1) s))"

text \<open>
  \<^verbatim>\<open>net.DialTimeout("tcp", addr, d)\<close>: an address that does not split is refused before any
  network traffic; otherwise the network decides.  A target is the connection with the local
  address the kernel gave it.
\<close>

record target =
  t_conn :: conn
  t_local_ip :: "byte list"
  t_local_port :: nat

type_synonym network = "string \<Rightarrow> string \<Rightarrow> target option"

definition dial :: "network \<Rightarrow> string \<Rightarrow> target option" where
  "dial net addr =
     (case split_host_port addr of None \<Rightarrow> None | Some (host, port) \<Rightarrow> net host port)"

section \<open>Facts on addresses\<close>

lemma to4_length: "to4 ip = Some p \<Longrightarrow> length p = 4"
  by (auto simp: to4_def split: if_splits)

lemma to4_4 [simp]: "length ip = 4 \<Longrightarrow> to4 ip = Some ip"
  by (simp add: to4_def)

lemma set_str_join: "set (str_join sep ss) \<subseteq> set sep \<union> (\<Union>s\<in>set ss. set s)"
  by (induction sep ss rule: str_join.induct) auto

lemma str_join_Cons: "ss \<noteq> [] \<Longrightarrow> str_join sep (s # ss) = s @ sep @ str_join sep ss"
  by (cases ss) auto

lemma count_str_join_colon:
  assumes "\<And>s. s \<in> set ss \<Longrightarrow> x \<notin> set s"
  shows "count_list (str_join [x] ss) x = length ss - 1"
  using assms
  by (induction "[x]" ss rule: str_join.induct) (auto simp: count_list_0_iff)

lemma hex_no_special:
  "c \<in> hex_digits \<Longrightarrow> c \<noteq> CHR '':'' \<and> c \<noteq> CHR ''['' \<and> c \<noteq> CHR '']''"
  by (auto simp: hex_digits_def)

lemma length_groups: "length (groups bs) = length bs div 2"
  by (induction bs rule: groups.induct) auto

lemma set_hex_join:
  assumes "set ss \<subseteq> range (show_base 16)"
  shows "set (str_join '':'' ss) \<subseteq> insert (CHR '':'') hex_digits"
proof -
  have "(\<Union>s\<in>set ss. set s) \<subseteq> hex_digits" using assms set_show_hex by blast
  with set_str_join [of "'':''" ss] show ?thesis by auto
qed

lemma set_ip6_string: "set (ip6_string ip) \<subseteq> insert (CHR '':'') hex_digits"
proof -
  have "set (str_join '':'' (map (show_base 16) gs)) \<subseteq> insert (CHR '':'') hex_digits" for gs
    by (rule set_hex_join) auto
  then show ?thesis
    by (auto simp: ip6_string_def Let_def take_map drop_map split: option.splits)
qed

text \<open>An IPv6 address in text form has at least two colons.\<close>

lemma ip6_string_colons:
  assumes "length ip = 16"
  shows "2 \<le> count_list (ip6_string ip) (CHR '':'')"
proof -
  let ?hex = "map (show_base 16) (groups ip)"
  have "length (groups ip) = 8" using assms by (simp add: length_groups)
  moreover have "count_list (str_join '':'' ?hex) (CHR '':'') = length ?hex - 1"
    using set_show_hex hex_no_special by (intro count_str_join_colon) fastforce
  ultimately show ?thesis
    by (auto simp: ip6_string_def Let_def split: option.splits)
qed

section \<open>Splitting what was joined\<close>

definition plain :: "string \<Rightarrow> bool" where
  "plain s \<longleftrightarrow> CHR '':'' \<notin> set s \<and> CHR ''['' \<notin> set s \<and> CHR '']'' \<notin> set s"

lemma plain_show_nat [simp]: "plain (show_nat n)"
  using set_show_nat [of n] by (auto simp: plain_def dec_digits_def)

lemma split_host_port_plain:
  assumes "plain h" and "plain p"
  shows "split_host_port (h @ CHR '':'' # p) = Some (h, p)"
proof -
  have "last_index (h @ CHR '':'' # p) '':'' = Some (length h)"
    using assms(2) by (intro last_index_single_append) (simp add: plain_def)
  moreover have "(h @ CHR '':'' # p) ! 0 \<noteq> CHR ''[''"
    using assms(1) by (cases h) (auto simp: plain_def)
  ultimately show ?thesis
    using assms by (simp add: split_host_port_def plain_def)
qed

lemma split_host_port_bracketed:
  assumes "CHR ''['' \<notin> set h" and "CHR '']'' \<notin> set h" and "plain p"
  shows "split_host_port (CHR ''['' # h @ CHR '']'' # CHR '':'' # p) = Some (h, p)"
proof -
  let ?s = "CHR ''['' # h @ CHR '']'' # CHR '':'' # p"
  have "last_index ((CHR ''['' # h @ '']'') @ CHR '':'' # p) '':'' = Some (length (CHR ''['' # h @ '']''))"
    using assms(3) by (intro last_index_single_append) (simp add: plain_def)
  then have i: "last_index ?s '':'' = Some (length h + 2)" by simp
  have "str_index ((CHR ''['' # h) @ CHR '']'' # CHR '':'' # p) '']'' = Some (length (CHR ''['' # h))"
    using assms(2) by (intro str_index_single_append) simp
  then have e: "str_index ?s '']'' = Some (Suc (length h))" by simp
  show ?thesis
    unfolding split_host_port_def i e using assms by (simp add: plain_def)
qed

lemma split_join_host_port:
  assumes "CHR ''['' \<notin> set h" and "CHR '']'' \<notin> set h" and "plain p"
  shows "split_host_port (join_host_port h p) = Some (h, p)"
  using assms split_host_port_plain [of h p] split_host_port_bracketed [of h p]
  by (auto simp: join_host_port_def plain_def)

text \<open>The host that an address splits into never holds a bracket.\<close>

lemma split_host_port_no_bracket:
  assumes "split_host_port s = Some (h, p)"
  shows "CHR ''['' \<notin> set h \<and> CHR '']'' \<notin> set h"
proof -
  obtain i where i: "last_index s '':'' = Some i"
    using assms by (auto simp: split_host_port_def split: option.splits)
  show ?thesis
  proof (cases "s ! 0 = CHR ''[''")
    case True
    with assms i obtain e where e: "str_index s '']'' = Some e" "CHR ''['' \<notin> set (drop 1 s)" "h = drop 1 (take e s)"
      by (auto simp: split_host_port_def split: option.splits if_splits)
    have "CHR '']'' \<notin> set (take e s)" using str_index_single_take [OF e(1)] .
    moreover have "set h \<subseteq> set (take e s)" "set h \<subseteq> set (drop 1 s)"
      using set_drop_subset [of 1 "take e s"] set_take_subset [of "e - 1" "drop 1 s"]
      by (simp_all add: e(3) drop_take)
    ultimately show ?thesis using e(2) by blast
  next
    case False
    with assms i have "h = take i s" "CHR ''['' \<notin> set s" "CHR '']'' \<notin> set s"
      by (auto simp: split_host_port_def split: if_splits)
    then show ?thesis by (auto dest: in_set_takeD)
  qed
qed

text \<open>
  A host with a colon and no opening bracket in front does not split: there are too many colons.
\<close>

lemma split_host_port_too_many:
  assumes "CHR '':'' \<in> set h" and "hd h \<noteq> CHR ''[''" and "CHR '':'' \<notin> set p"
  shows "split_host_port (h @ CHR '':'' # p) = None"
proof -
  have "last_index (h @ CHR '':'' # p) '':'' = Some (length h)"
    using assms(3) by (rule last_index_single_append)
  moreover from assms(1) have "h \<noteq> []" by auto
  then have "(h @ CHR '':'' # p) ! 0 \<noteq> CHR ''[''"
    using assms(2) by (simp add: nth_append hd_conv_nth)
  ultimately show ?thesis
    using assms(1) by (simp add: split_host_port_def)
qed

lemma ip6_string_has_colon: "length ip = 16 \<Longrightarrow> CHR '':'' \<in> set (ip6_string ip)"
  using ip6_string_colons [of ip] by (metis count_list_0_iff not_numeral_le_zero)

lemma ip6_string_hd:
  assumes "length ip = 16"
  shows "hd (ip6_string ip) \<noteq> CHR ''[''"
proof -
  from assms have "ip6_string ip \<noteq> []" using ip6_string_has_colon by fastforce
  then have "hd (ip6_string ip) \<in> insert (CHR '':'') hex_digits"
    using set_ip6_string by (rule subsetD [rotated, OF list.set_sel(1)])
  then show ?thesis by (auto simp: hex_digits_def)
qed

text \<open>An IPv6 address followed by a port, without brackets, is refused by the dialer.\<close>

lemma split_ip6_unbracketed:
  assumes "length ip = 16" and "to4 ip = None"
  shows "split_host_port (ip_string ip @ CHR '':'' # show_nat p) = None"
proof -
  have "ip_string ip = ip6_string ip" using assms by (auto simp: ip_string_def)
  moreover have "split_host_port (ip6_string ip @ CHR '':'' # show_nat p) = None"
    using assms(1) by (intro split_host_port_too_many ip6_string_has_colon ip6_string_hd
        show_nat_no_colon)
  ultimately show ?thesis by simp
qed

section \<open>Dotted decimal\<close>

lemma dot_show_nat: "CHR ''.'' \<notin> set (show_nat n)"
  using set_show_nat [of n] by (auto simp: dec_digits_def)

lemma str_split_join:
  assumes "\<And>s. s \<in> set ss \<Longrightarrow> x \<notin> set s" and "ss \<noteq> []"
  shows "str_split (str_join [x] ss) [x] = ss"
  using assms
proof (induction "[x]" ss rule: str_join.induct)
  case (2 s)
  then have "str_index s [x] = None" by (simp add: str_index_single_None)
  then show ?case by (simp add: str_split.simps)
next
  case (3 s t ss)
  then have "str_index (s @ x # str_join [x] (t # ss)) [x] = Some (length s)"
    by (intro str_index_single_append) simp
  moreover have "str_split (str_join [x] (t # ss)) [x] = t # ss"
    using 3 by simp
  ultimately show ?case by (subst str_split.simps) simp
qed simp

lemma show_nat_leading: "10 \<le> n \<Longrightarrow> hd (show_nat n) \<noteq> CHR ''0''"
proof (induction n rule: show_nat_induct)
  case (step n)
  show ?case
  proof (cases "10 \<le> n div 10")
    case True
    with step show ?thesis by (simp add: show_nat_step)
  next
    case False
    then have "n div 10 \<in> {0, 1, 2, 3, 4, 5, 6, 7, 8, 9}" by (intro below_10) simp
    moreover have "n div 10 \<noteq> 0" using step.hyps by simp
    ultimately have "hd [digit (n div 10)] \<noteq> CHR ''0''"
      by (auto simp: digit_def)
    moreover from False have "show_nat (n div 10) = [digit (n div 10)]"
      by (intro show_nat_small) simp
    ultimately show ?thesis using step.hyps by (simp add: show_nat_step)
  qed
qed simp

lemma parse_octet_show: "parse_octet (show_nat (unat b)) = Some b"
proof -
  have "list_all is_digit (show_nat (unat b))"
    by (auto simp: list_all_iff intro: show_nat_is_digit)
  moreover have "\<not> (1 < length (show_nat (unat b)) \<and> hd (show_nat (unat b)) = CHR ''0'')"
    using show_nat_leading [of "unat b"] show_nat_small [of "unat b"]
    by (cases "10 \<le> unat b") auto
  ultimately show ?thesis by (simp add: parse_octet_def not_less)
qed

lemma parse_ip4_string:
  assumes "length ip = 4"
  shows "parse_ip4 (ip4_string ip) = Some ip"
proof -
  obtain a b c d where ip: "ip = [a, b, c, d]"
    using assms by (auto simp: length_Suc_conv numeral_eq_Suc)
  have "str_split (ip4_string ip) ''.'' = map (\<lambda>b. show_nat (unat b)) ip"
    unfolding ip4_string_def using ip dot_show_nat by (intro str_split_join) auto
  then show ?thesis by (simp add: parse_ip4_def ip parse_octet_show)
qed

lemma plain_ip4_string [simp]: "plain (ip4_string ip)"
proof -
  have "set (ip4_string ip) \<subseteq> {CHR ''.''} \<union> dec_digits"
    using set_str_join [of "''.''" "map (\<lambda>b. show_nat (unat b)) ip"] set_show_nat
    unfolding ip4_string_def by fastforce
  then show ?thesis by (auto simp: plain_def dec_digits_def)
qed

lemma ip4_string_inject:
  "length a = 4 \<Longrightarrow> length b = 4 \<Longrightarrow> ip4_string a = ip4_string b \<longleftrightarrow> a = b"
  by (metis option.inject parse_ip4_string)

end
