(* ===== verification/Socks_Protocol.thy ===== *)
theory Socks_Protocol
  imports Server_System Go_Addr
begin

text \<open>
  What the handlers of connections share: the state of a handler while it runs, early returns,
  reads into a buffer of fixed capacity, and the SOCKS5 wire format of RFC 1928 as a client
  produces it (\<open>encode_dst\<close>, \<open>encode_request\<close>) and as a function of the whole input
  (\<open>parse_dst\<close>), against which the readers of the three SOCKS5 servers are compared.
\<close>

section \<open>The state of a running handler\<close>

record 'e hstate =
  client :: conn
  effects :: "'e list"          \<comment> \<open>operations on the shared state, in order\<close>
  dialled :: "string list"      \<comment> \<open>addresses passed to \<open>DialTimeout\<close>, in order\<close>
  upstream :: "conn option"     \<comment> \<open>the connection to the target, once dialled\<close>
  panicked :: bool

definition start_handler :: "conn \<Rightarrow> 'e hstate" where
  "start_handler c = \<lparr>client = c, effects = [], dialled = [], upstream = None, panicked = False\<rparr>"

definition emit :: "'e \<Rightarrow> 'e hstate \<Rightarrow> 'e hstate" where
  "emit e h = h\<lparr>effects := effects h @ [e]\<rparr>"

definition panic :: "'e hstate \<Rightarrow> 'e hstate" where
  "panic h = h\<lparr>panicked := True\<rparr>"

text \<open>
  \<open>io.ReadFull(conn, buf[:n])\<close> for a buffer of capacity \<open>cap\<close>: the slice expression panics when
  \<open>n\<close> is beyond the capacity.
\<close>

datatype 'e rd = RPanic | RErr | RGot "byte list" "'e hstate"

definition recv :: "nat \<Rightarrow> nat \<Rightarrow> 'e hstate \<Rightarrow> 'e rd" where
  "recv cap n h =
     (if cap < n then RPanic
      else case read_full n (client h) of
             None \<Rightarrow> RErr
           | Some (b, c) \<Rightarrow> RGot b (h\<lparr>client := c\<rparr>))"

definition send :: "byte list \<Rightarrow> 'e hstate \<Rightarrow> bool \<times> 'e hstate" where
  "send b h = (let (ok, c) = conn_write b (client h) in (ok, h\<lparr>client := c\<rparr>))"

text \<open>A phase of a handler either returns from the handler (\<^const>\<open>Inl\<close>) or goes on.\<close>

definition and_then :: "'s + 'a \<Rightarrow> ('a \<Rightarrow> 's + 'b) \<Rightarrow> 's + 'b" where
  "and_then m f = (case m of Inl s \<Rightarrow> Inl s | Inr a \<Rightarrow> f a)"

lemma and_then_simps [simp]: "and_then (Inl s) f = Inl s" "and_then (Inr a) f = f a"
  by (simp_all add: and_then_def)

lemma and_then_assoc: "and_then (and_then m f) g = and_then m (\<lambda>x. and_then (f x) g)"
  by (cases m) simp_all

definition returned :: "'s + 's \<Rightarrow> 's" where
  "returned m = (case m of Inl s \<Rightarrow> s | Inr s \<Rightarrow> s)"

lemma returned_simps [simp]: "returned (Inl s) = s" "returned (Inr s) = s"
  by (simp_all add: returned_def)

section \<open>Replies\<close>

text \<open>A reply with the code \<open>rep\<close>, the address type IPv4 and the address 0.0.0.0:0.\<close>

definition reply_code :: "byte \<Rightarrow> byte list" where
  "reply_code rep = [5, rep, 0, 1, 0, 0, 0, 0, 0, 0]"

definition no_auth :: "byte list" where
  "no_auth = [5, 0]"

text \<open>\<^verbatim>\<open>fmt.Sprintf("%s:%d", host, port)\<close>\<close>

definition host_colon_port :: "string \<Rightarrow> nat \<Rightarrow> string" where
  "host_colon_port host port = host @ CHR '':'' # show_nat port"

section \<open>The wire format\<close>

datatype dst = DstIPv4 "byte list" | DstDomain string | DstIPv6 "byte list"

definition dst_wf :: "dst \<Rightarrow> bool" where
  "dst_wf d = (case d of DstIPv4 b \<Rightarrow> length b = 4 | DstDomain s \<Rightarrow> length s < 256
                       | DstIPv6 b \<Rightarrow> length b = 16)"

definition dst_host :: "dst \<Rightarrow> string" where
  "dst_host d = (case d of DstIPv4 b \<Rightarrow> ip_string b | DstDomain s \<Rightarrow> s | DstIPv6 b \<Rightarrow> ip_string b)"

definition dst_atyp :: "dst \<Rightarrow> byte" where
  "dst_atyp d = (case d of DstIPv4 b \<Rightarrow> 1 | DstDomain s \<Rightarrow> 3 | DstIPv6 b \<Rightarrow> 4)"

definition encode_dst :: "dst \<Rightarrow> byte list" where
  "encode_dst d = (case d of DstIPv4 b \<Rightarrow> b | DstDomain s \<Rightarrow> word_of_nat (length s) # bytes_of s
                           | DstIPv6 b \<Rightarrow> b)"

definition encode_greeting :: "byte list \<Rightarrow> byte list" where
  "encode_greeting methods = [5, word_of_nat (length methods)] @ methods"

definition encode_request :: "dst \<Rightarrow> nat \<Rightarrow> byte list" where
  "encode_request d port = [5, 1, 0, dst_atyp d] @ encode_dst d @ put_be16 port"

text \<open>
  The destination read from the whole input that follows the request header: the host text, the
  port and the rest.  \<open>DShort\<close> is an input that ends too early, \<open>DType\<close> an address type that is
  not known.
\<close>

datatype dst_result = DShort | DType | DGot string nat "byte list"

definition parse_port :: "string \<Rightarrow> byte list \<Rightarrow> dst_result" where
  "parse_port host s =
     (if length s < 2 then DShort else DGot host (be16 (s ! 0) (s ! 1)) (drop 2 s))"

definition parse_dst :: "byte \<Rightarrow> byte list \<Rightarrow> dst_result" where
  "parse_dst atyp s =
     (if atyp = 1 then
        (if length s < 4 then DShort else parse_port (ip_string (take 4 s)) (drop 4 s))
      else if atyp = 3 then
        (if length s < 1 then DShort
         else if length s < 1 + unat (s ! 0) then DShort
         else parse_port (str_of (take (unat (s ! 0)) (drop 1 s))) (drop (1 + unat (s ! 0)) s))
      else if atyp = 4 then
        (if length s < 16 then DShort else parse_port (ip_string (take 16 s)) (drop 16 s))
      else DType)"

text \<open>
  What a SOCKS5 server makes of a client's whole input: no greeting, no request header, a command that
  is not CONNECT, no complete destination, or a destination to dial with the input that follows it.
\<close>

datatype socks_verdict =
  VNoGreeting | VNoRequest | VCommand | VNoAddress | VDial string nat "byte list"

definition verdict_dst :: "dst_result \<Rightarrow> socks_verdict" where
  "verdict_dst d = (case d of DGot host port rest \<Rightarrow> VDial host port rest | _ \<Rightarrow> VNoAddress)"

lemma parse_port_encoded:
  "port < 65536 \<Longrightarrow> parse_port host (put_be16 port @ rest) = DGot host port rest"
  by (simp add: parse_port_def put_be16_def be16_put_be16)

lemma unat_length_byte: "length s < 256 \<Longrightarrow> unat (word_of_nat (length s) :: byte) = length s"
  by (simp add: unat_of_nat take_bit_nat_eq_self)

text \<open>Decoding what a client encodes gives the destination back, for every address type.\<close>

lemma parse_dst_encoded:
  assumes "dst_wf d" and "port < 65536"
  shows "parse_dst (dst_atyp d) (encode_dst d @ put_be16 port @ rest) = DGot (dst_host d) port rest"
proof (cases d)
  case (DstDomain s)
  have n: "unat (word_of_nat (length s) :: byte) = length s"
    using assms(1) by (simp add: DstDomain dst_wf_def unat_length_byte)
  show ?thesis
    using assms(2) parse_port_encoded
    by (simp add: DstDomain parse_dst_def dst_atyp_def encode_dst_def dst_host_def n)
next
  case (DstIPv4 b)
  with assms parse_port_encoded show ?thesis
    by (simp add: parse_dst_def dst_wf_def dst_atyp_def encode_dst_def dst_host_def)
next
  case (DstIPv6 b)
  with assms parse_port_encoded show ?thesis
    by (simp add: parse_dst_def dst_wf_def dst_atyp_def encode_dst_def dst_host_def)
qed

section \<open>Facts on the handler's state\<close>

lemma recv_cases:
  assumes "n \<le> cap"
  shows "recv cap n h =
    (if length (stream (client h)) < n then RErr
     else case read_full n (client h) of
            None \<Rightarrow> RErr | Some (b, c) \<Rightarrow> RGot b (h\<lparr>client := c\<rparr>))"
  using assms read_full_None [of n "client h"] by (auto simp: recv_def split: option.split)

lemma recv_RGot:
  assumes "recv cap n h = RGot b h'"
  shows "b = take n (stream (client h))" "stream (client h') = drop n (stream (client h))"
    "n \<le> length (stream (client h))" "\<exists>q. h' = h\<lparr>client := (client h)\<lparr>inq := q\<rparr>\<rparr>"
proof -
  obtain c where r: "read_full n (client h) = Some (b, c)" and h': "h' = h\<lparr>client := c\<rparr>"
    using assms by (auto simp: recv_def split: if_splits option.splits)
  from read_full_Some [OF r] h'
  show "b = take n (stream (client h))" "stream (client h') = drop n (stream (client h))"
    "n \<le> length (stream (client h))" "\<exists>q. h' = h\<lparr>client := (client h)\<lparr>inq := q\<rparr>\<rparr>" by auto
qed

lemma recv_RErr: "recv cap n h = RErr \<Longrightarrow> length (stream (client h)) < n"
  using read_full_None [of n "client h"] by (auto simp: recv_def split: if_splits option.splits)

lemma recv_RPanic: "recv cap n h = RPanic \<longleftrightarrow> cap < n"
  by (auto simp: recv_def split: option.splits)

lemma recv_short: "n \<le> cap \<Longrightarrow> length (stream (client h)) < n \<Longrightarrow> recv cap n h = RErr"
  by (simp add: recv_cases)

lemma recv_enough:
  assumes "n \<le> cap" and "n \<le> length (stream (client h))"
  obtains q where "recv cap n h = RGot (take n (stream (client h))) (h\<lparr>client := (client h)\<lparr>inq := q\<rparr>\<rparr>)"
    and "stream ((client h)\<lparr>inq := q\<rparr>) = drop n (stream (client h))"
proof (cases "recv cap n h")
  case RPanic
  with assms show thesis by (simp add: recv_RPanic)
next
  case RErr
  with assms recv_RErr [OF RErr] show thesis by simp
next
  case (RGot b h')
  with recv_RGot [OF RGot] that show thesis by auto
qed

lemma send_writable [simp]:
  "writable (client h) \<Longrightarrow>
     send b h = (True, h\<lparr>client := (client h)\<lparr>outq := outq (client h) @ b\<rparr>\<rparr>)"
  by (simp add: send_def)

lemma emit_simps [simp]:
  "client (emit e h) = client h" "effects (emit e h) = effects h @ [e]"
  "dialled (emit e h) = dialled h" "upstream (emit e h) = upstream h"
  "panicked (emit e h) = panicked h"
  by (simp_all add: emit_def)

lemma send_frame [simp]:
  "effects (snd (send b h)) = effects h" "dialled (snd (send b h)) = dialled h"
  "upstream (snd (send b h)) = upstream h" "panicked (snd (send b h)) = panicked h"
  "stream (client (snd (send b h))) = stream (client h)"
  by (simp_all add: send_def split: prod.splits) (metis conn_write_frame(6) snd_conv)

section \<open>Handlers on a client that takes every write\<close>

text \<open>
  \<open>hs_at out s h\<close>: so far the handler wrote \<open>out\<close> to a client that takes every write, the input
  that is left is \<open>s\<close>, and nothing else happened.
\<close>

definition hs_at :: "byte list \<Rightarrow> byte list \<Rightarrow> 'e hstate \<Rightarrow> bool" where
  "hs_at out s h \<longleftrightarrow> writable (client h) \<and> outq (client h) = out \<and> stream (client h) = s \<and>
     effects h = [] \<and> dialled h = [] \<and> upstream h = None \<and> \<not> panicked h"

lemma hs_at_start: "writable c \<Longrightarrow> hs_at (outq c) (stream c) (start_handler (set_deadline d c))"
  by (simp add: hs_at_def start_handler_def)

lemma hs_at_client: "hs_at out s h \<Longrightarrow> hs_at out s (h\<lparr>client := set_deadline d (client h)\<rparr>)"
  by (simp add: hs_at_def)

lemma recv_at:
  assumes "hs_at out s h" and "n \<le> cap" and "n \<le> length s"
  obtains h' where "recv cap n h = RGot (take n s) h'" and "hs_at out (drop n s) h'"
proof -
  have len: "n \<le> length (stream (client h))" using assms by (simp add: hs_at_def)
  obtain q where "recv cap n h = RGot (take n (stream (client h))) (h\<lparr>client := (client h)\<lparr>inq := q\<rparr>\<rparr>)"
    and "stream ((client h)\<lparr>inq := q\<rparr>) = drop n (stream (client h))"
    using recv_enough [OF assms(2) len] by blast
  with assms(1) that show thesis by (simp add: hs_at_def)
qed

lemma recv_at_short: "hs_at out s h \<Longrightarrow> n \<le> cap \<Longrightarrow> length s < n \<Longrightarrow> recv cap n h = RErr"
  by (rule recv_short) (simp_all add: hs_at_def)

lemma send_at:
  assumes "hs_at out s h"
  obtains h' where "send b h = (True, h')" and "hs_at (out @ b) s h'"
  using assms that by (simp add: hs_at_def)

text \<open>
  \<open>yields out m d\<close>: reading a destination in the phase \<open>m\<close> agrees with the parse \<open>d\<close> of the whole
  input: it goes on with the same host and port in front of the same rest, or returns.
\<close>

definition yields ::
  "byte list \<Rightarrow> 'e hstate + (string \<times> nat \<times> 'e hstate) \<Rightarrow> dst_result \<Rightarrow> bool" where
  "yields out m d \<longleftrightarrow>
     (case d of
        DGot host port rest \<Rightarrow> \<exists>h. m = Inr (host, port, h) \<and> hs_at out rest h
      | _ \<Rightarrow> \<exists>h s. m = Inl h \<and> hs_at out s h)"

lemma yields_return: "hs_at out s h \<Longrightarrow> yields out (Inl h) DShort" "hs_at out s h \<Longrightarrow> yields out (Inl h) DType"
  by (auto simp: yields_def)

section \<open>Handlers on any client\<close>

text \<open>\<open>did es h h'\<close>: between the two states the effects \<open>es\<close> were performed and nothing was dialled.\<close>

definition did :: "'e list \<Rightarrow> 'e hstate \<Rightarrow> 'e hstate \<Rightarrow> bool" where
  "did es h h' \<longleftrightarrow> effects h' = effects h @ es \<and> dialled h' = dialled h \<and> panicked h' = panicked h"

lemma recv_keeps:
  "recv cap n h = RGot b h' \<Longrightarrow>
     effects h' = effects h \<and> dialled h' = dialled h \<and> panicked h' = panicked h \<and> length b = n"
  using recv_RGot [of cap n h b h'] by auto

lemma send_keeps:
  "send b h = (ok, h') \<Longrightarrow>
     effects h' = effects h \<and> dialled h' = dialled h \<and> panicked h' = panicked h"
  by (metis send_frame(1,2,4) snd_conv)

lemma recv_no_panic: "n \<le> cap \<Longrightarrow> recv cap n h \<noteq> RPanic"
  by (simp add: recv_RPanic)

lemma recv_byte_no_panic: "255 \<le> cap \<Longrightarrow> recv cap (unat (b :: byte)) h \<noteq> RPanic"
  using unat_byte_le [of b] by (intro recv_no_panic) linarith

lemmas phase_splits = rd.split prod.split bool.split sum.split

end
