(* ===== verification/Bounded_Log.thy ===== *)
theory Bounded_Log
  imports Go_Prelude
begin

text \<open>
  The contract of a history that is appended to and cut to its last entries: the connection log of
  the SOCKS5 server and the metrics of the dashboard both promise it.
\<close>

locale bounded_log =
  fixes add :: "'e \<Rightarrow> 's \<Rightarrow> 's"
    and entries :: "'s \<Rightarrow> 'e list"
    and limit :: "'s \<Rightarrow> nat"
  assumes add_entries: "entries (add e s) = last_n (limit s) (entries s @ [e])"
    and add_limit: "limit (add e s) = limit s"
begin

lemma fold_add_limit: "limit (fold add es s) = limit s"
  by (induction es arbitrary: s) (simp_all add: add_limit)

text \<open>After any number of additions the history is the last entries of everything added.\<close>

lemma fold_add_entries:
  "length (entries s) \<le> limit s \<Longrightarrow> entries (fold add es s) = last_n (limit s) (entries s @ es)"
proof (induction es rule: rev_induct)
  case (snoc e es)
  then show ?case
    by (simp add: add_entries fold_add_limit last_n_append_one flip: append_assoc)
qed simp

lemma fold_add_bounded: "length (entries s) \<le> limit s \<Longrightarrow> length (entries (fold add es s)) \<le> limit s"
  by (simp add: fold_add_entries)

end

end
