(* ===== verification/Throughput_Meter.thy ===== *)
theory Throughput_Meter
  imports Go_Prelude
begin

text \<open>
  The throughput figures of \<^verbatim>\<open>GetStats\<close>, which the two servers compute alike: at least half a second
  after the last computation, the bytes counted since then are turned into megabits per second.
  \<^verbatim>\<open>GetStats\<close> holds the server's mutex for reading only, nothing ever takes it for writing, and the
  dashboard calls it from its ticker and from every request for the statistics, so calls overlap.
  This theory holds what a call does to the windows, in its steps, callers that take these steps
  in any order while the handlers count bytes, and the locale \<open>window_server\<close>, the contract of a
  server whose calls take them.  Its lemmas: as long as no two calls overlap no byte is lost
  between windows or measured twice; two calls that overlap measure the same bytes, or make
  negative ones.
\<close>

section \<open>Rates\<close>

text \<open>
  Megabits per second for a number of bytes in a number of nanoseconds, where \<^verbatim>\<open>float64\<close> is taken as
  exact.
\<close>

definition mbps :: "i64 \<Rightarrow> int \<Rightarrow> rat" where
  "mbps n ns = (of_int (sint n) * 8) / (of_int ns / 1000000000 * 1000 * 1000)"

text \<open>What \<^verbatim>\<open>runtime.ReadMemStats\<close> and \<^verbatim>\<open>runtime.NumGoroutine\<close> report, and the conversion to megabytes.\<close>

record mem_stats =
  m_alloc :: "64 word"
  m_sys :: "64 word"
  m_goroutines :: i64

definition idle_mem :: mem_stats where
  "idle_mem = \<lparr>m_alloc = 0, m_sys = 0, m_goroutines = 1\<rparr>"

definition mem_mb :: "64 word \<Rightarrow> 32 word" where
  "mem_mb n = ucast (n div 1024 div 1024)"

text \<open>The bytes that a rate stands for, over a window in nanoseconds.\<close>

definition window_bytes :: "rat \<Rightarrow> int \<Rightarrow> rat" where
  "window_bytes rate ns = rate * of_int ns / 8000"

lemma window_mbps: "ns \<noteq> 0 \<Longrightarrow> window_bytes (mbps n ns) ns = of_int (sint n)"
  by (simp add: window_bytes_def mbps_def)

lemma mbps_negative: "sint n < 0 \<Longrightarrow> 0 < ns \<Longrightarrow> mbps n ns < 0"
  unfolding mbps_def by (simp add: divide_less_0_iff del: of_int_sint)

lemma sint_of_nat_small: "k < 2 ^ 63 \<Longrightarrow> sint (of_nat k :: i64) = int k"
proof -
  assume k: "k < 2 ^ 63"
  have "sint (of_nat k :: i64) = signed_take_bit 63 (int k)" by (simp add: signed_of_nat)
  also have "\<dots> = int k" by (rule signed_take_bit_int_eq_self) (use k in simp_all)
  finally show ?thesis .
qed

section \<open>A call, in its steps\<close>

text \<open>
  Where a call of \<^verbatim>\<open>GetStats\<close> is, with the values of its variables \<open>now\<close>, \<open>elapsed\<close>, \<open>in\<close> and \<open>out\<close>
  that it still needs.
\<close>

datatype poll_pc =
    GsIdle                            \<comment> \<open>not called\<close>
  | GsLoadIn int int                  \<comment> \<open>before loading \<open>BytesIn\<close>\<close>
  | GsLoadOut int int i64
  | GsRateIn int int i64 i64          \<comment> \<open>before computing \<open>ThroughputIn\<close>\<close>
  | GsRateOut int int i64 i64
  | GsPrevIn int i64 i64              \<comment> \<open>before writing \<open>BytesInPrev\<close>\<close>
  | GsPrevOut int i64
  | GsLast int                        \<comment> \<open>before writing the time of the computation\<close>
  | GsMem                             \<comment> \<open>before the memory statistics\<close>
  | GsReturn                          \<comment> \<open>before making the result\<close>

text \<open>The variables that the computation of the rates shares, and its steps on them.\<close>

record windows =
  w_in :: i64
  w_out :: i64
  w_prev_in :: i64
  w_prev_out :: i64
  w_rate_in :: rat
  w_rate_out :: rat
  w_last :: int

fun window_step :: "int \<Rightarrow> poll_pc \<Rightarrow> windows \<Rightarrow> poll_pc \<times> windows" where
  "window_step now GsIdle w =
     (if 500000000 \<le> now - w_last w then GsLoadIn now (now - w_last w) else GsMem, w)"
| "window_step now (GsLoadIn t el) w = (GsLoadOut t el (w_in w), w)"
| "window_step now (GsLoadOut t el i) w = (GsRateIn t el i (w_out w), w)"
| "window_step now (GsRateIn t el i ot) w =
     (GsRateOut t el i ot, w\<lparr>w_rate_in := mbps (i - w_prev_in w) el\<rparr>)"
| "window_step now (GsRateOut t el i ot) w =
     (GsPrevIn t i ot, w\<lparr>w_rate_out := mbps (ot - w_prev_out w) el\<rparr>)"
| "window_step now (GsPrevIn t i ot) w = (GsPrevOut t ot, w\<lparr>w_prev_in := i\<rparr>)"
| "window_step now (GsPrevOut t ot) w = (GsLast t, w\<lparr>w_prev_out := ot\<rparr>)"
| "window_step now (GsLast t) w = (GsMem, w\<lparr>w_last := t\<rparr>)"
| "window_step now GsMem w = (GsReturn, w)"
| "window_step now GsReturn w = (GsIdle, w)"

text \<open>A call that runs alone: its steps until it has a result.\<close>

fun solo :: "(poll_pc \<Rightarrow> 's \<Rightarrow> poll_pc \<times> 's \<times> 'r option) \<Rightarrow> nat \<Rightarrow> poll_pc \<Rightarrow> 's \<Rightarrow> ('r \<times> 's) option" where
  "solo step 0 pc s = None"
| "solo step (Suc n) pc s =
     (case step pc s of (pc', s', Some r) \<Rightarrow> Some (r, s') | (pc', s', None) \<Rightarrow> solo step n pc' s')"

section \<open>Callers beside the handlers\<close>

datatype poll_event =
    CountIn nat                \<comment> \<open>a handler adds so many bytes to \<open>BytesIn\<close>\<close>
  | CountOut nat
  | PollStep nat int mem_stats \<comment> \<open>the next step of this caller, with what the clock and the runtime say then\<close>

text \<open>
  The server, the callers, and the bytes that the rates computed so far stand for, each over its
  window.
\<close>

record 's polled =
  pl_srv :: 's
  pl_pcs :: "poll_pc list"
  pl_in :: rat
  pl_out :: rat

definition polled_by :: "nat \<Rightarrow> 's \<Rightarrow> 's polled" where
  "polled_by n s = \<lparr>pl_srv = s, pl_pcs = replicate n GsIdle, pl_in = 0, pl_out = 0\<rparr>"

definition measured_in :: "poll_pc \<Rightarrow> windows \<Rightarrow> rat" where
  "measured_in pc w = (case pc of GsRateIn t el i ot \<Rightarrow> window_bytes (w_rate_in w) el | _ \<Rightarrow> 0)"

definition measured_out :: "poll_pc \<Rightarrow> windows \<Rightarrow> rat" where
  "measured_out pc w = (case pc of GsRateOut t el i ot \<Rightarrow> window_bytes (w_rate_out w) el | _ \<Rightarrow> 0)"

fun poll_act ::
  "(int \<Rightarrow> mem_stats \<Rightarrow> poll_pc \<Rightarrow> 's \<Rightarrow> poll_pc \<times> 's \<times> 'r option) \<Rightarrow> (nat \<Rightarrow> 's \<Rightarrow> 's) \<Rightarrow> (nat \<Rightarrow> 's \<Rightarrow> 's) \<Rightarrow>
   ('s \<Rightarrow> windows) \<Rightarrow> poll_event \<Rightarrow> 's polled \<Rightarrow> 's polled" where
  "poll_act step add_in add_out win (CountIn n) p = p\<lparr>pl_srv := add_in n (pl_srv p)\<rparr>"
| "poll_act step add_in add_out win (CountOut n) p = p\<lparr>pl_srv := add_out n (pl_srv p)\<rparr>"
| "poll_act step add_in add_out win (PollStep j now m) p =
     (if j < length (pl_pcs p) then
        (let pc = pl_pcs p ! j; (pc', s', r) = step now m pc (pl_srv p)
         in p\<lparr>pl_srv := s', pl_pcs := (pl_pcs p)[j := pc'],
              pl_in := pl_in p + measured_in pc (win s'),
              pl_out := pl_out p + measured_out pc (win s')\<rparr>)
      else p)"

text \<open>No caller takes a step while another is in its call.\<close>

fun apart :: "(poll_event \<Rightarrow> 's polled \<Rightarrow> 's polled) \<Rightarrow> poll_event list \<Rightarrow> 's polled \<Rightarrow> bool" where
  "apart act [] p = True"
| "apart act (e # evs) p =
     ((case e of PollStep j now m \<Rightarrow> list_all ((=) GsIdle) ((pl_pcs p)[j := GsIdle]) | _ \<Rightarrow> True) \<and>
      apart act evs (act e p))"

definition counted_in :: "poll_event list \<Rightarrow> nat" where
  "counted_in evs = sum_list (map (\<lambda>e. case e of CountIn n \<Rightarrow> n | _ \<Rightarrow> 0) evs)"

definition counted_out :: "poll_event list \<Rightarrow> nat" where
  "counted_out evs = sum_list (map (\<lambda>e. case e of CountOut n \<Rightarrow> n | _ \<Rightarrow> 0) evs)"

lemma counted_simps [simp]:
  "counted_in [] = 0" "counted_in (e # evs) = (case e of CountIn n \<Rightarrow> n | _ \<Rightarrow> 0) + counted_in evs"
  "counted_out [] = 0" "counted_out (e # evs) = (case e of CountOut n \<Rightarrow> n | _ \<Rightarrow> 0) + counted_out evs"
  by (simp_all add: counted_in_def counted_out_def)

text \<open>One caller's call in a run: this many of its steps, at a time.\<close>

definition call_steps :: "nat \<Rightarrow> int \<Rightarrow> mem_stats \<Rightarrow> nat \<Rightarrow> poll_event list" where
  "call_steps j now m n = replicate n (PollStep j now m)"

section \<open>The bytes of one direction\<close>

text \<open>What the one caller in a call has done with a counter: nothing yet, loaded it, or measured it.\<close>

datatype phase = Fresh | Loaded i64 | Measured i64

fun phase_in :: "poll_pc \<Rightarrow> phase" where
  "phase_in (GsLoadOut t el i) = Loaded i"
| "phase_in (GsRateIn t el i ot) = Loaded i"
| "phase_in (GsRateOut t el i ot) = Measured i"
| "phase_in (GsPrevIn t i ot) = Measured i"
| "phase_in pc = Fresh"

fun phase_out :: "poll_pc \<Rightarrow> phase" where
  "phase_out (GsRateIn t el i ot) = Loaded ot"
| "phase_out (GsRateOut t el i ot) = Loaded ot"
| "phase_out (GsPrevIn t i ot) = Measured ot"
| "phase_out (GsPrevOut t ot) = Measured ot"
| "phase_out pc = Fresh"

fun timed :: "poll_pc \<Rightarrow> bool" where
  "timed (GsLoadIn t el) = (0 < el)"
| "timed (GsLoadOut t el i) = (0 < el)"
| "timed (GsRateIn t el i ot) = (0 < el)"
| "timed (GsRateOut t el i ot) = (0 < el)"
| "timed pc = True"

text \<open>
  Of the bytes counted, all but those since the mark were measured; the mark is the loaded value
  once it was measured, the stored one before.
\<close>

fun accounted :: "phase \<Rightarrow> i64 \<Rightarrow> i64 \<Rightarrow> nat \<Rightarrow> rat \<Rightarrow> bool" where
  "accounted Fresh b p tot meas = (\<exists>k\<le>tot. b - p = of_nat k \<and> meas = of_nat (tot - k))"
| "accounted (Loaded v) b p tot meas =
     (\<exists>k l. k + l \<le> tot \<and> v - p = of_nat k \<and> b - v = of_nat l \<and> meas = of_nat (tot - (k + l)))"
| "accounted (Measured v) b p tot meas = (\<exists>k\<le>tot. b - v = of_nat k \<and> meas = of_nat (tot - k))"

lemma accounted_count:
  assumes "accounted ph b p tot meas"
  shows "accounted ph (b + of_nat n) p (tot + n) meas"
proof (cases ph)
  case Fresh
  with assms obtain k where "k \<le> tot" "b - p = of_nat k" "meas = of_nat (tot - k)" by auto
  with Fresh show ?thesis by (auto intro!: exI [of _ "k + n"] simp: algebra_simps)
next
  case (Loaded v)
  with assms obtain k l where "k + l \<le> tot" "v - p = of_nat k" "b - v = of_nat l"
    "meas = of_nat (tot - (k + l))" by auto
  then have "k + (l + n) \<le> tot + n" "b + of_nat n - v = of_nat (l + n)"
    "meas = of_nat (tot + n - (k + (l + n)))" by (simp_all add: algebra_simps)
  with \<open>v - p = of_nat k\<close> Loaded show ?thesis by (simp only: accounted.simps) blast
next
  case (Measured v)
  with assms obtain k where "k \<le> tot" "b - v = of_nat k" "meas = of_nat (tot - k)" by auto
  with Measured show ?thesis by (auto intro!: exI [of _ "k + n"] simp: algebra_simps)
qed

lemma accounted_load: "accounted Fresh b p tot meas \<Longrightarrow> accounted (Loaded b) b p tot meas"
proof -
  assume "accounted Fresh b p tot meas"
  then obtain k where "k + 0 \<le> tot" "b - p = of_nat k" "b - b = of_nat 0" "meas = of_nat (tot - (k + 0))"
    by auto
  then show ?thesis by (simp only: accounted.simps) blast
qed

lemma accounted_measure:
  assumes "accounted (Loaded v) b p tot meas" and "tot < 2 ^ 63" and "0 < el"
  shows "accounted (Measured v) b p tot (meas + window_bytes (mbps (v - p) el) el)"
proof -
  obtain k l where k: "k + l \<le> tot" "v - p = of_nat k" "b - v = of_nat l" "meas = of_nat (tot - (k + l))"
    using assms(1) by auto
  have "sint (of_nat k :: i64) = int k" using k(1) assms(2) by (intro sint_of_nat_small) simp
  then have "window_bytes (mbps (v - p) el) el = of_nat k" using assms(3) k(2) by (simp add: window_mbps)
  with k show ?thesis by (auto intro!: exI [of _ l] simp: of_nat_diff)
qed

lemma accounted_store: "accounted (Measured v) b p tot meas = accounted Fresh b v tot meas"
  by simp

lemma accounted_rest:
  assumes "accounted Fresh b p tot meas" and "tot < 2 ^ 63"
  shows "meas + of_int (sint (b - p)) = of_nat tot"
proof -
  obtain k where k: "k \<le> tot" "b - p = of_nat k" "meas = of_nat (tot - k)" using assms(1) by auto
  then have "sint (b - p) = int k" using assms(2) by (simp add: sint_of_nat_small)
  with k show ?thesis by (simp add: of_nat_diff)
qed

section \<open>Calls that overlap\<close>

text \<open>The windows alone, under the same events.\<close>

definition window_poll :: "int \<Rightarrow> mem_stats \<Rightarrow> poll_pc \<Rightarrow> windows \<Rightarrow> poll_pc \<times> windows \<times> unit option" where
  "window_poll now m pc w = (fst (window_step now pc w), snd (window_step now pc w), None)"

definition window_act :: "poll_event \<Rightarrow> windows polled \<Rightarrow> windows polled" where
  "window_act = poll_act window_poll (\<lambda>n w. w\<lparr>w_in := w_in w + of_nat n\<rparr>)
     (\<lambda>n w. w\<lparr>w_out := w_out w + of_nat n\<rparr>) id"

lemma window_act_count [simp]:
  "window_act (CountIn n) p = p\<lparr>pl_srv := (pl_srv p)\<lparr>w_in := w_in (pl_srv p) + of_nat n\<rparr>\<rparr>"
  "window_act (CountOut n) p = p\<lparr>pl_srv := (pl_srv p)\<lparr>w_out := w_out (pl_srv p) + of_nat n\<rparr>\<rparr>"
  by (simp_all add: window_act_def)

lemma window_act_step [simp]:
  "j < length (pl_pcs p) \<Longrightarrow> window_act (PollStep j now m) p =
     (let pc = pl_pcs p ! j; (pc', w') = window_step now pc (pl_srv p)
      in p\<lparr>pl_srv := w', pl_pcs := (pl_pcs p)[j := pc'],
           pl_in := pl_in p + measured_in pc w', pl_out := pl_out p + measured_out pc w'\<rparr>)"
  by (simp add: window_act_def window_poll_def Let_def split_beta)

text \<open>The schedule of two overlapping calls: the first is interrupted before it stores anything.\<close>

definition overlap :: "int \<Rightarrow> int \<Rightarrow> mem_stats \<Rightarrow> nat \<Rightarrow> poll_event list" where
  "overlap t1 t2 m i = call_steps 0 t1 m i @ call_steps 1 t2 m 5 @
     call_steps 0 t1 m (10 - i) @ call_steps 1 t2 m 5"

text \<open>A call that a whole other call, and more bytes, interrupt after it has loaded the counters.\<close>

definition late_call :: "int \<Rightarrow> int \<Rightarrow> mem_stats \<Rightarrow> nat \<Rightarrow> poll_event list" where
  "late_call t1 t2 m k = call_steps 0 t1 m 3 @ [CountIn k] @ call_steps 1 t2 m 10 @ call_steps 0 t1 m 7"

lemma call_steps_simps [simp]:
  "call_steps j now m 0 = []" "call_steps j now m (Suc n) = PollStep j now m # call_steps j now m n"
  by (simp_all add: call_steps_def)

lemma counted_call [simp]: "counted_in (call_steps j now m n) = 0" "counted_out (call_steps j now m n) = 0"
  by (induction n) simp_all

lemma window_overlap:
  assumes "w_in w = w_prev_in w" and "w_out w = w_prev_out w"
    and "500000000 \<le> t1 - w_last w" and "500000000 \<le> t2 - w_last w" and "i \<le> 5"
    and "k < 2 ^ 63" and "l < 2 ^ 63"
  shows "pl_in (fold window_act ([CountIn k, CountOut l] @ overlap t1 t2 m i) (polled_by 2 w)) = 2 * of_nat k \<and>
    pl_out (fold window_act ([CountIn k, CountOut l] @ overlap t1 t2 m i) (polled_by 2 w)) = 2 * of_nat l"
proof -
  have n: "(2::nat) = Suc (Suc 0)" "(5::nat) = Suc (Suc (Suc (Suc (Suc 0))))" by simp_all
  have m: "window_bytes (mbps (of_nat k) (t - w_last w)) (t - w_last w) = of_nat k"
    "window_bytes (mbps (of_nat l) (t - w_last w)) (t - w_last w) = of_nat l"
    if "500000000 \<le> t - w_last w" for t
    using that assms(6,7) by (simp_all add: window_mbps sint_of_nat_small)
  have "i \<in> {0, 1, 2, 3, 4, 5}" using assms(5) by auto
  then show ?thesis
    using assms(1-4) m [OF assms(3)] m [OF assms(4)]
    by (elim insertE emptyE; simp add: overlap_def polled_by_def n eval_nat_numeral Let_def
        measured_in_def measured_out_def)
qed

lemma window_late_call:
  assumes "w_in w = w_prev_in w"
    and "500000000 \<le> t1 - w_last w" and "500000000 \<le> t2 - w_last w"
    and "0 < k" and "k < 2 ^ 63"
  shows "w_rate_in (pl_srv (fold window_act (late_call t1 t2 m k) (polled_by 2 w))) < 0"
proof -
  have "sint (- of_nat k :: i64) = sint (word_of_int (- int k) :: i64)" by simp
  also have "\<dots> = - int k"
    using signed_take_bit_int_eq_self [of 63 "- int k"] assms(5) by (simp only: signed_of_int) simp
  finally have "mbps (- of_nat k) (t1 - w_last w) < 0"
    using assms(2,4) by (intro mbps_negative) simp_all
  then show ?thesis
    using assms(1-3)
    by (simp add: late_call_def polled_by_def eval_nat_numeral Let_def measured_in_def measured_out_def)
qed

section \<open>The contract\<close>

locale window_server =
  fixes step :: "int \<Rightarrow> mem_stats \<Rightarrow> poll_pc \<Rightarrow> 's \<Rightarrow> poll_pc \<times> 's \<times> 'r option"
    and add_in :: "nat \<Rightarrow> 's \<Rightarrow> 's"
    and add_out :: "nat \<Rightarrow> 's \<Rightarrow> 's"
    and win :: "'s \<Rightarrow> windows"
  assumes step_win: "(fst (step now m pc s), win (fst (snd (step now m pc s)))) = window_step now pc (win s)"
    and add_in_win: "win (add_in n s) = (win s)\<lparr>w_in := w_in (win s) + of_nat n\<rparr>"
    and add_out_win: "win (add_out n s) = (win s)\<lparr>w_out := w_out (win s) + of_nat n\<rparr>"
begin

abbreviation act :: "poll_event \<Rightarrow> 's polled \<Rightarrow> 's polled" where
  "act \<equiv> poll_act step add_in add_out win"

definition tallied :: "nat \<Rightarrow> nat \<Rightarrow> poll_pc \<Rightarrow> 's polled \<Rightarrow> bool" where
  "tallied ti tout pc p \<longleftrightarrow> timed pc \<and>
     accounted (phase_in pc) (w_in (win (pl_srv p))) (w_prev_in (win (pl_srv p))) ti (pl_in p) \<and>
     accounted (phase_out pc) (w_out (win (pl_srv p))) (w_prev_out (win (pl_srv p))) tout (pl_out p)"

text \<open>At most one caller is in its call, and the bytes are accounted for with what it has done.\<close>

definition windows_inv :: "nat \<Rightarrow> nat \<Rightarrow> 's polled \<Rightarrow> bool" where
  "windows_inv ti tout p \<longleftrightarrow>
     (\<exists>j. list_all ((=) GsIdle) ((pl_pcs p)[j := GsIdle]) \<and>
       tallied ti tout (if j < length (pl_pcs p) then pl_pcs p ! j else GsIdle) p)"

lemma windows_inv_at:
  assumes inv: "windows_inv ti tout p" and j: "j < length (pl_pcs p)"
    and alone: "list_all ((=) GsIdle) ((pl_pcs p)[j := GsIdle])"
  shows "tallied ti tout (pl_pcs p ! j) p"
proof -
  obtain i where i: "list_all ((=) GsIdle) ((pl_pcs p)[i := GsIdle])"
    "tallied ti tout (if i < length (pl_pcs p) then pl_pcs p ! i else GsIdle) p"
    using inv by (auto simp: windows_inv_def)
  show ?thesis
  proof (cases "i = j")
    case True
    with i(2) j show ?thesis by simp
  next
    case False
    then have "(pl_pcs p)[i := GsIdle] ! j = pl_pcs p ! j" by simp
    then have "pl_pcs p ! j = GsIdle"
      using i(1) j unfolding list_all_length length_list_update by metis
    moreover have "(if i < length (pl_pcs p) then pl_pcs p ! i else GsIdle) = GsIdle"
    proof (cases "i < length (pl_pcs p)")
      case True
      then have "GsIdle = (pl_pcs p)[j := GsIdle] ! i" using alone by (simp add: list_all_length)
      with False True show ?thesis by simp
    qed simp
    ultimately show ?thesis using i(2) by simp
  qed
qed

lemma win_step:
  assumes "step now m pc s = (pc', s', r)"
  shows "window_step now pc (win s) = (pc', win s')"
  using step_win [of now m pc s] assms by simp

text \<open>The windows of a server move as the windows alone.\<close>

definition windows_of :: "'s polled \<Rightarrow> windows polled" where
  "windows_of p = \<lparr>pl_srv = win (pl_srv p), pl_pcs = pl_pcs p, pl_in = pl_in p, pl_out = pl_out p\<rparr>"

lemma windows_of_act: "windows_of (act e p) = window_act e (windows_of p)"
proof (cases e)
  case (PollStep j now m)
  show ?thesis
  proof (cases "j < length (pl_pcs p)")
    case True
    obtain pc' s' r where st: "step now m (pl_pcs p ! j) (pl_srv p) = (pc', s', r)"
      by (metis prod_cases3)
    from win_step [OF st] st True PollStep show ?thesis
      by (simp add: windows_of_def Let_def)
  qed (simp add: PollStep windows_of_def window_act_def)
qed (simp_all add: windows_of_def add_in_win add_out_win)

lemma windows_of_run: "windows_of (fold act evs p) = fold window_act evs (windows_of p)"
  by (induction evs arbitrary: p) (simp_all add: windows_of_act)

lemma tallied_step:
  assumes "tallied ti tout pc p" and "ti < 2 ^ 63" "tout < 2 ^ 63"
    and "step now m pc (pl_srv p) = (pc', s', r)"
  shows "tallied ti tout pc' (p\<lparr>pl_srv := s', pl_pcs := pcs,
    pl_in := pl_in p + measured_in pc (win s'), pl_out := pl_out p + measured_out pc (win s')\<rparr>)"
proof -
  note w = win_step [OF assms(4)]
  show ?thesis
  proof (cases pc)
    case GsIdle
    with w assms(1) show ?thesis
      by (auto simp: tallied_def measured_in_def measured_out_def simp del: accounted.simps split: if_splits)
  next
    case (GsLoadIn t el)
    with w assms(1) accounted_load show ?thesis
      by (auto simp: tallied_def measured_in_def measured_out_def simp del: accounted.simps)
  next
    case (GsLoadOut t el i)
    with w assms(1) accounted_load show ?thesis
      by (auto simp: tallied_def measured_in_def measured_out_def simp del: accounted.simps)
  next
    case (GsRateIn t el i ot)
    with w assms(1) accounted_measure [OF _ assms(2), of i _ _ _ el] show ?thesis
      by (auto simp: tallied_def measured_in_def measured_out_def simp del: accounted.simps
          dest!: sym [of _ "win s'"])
  next
    case (GsRateOut t el i ot)
    with w assms(1) accounted_measure [OF _ assms(3), of ot _ _ _ el] show ?thesis
      by (auto simp: tallied_def measured_in_def measured_out_def simp del: accounted.simps
          dest!: sym [of _ "win s'"])
  next
    case (GsPrevIn t i ot)
    with w assms(1) show ?thesis
      by (auto simp: tallied_def measured_in_def measured_out_def accounted_store simp del: accounted.simps
          dest!: sym [of _ "win s'"])
  next
    case (GsPrevOut t ot)
    with w assms(1) show ?thesis
      by (auto simp: tallied_def measured_in_def measured_out_def accounted_store simp del: accounted.simps
          dest!: sym [of _ "win s'"])
  qed (use w assms(1) in \<open>auto simp: tallied_def measured_in_def measured_out_def simp del: accounted.simps
          dest!: sym [of _ "win s'"]\<close>)
qed

lemma windows_inv_act:
  assumes inv: "windows_inv ti tout p"
    and alone: "\<And>j now m. e = PollStep j now m \<Longrightarrow> list_all ((=) GsIdle) ((pl_pcs p)[j := GsIdle])"
    and small: "ti + counted_in [e] < 2 ^ 63" "tout + counted_out [e] < 2 ^ 63"
  shows "windows_inv (ti + counted_in [e]) (tout + counted_out [e]) (act e p)"
proof (cases e)
  case (CountIn n)
  with inv accounted_count show ?thesis
    by (fastforce simp: windows_inv_def tallied_def add_in_win simp del: accounted.simps)
next
  case (CountOut n)
  with inv accounted_count show ?thesis
    by (fastforce simp: windows_inv_def tallied_def add_out_win simp del: accounted.simps)
next
  case (PollStep j now m)
  show ?thesis
  proof (cases "j < length (pl_pcs p)")
    case False
    with PollStep inv show ?thesis by simp
  next
    case True
    obtain pc' s' r where st: "step now m (pl_pcs p ! j) (pl_srv p) = (pc', s', r)"
      by (metis prod_cases3)
    note al = alone [OF PollStep]
    have "tallied ti tout (pl_pcs p ! j) p" by (rule windows_inv_at [OF inv True al])
    from tallied_step [OF this _ _ st, of "(pl_pcs p)[j := pc']"] small PollStep True al st
    show ?thesis by (simp add: windows_inv_def Let_def) (rule exI [of _ j], simp)
  qed
qed

lemma windows_inv_run:
  assumes "windows_inv ti tout p" and "apart act evs p"
    and "ti + counted_in evs < 2 ^ 63" "tout + counted_out evs < 2 ^ 63"
  shows "windows_inv (ti + counted_in evs) (tout + counted_out evs) (fold act evs p)"
  using assms
proof (induction evs arbitrary: ti tout p)
  case (Cons e evs)
  have "windows_inv (ti + counted_in [e]) (tout + counted_out [e]) (act e p)"
    using Cons.prems by (intro windows_inv_act) (auto split: poll_event.splits)
  from Cons.IH [OF this] Cons.prems(2-4) show ?case by (simp add: add.assoc)
qed simp

text \<open>
  Calls that do not overlap: when none is under way, the bytes that the rates stand for and those
  counted since the last computation are all the bytes.
\<close>

lemma windows_exact:
  assumes "w_in (win s) = w_prev_in (win s)" and "w_out (win s) = w_prev_out (win s)"
    and "apart act evs (polled_by n s)"
    and "counted_in evs < 2 ^ 63" "counted_out evs < 2 ^ 63"
    and "list_all ((=) GsIdle) (pl_pcs (fold act evs (polled_by n s)))"
  shows "pl_in (fold act evs (polled_by n s)) + of_int (sint (w_in (win (pl_srv (fold act evs (polled_by n s)))) -
      w_prev_in (win (pl_srv (fold act evs (polled_by n s)))))) = of_nat (counted_in evs) \<and>
    pl_out (fold act evs (polled_by n s)) + of_int (sint (w_out (win (pl_srv (fold act evs (polled_by n s)))) -
      w_prev_out (win (pl_srv (fold act evs (polled_by n s)))))) = of_nat (counted_out evs)"
proof -
  let ?p = "fold act evs (polled_by n s)"
  have "windows_inv 0 0 (polled_by n s)"
    using assms(1,2) by (auto simp: windows_inv_def tallied_def polled_by_def list_all_length nth_list_update
        intro!: exI [of _ n])
  from windows_inv_run [OF this assms(3)] assms(4,5)
  have "windows_inv (counted_in evs) (counted_out evs) ?p" by simp
  then obtain j where "tallied (counted_in evs) (counted_out evs)
      (if j < length (pl_pcs ?p) then pl_pcs ?p ! j else GsIdle) ?p"
    by (auto simp: windows_inv_def)
  moreover have "(if j < length (pl_pcs ?p) then pl_pcs ?p ! j else GsIdle) = GsIdle"
    using assms(6) by (auto simp: list_all_length)
  ultimately have "tallied (counted_in evs) (counted_out evs) GsIdle ?p" by simp
  then show ?thesis
    using assms(4,5) unfolding tallied_def phase_in.simps phase_out.simps by (blast intro: accounted_rest)
qed

end

end
