(* ===== verification/Socks5_Proxy.thy ===== *)
theory Socks5_Proxy
  imports Socks_Protocol Bounded_Log Throughput_Meter
begin

text \<open>
  \<^verbatim>\<open>internal/proxy/socks5.go\<close>: the dedicated SOCKS5 server.  The server's record with its statistics,
  semaphore and bounded connection log; \<^verbatim>\<open>SetMaxConns\<close>, \<^verbatim>\<open>GetStats\<close>, \<^verbatim>\<open>GetConnLogs\<close>, \<^verbatim>\<open>addConnLog\<close>;
  the admission in \<^verbatim>\<open>Start\<close> and the deferred release in \<^verbatim>\<open>handle\<close>; and \<^verbatim>\<open>handle\<close> itself, in the
  phases of its code.  Socket options and log output have no effect in the model.  \<^verbatim>\<open>float64\<close>
  values are exact rationals, times are nanoseconds.
\<close>

section \<open>State\<close>

record socks_stats =
  s_bytes_in :: i64
  s_bytes_out :: i64
  s_conns_total :: i64
  s_conns_failed :: i64
  s_conns_rejected :: i64
  s_start_time :: i64
  s_throughput_in :: rat
  s_throughput_out :: rat
  s_bytes_in_prev :: i64
  s_bytes_out_prev :: i64
  s_conns_active :: i32
  s_mem_alloc :: "32 word"
  s_mem_sys :: "32 word"
  s_num_goroutine :: i64

record conn_log =
  l_timestamp :: int
  l_addr :: string
  l_target :: string
  l_status :: string
  l_bytes :: i64

record socks_server =
  s_addr :: string
  s_stats :: socks_stats
  s_max_conns :: i32
  s_sem :: nat          \<comment> \<open>values in the channel \<open>connSem\<close>\<close>
  s_slots :: nat        \<comment> \<open>its capacity\<close>
  s_conn_log :: "conn_log list"
  s_max_log :: nat
  s_last_calc :: int

definition zero_socks_stats :: socks_stats where
  "zero_socks_stats = \<lparr>s_bytes_in = 0, s_bytes_out = 0, s_conns_total = 0, s_conns_failed = 0,
     s_conns_rejected = 0, s_start_time = 0, s_throughput_in = 0, s_throughput_out = 0,
     s_bytes_in_prev = 0, s_bytes_out_prev = 0, s_conns_active = 0, s_mem_alloc = 0, s_mem_sys = 0,
     s_num_goroutine = 0\<rparr>"

definition NewSOCKS5Server :: "string \<Rightarrow> int \<Rightarrow> socks_server" where
  "NewSOCKS5Server a now = \<lparr>s_addr = a,
     s_stats = zero_socks_stats\<lparr>s_start_time := word_of_int (now div 1000000000)\<rparr>,
     s_max_conns = 2048, s_sem = 0, s_slots = 2048, s_conn_log = [], s_max_log = 1000,
     s_last_calc = now\<rparr>"

text \<open>\<^verbatim>\<open>make(chan struct{}, max)\<close> panics for a negative size: \<^const>\<open>None\<close>.\<close>

definition socks_SetMaxConns :: "i32 \<Rightarrow> socks_server \<Rightarrow> socks_server option" where
  "socks_SetMaxConns m s =
     (if sint m < 0 then None
      else Some (s\<lparr>s_max_conns := m, s_sem := 0, s_slots := nat (sint m)\<rparr>))"

section \<open>Statistics\<close>

text \<open>
  \<^verbatim>\<open>GetStats\<close> holds \<^verbatim>\<open>mu\<close> for reading only, which keeps no other call out, so it is modelled in its
  steps on the shared server: \<open>socks_poll_step\<close> takes the next one of a call, given what the clock and
  the runtime say at that moment, and yields the result at the last.  The three figures of the
  runtime are written in one step and the result is read in one; \<open>lastCalcTime\<close> is read and written
  whole.
\<close>

fun socks_poll_step ::
  "int \<Rightarrow> mem_stats \<Rightarrow> poll_pc \<Rightarrow> socks_server \<Rightarrow> poll_pc \<times> socks_server \<times> socks_stats option" where
  "socks_poll_step now m GsIdle s =
     (let elapsed = now - s_last_calc s
      in (if 500000000 \<le> elapsed then GsLoadIn now elapsed else GsMem, s, None))"
| "socks_poll_step now m (GsLoadIn t elapsed) s =
     (GsLoadOut t elapsed (s_bytes_in (s_stats s)), s, None)"
| "socks_poll_step now m (GsLoadOut t elapsed i) s =
     (GsRateIn t elapsed i (s_bytes_out (s_stats s)), s, None)"
| "socks_poll_step now m (GsRateIn t elapsed i ot) s =
     (GsRateOut t elapsed i ot,
      s\<lparr>s_stats := (s_stats s)\<lparr>s_throughput_in := mbps (i - s_bytes_in_prev (s_stats s)) elapsed\<rparr>\<rparr>, None)"
| "socks_poll_step now m (GsRateOut t elapsed i ot) s =
     (GsPrevIn t i ot,
      s\<lparr>s_stats := (s_stats s)\<lparr>s_throughput_out := mbps (ot - s_bytes_out_prev (s_stats s)) elapsed\<rparr>\<rparr>, None)"
| "socks_poll_step now m (GsPrevIn t i ot) s =
     (GsPrevOut t ot, s\<lparr>s_stats := (s_stats s)\<lparr>s_bytes_in_prev := i\<rparr>\<rparr>, None)"
| "socks_poll_step now m (GsPrevOut t ot) s =
     (GsLast t, s\<lparr>s_stats := (s_stats s)\<lparr>s_bytes_out_prev := ot\<rparr>\<rparr>, None)"
| "socks_poll_step now m (GsLast t) s = (GsMem, s\<lparr>s_last_calc := t\<rparr>, None)"
| "socks_poll_step now m GsMem s =
     (GsReturn, s\<lparr>s_stats := (s_stats s)\<lparr>s_mem_alloc := mem_mb (m_alloc m),
        s_mem_sys := mem_mb (m_sys m), s_num_goroutine := m_goroutines m\<rparr>\<rparr>, None)"
| "socks_poll_step now m GsReturn s =
     (GsIdle, s, Some ((s_stats s)\<lparr>s_bytes_in_prev := 0, s_bytes_out_prev := 0\<rparr>))"

text \<open>
  A call that no other call overlaps, with the clock and the runtime read once
  (\<open>socks_GetStats_solo\<close> shows it is the steps above, one after the other).
\<close>

definition socks_GetStats :: "int \<Rightarrow> mem_stats \<Rightarrow> socks_server \<Rightarrow> socks_stats \<times> socks_server" where
  "socks_GetStats now m s =
     (let elapsed = now - s_last_calc s;
          st = s_stats s;
          s = (if 500000000 \<le> elapsed then
                 s\<lparr>s_stats := st\<lparr>
                     s_throughput_in := mbps (s_bytes_in st - s_bytes_in_prev st) elapsed,
                     s_throughput_out := mbps (s_bytes_out st - s_bytes_out_prev st) elapsed,
                     s_bytes_in_prev := s_bytes_in st,
                     s_bytes_out_prev := s_bytes_out st\<rparr>,
                   s_last_calc := now\<rparr>
               else s);
          s = s\<lparr>s_stats := (s_stats s)\<lparr>s_mem_alloc := mem_mb (m_alloc m),
                  s_mem_sys := mem_mb (m_sys m), s_num_goroutine := m_goroutines m\<rparr>\<rparr>
      in ((s_stats s)\<lparr>s_bytes_in_prev := 0, s_bytes_out_prev := 0\<rparr>, s))"

lemma socks_GetStats_solo: "solo (socks_poll_step now m) 10 GsIdle s = Some (socks_GetStats now m s)"
  by (simp add: eval_nat_numeral socks_GetStats_def Let_def)

text \<open>No step of a call writes a counter, the semaphore or the log.\<close>

lemma socks_poll_frame:
  "s_bytes_in (s_stats (fst (snd (socks_poll_step now m pc s)))) = s_bytes_in (s_stats s)"
  "s_bytes_out (s_stats (fst (snd (socks_poll_step now m pc s)))) = s_bytes_out (s_stats s)"
  "s_conns_active (s_stats (fst (snd (socks_poll_step now m pc s)))) = s_conns_active (s_stats s)"
  "s_conns_total (s_stats (fst (snd (socks_poll_step now m pc s)))) = s_conns_total (s_stats s)"
  "s_conns_failed (s_stats (fst (snd (socks_poll_step now m pc s)))) = s_conns_failed (s_stats s)"
  "s_conns_rejected (s_stats (fst (snd (socks_poll_step now m pc s)))) = s_conns_rejected (s_stats s)"
  "s_sem (fst (snd (socks_poll_step now m pc s))) = s_sem s"
  "s_slots (fst (snd (socks_poll_step now m pc s))) = s_slots s"
  "s_conn_log (fst (snd (socks_poll_step now m pc s))) = s_conn_log s"
  by (cases pc; simp add: Let_def)+

section \<open>The connection log\<close>

definition GetConnLogs :: "socks_server \<Rightarrow> conn_log list" where
  "GetConnLogs s = s_conn_log s"

definition addConnLog :: "conn_log \<Rightarrow> socks_server \<Rightarrow> socks_server" where
  "addConnLog e s =
     (let lg = s_conn_log s @ [e]
      in s\<lparr>s_conn_log := (if s_max_log s < length lg then drop (length lg - s_max_log s) lg else lg)\<rparr>)"

section \<open>Admission, release and the handlers' effects\<close>

definition socks_admit :: "socks_server \<Rightarrow> bool \<times> socks_server" where
  "socks_admit s =
     (let st = s_stats s in
      if s_sem s < s_slots s then
        (True, s\<lparr>s_sem := s_sem s + 1,
           s_stats := st\<lparr>s_conns_active := s_conns_active st + 1,
                         s_conns_total := s_conns_total st + 1\<rparr>\<rparr>)
      else (False, s\<lparr>s_stats := st\<lparr>s_conns_rejected := s_conns_rejected st + 1\<rparr>\<rparr>))"

definition socks_release :: "socks_server \<Rightarrow> socks_server" where
  "socks_release s =
     s\<lparr>s_sem := s_sem s - 1,
       s_stats := (s_stats s)\<lparr>s_conns_active := s_conns_active (s_stats s) - 1\<rparr>\<rparr>"

datatype socks_effect =
    SFailed             \<comment> \<open>\<open>ConnsFailed\<close> + 1\<close>
  | SBytesIn nat
  | SBytesOut nat
  | SLog conn_log

fun socks_act :: "socks_effect \<Rightarrow> socks_server \<Rightarrow> socks_server" where
  "socks_act SFailed s =
     s\<lparr>s_stats := (s_stats s)\<lparr>s_conns_failed := s_conns_failed (s_stats s) + 1\<rparr>\<rparr>"
| "socks_act (SBytesIn n) s =
     s\<lparr>s_stats := (s_stats s)\<lparr>s_bytes_in := s_bytes_in (s_stats s) + of_nat n\<rparr>\<rparr>"
| "socks_act (SBytesOut n) s =
     s\<lparr>s_stats := (s_stats s)\<lparr>s_bytes_out := s_bytes_out (s_stats s) + of_nat n\<rparr>\<rparr>"
| "socks_act (SLog e) s = addConnLog e s"

section \<open>The handler\<close>

text \<open>
  What a handler finds around it: the network, the clock, the client's remote address, and the
  buffer pool with what \<open>sync.Pool\<close> picks for the two goroutines of the relay.
\<close>

record socks_env =
  e_net :: network
  e_now :: int
  e_remote :: string
  e_pool :: buffer_pool
  e_picks :: "pick \<times> pick"

type_synonym socks_h = "socks_effect hstate"

text \<open>Lines 209 to 227: version and methods into the 257-byte buffer, the reply without authentication.\<close>

definition socks_greet :: "socks_h \<Rightarrow> socks_h + socks_h" where
  "socks_greet h =
     (case recv 257 2 h of
        RPanic \<Rightarrow> Inl (panic h)
      | RErr \<Rightarrow> Inl (emit SFailed h)
      | RGot b h \<Rightarrow>
          (let n = unat (b ! 1) in
           case (if 0 < n then recv 257 n h else RGot [] h) of
             RPanic \<Rightarrow> Inl (panic h)
           | RErr \<Rightarrow> Inl (emit SFailed h)
           | RGot _ h \<Rightarrow>
               (case send no_auth h of
                  (True, h) \<Rightarrow> Inr h
                | (False, h) \<Rightarrow> Inl h)))"

text \<open>Lines 229 to 242: the request header; only CONNECT is served.\<close>

definition socks_command :: "socks_h \<Rightarrow> socks_h + (byte \<times> socks_h)" where
  "socks_command h =
     (case recv 257 4 h of
        RPanic \<Rightarrow> Inl (panic h)
      | RErr \<Rightarrow> Inl (emit SFailed h)
      | RGot b h \<Rightarrow>
          if b ! 1 \<noteq> 1 then Inl (emit SFailed (snd (send (reply_code 7) h)))
          else Inr (b ! 3, h))"

text \<open>Lines 247 to 273: the host.  Errors from here to the port return without being counted.\<close>

definition socks_host :: "byte \<Rightarrow> 'e hstate \<Rightarrow> 'e hstate + (string \<times> 'e hstate)" where
  "socks_host atyp h =
     (if atyp = 1 then
        (case recv 257 4 h of
           RPanic \<Rightarrow> Inl (panic h)
         | RErr \<Rightarrow> Inl h
         | RGot b h \<Rightarrow> Inr (ip_string b, h))
      else if atyp = 3 then
        (case recv 257 1 h of
           RPanic \<Rightarrow> Inl (panic h)
         | RErr \<Rightarrow> Inl h
         | RGot b h \<Rightarrow>
             (case recv 257 (unat (b ! 0)) h of
                RPanic \<Rightarrow> Inl (panic h)
              | RErr \<Rightarrow> Inl h
              | RGot d h \<Rightarrow> Inr (str_of d, h)))
      else if atyp = 4 then
        (case recv 257 16 h of
           RPanic \<Rightarrow> Inl (panic h)
         | RErr \<Rightarrow> Inl h
         | RGot b h \<Rightarrow> Inr (ip_string b, h))
      else Inl h)"

text \<open>Lines 275 to 279.\<close>

definition socks_port :: "string \<times> 'e hstate \<Rightarrow> 'e hstate + (string \<times> nat \<times> 'e hstate)" where
  "socks_port hh =
     (case recv 257 2 (snd hh) of
        RPanic \<Rightarrow> Inl (panic (snd hh))
      | RErr \<Rightarrow> Inl (snd hh)
      | RGot b h \<Rightarrow> Inr (fst hh, be16 (b ! 0) (b ! 1), h))"

text \<open>
  Lines 305 to 312: the ten-byte reply.  \<^verbatim>\<open>copy(resp[4:8], IP.To4())\<close> leaves zeros when the local
  address has no IPv4 form.
\<close>

definition socks_reply :: "target \<Rightarrow> byte list" where
  "socks_reply t =
     [5, 0, 0, 1] @ (case to4 (t_local_ip t) of Some p \<Rightarrow> p | None \<Rightarrow> [0, 0, 0, 0]) @
     put_be16 (t_local_port t mod 65536)"

text \<open>
  Lines 281 to 329: dial, reply, relay, account.  A \<^const>\<open>None\<close> of the relay is a panic in one of its
  goroutines, which only an empty buffer causes; \<open>relay_faithful\<close> shows that a pool in order has none.
\<close>

definition socks_connect :: "socks_env \<Rightarrow> string \<times> nat \<times> socks_h \<Rightarrow> socks_h" where
  "socks_connect env req =
     (let (host, port, h) = req;
          addr = host_colon_port host port;
          h = h\<lparr>dialled := dialled h @ [addr]\<rparr>
      in case dial (e_net env) addr of
           None \<Rightarrow>
             emit (SLog \<lparr>l_timestamp = e_now env, l_addr = e_remote env, l_target = addr,
                         l_status = ''failed'', l_bytes = 0\<rparr>)
               (emit SFailed (snd (send (reply_code 4) h)))
         | Some t \<Rightarrow>
             (case send (socks_reply t) h of
                (False, h) \<Rightarrow> h\<lparr>upstream := Some (conn_close (t_conn t))\<rparr>
              | (True, h) \<Rightarrow>
                  let h = h\<lparr>client := set_deadline None (client h)\<rparr> in
                  (case relay (e_picks env) (e_pool env) (client h) (t_conn t) of
                     None \<Rightarrow> panic h
                   | Some r \<Rightarrow>
                       emit (SLog \<lparr>l_timestamp = e_now env, l_addr = e_remote env, l_target = addr,
                                   l_status = ''connected'', l_bytes = of_nat (r_n1 r) + of_nat (r_n2 r)\<rparr>)
                         (emit (SBytesOut (r_n2 r)) (emit (SBytesIn (r_n1 r))
                           (h\<lparr>client := r_conn1 r, upstream := Some (conn_close (r_conn2 r))\<rparr>))))))"

text \<open>
  The deferred calls: the slot is released (\<^const>\<open>socks_release\<close>, an event of its own in a run),
  the connection closed, and a panic counted as a failure.
\<close>

definition socks_deferred :: "socks_h \<Rightarrow> socks_h" where
  "socks_deferred h =
     (let h = h\<lparr>client := conn_close (client h)\<rparr> in if panicked h then emit SFailed h else h)"

definition socks_handle :: "socks_env \<Rightarrow> conn \<Rightarrow> socks_h" where
  "socks_handle env c =
     socks_deferred (returned
       (and_then (socks_greet (start_handler (set_deadline (Some 60) c))) (\<lambda>h.
        and_then (socks_command h) (\<lambda>(atyp, h).
        and_then (socks_host atyp h) (\<lambda>hh.
        and_then (socks_port hh) (\<lambda>req. Inr (socks_connect env req)))))))"

section \<open>The handler against a parser of the whole input\<close>

definition verdict_request :: "byte list \<Rightarrow> socks_verdict" where
  "verdict_request s =
     (if length s < 4 then VNoRequest
      else if s ! 1 \<noteq> 1 then VCommand
      else verdict_dst (parse_dst (s ! 3) (drop 4 s)))"

definition socks_spec :: "byte list \<Rightarrow> socks_verdict" where
  "socks_spec s =
     (if length s < 2 \<or> length s < 2 + unat (s ! 1) then VNoGreeting
      else verdict_request (drop (2 + unat (s ! 1)) s))"

lemma socks_greet_short:
  assumes "hs_at out s h" and "length s < 2 \<or> length s < 2 + unat (s ! 1)"
  shows "\<exists>h' s'. socks_greet h = Inl (emit SFailed h') \<and> hs_at out s' h'"
proof (cases "length s < 2")
  case True
  with recv_at_short [OF assms(1), of 2 257] assms(1) show ?thesis by (auto simp: socks_greet_def)
next
  case False
  then have "2 \<le> length s" by simp
  from recv_at [OF assms(1) _ this, of 257] obtain h1
    where r: "recv 257 2 h = RGot (take 2 s) h1" and h1: "hs_at out (drop 2 s) h1" by auto
  have n: "unat (s ! 1) \<le> 257" using unat_byte_le [of "s ! 1"] by linarith
  have "length (drop 2 s) < unat (s ! 1)" using assms(2) False by simp
  with recv_at_short [OF h1 n] have "recv 257 (unat (s ! 1)) h1 = RErr" by simp
  with r h1 \<open>length (drop 2 s) < unat (s ! 1)\<close> show ?thesis by (auto simp: socks_greet_def)
qed

lemma socks_greet_full:
  assumes "hs_at out s h" and "2 + unat (s ! 1) \<le> length s"
  shows "\<exists>h'. socks_greet h = Inr h' \<and> hs_at (out @ no_auth) (drop (2 + unat (s ! 1)) s) h'"
proof -
  define n where "n = unat (s ! 1)"
  have "2 \<le> length s" using assms(2) by simp
  from recv_at [OF assms(1) _ this, of 257] obtain h1
    where r: "recv 257 2 h = RGot (take 2 s) h1" and h1: "hs_at out (drop 2 s) h1" by auto
  have nth: "unat (take 2 s ! 1) = n" by (simp add: n_def)
  have n: "n \<le> 257" using unat_byte_le [of "s ! 1"] unfolding n_def by linarith
  have len: "n \<le> length (drop 2 s)" using assms(2) by (simp add: n_def)
  obtain b h2 where r2: "(if 0 < n then recv 257 n h1 else RGot [] h1) = RGot b h2"
    and h2: "hs_at out (drop n (drop 2 s)) h2"
  proof (cases "0 < n")
    case True
    from recv_at [OF h1 n len] that True show thesis by auto
  next
    case False
    with that [of "[]" h1] h1 show thesis by (simp add: numeral_2_eq_2)
  qed
  obtain h3 where sd: "send no_auth h2 = (True, h3)"
    and h3: "hs_at (out @ no_auth) (drop n (drop 2 s)) h3" using send_at [OF h2] by blast
  have "socks_greet h = Inr h3"
    unfolding socks_greet_def r rd.case Let_def nth r2 sd by simp
  with h3 show ?thesis by (simp add: n_def add.commute)
qed

lemma socks_command_at:
  assumes "hs_at out s h"
  shows "length s < 4 \<Longrightarrow> socks_command h = Inl (emit SFailed h)"
    and "4 \<le> length s \<Longrightarrow> s ! 1 \<noteq> 1 \<Longrightarrow>
      \<exists>h' s'. socks_command h = Inl (emit SFailed h') \<and> hs_at (out @ reply_code 7) s' h'"
    and "4 \<le> length s \<Longrightarrow> s ! 1 = 1 \<Longrightarrow>
      \<exists>h'. socks_command h = Inr (s ! 3, h') \<and> hs_at out (drop 4 s) h'"
proof -
  show "socks_command h = Inl (emit SFailed h)" if "length s < 4"
    using recv_at_short [OF assms, of 4 257] that by (simp add: socks_command_def)
  assume "4 \<le> length s"
  from recv_at [OF assms _ this, of 257] obtain h1
    where r: "recv 257 4 h = RGot (take 4 s) h1" and h1: "hs_at out (drop 4 s) h1" by auto
  show "\<exists>h' s'. socks_command h = Inl (emit SFailed h') \<and> hs_at (out @ reply_code 7) s' h'"
    if "s ! 1 \<noteq> 1"
  proof -
    obtain h2 where "send (reply_code 7) h1 = (True, h2)" and "hs_at (out @ reply_code 7) (drop 4 s) h2"
      using send_at [OF h1] by blast
    with r that show ?thesis by (auto simp: socks_command_def)
  qed
  show "\<exists>h'. socks_command h = Inr (s ! 3, h') \<and> hs_at out (drop 4 s) h'" if "s ! 1 = 1"
    using r h1 that by (simp add: socks_command_def)
qed

text \<open>The host and the port together compute \<^const>\<open>parse_dst\<close>.\<close>

definition socks_dst :: "byte \<Rightarrow> 'e hstate \<Rightarrow> 'e hstate + (string \<times> nat \<times> 'e hstate)" where
  "socks_dst atyp h = and_then (socks_host atyp h) socks_port"

lemma socks_port_at:
  assumes "hs_at out s h"
  shows "yields out (socks_port (host, h)) (parse_port host s)"
proof (cases "length s < 2")
  case True
  with recv_at_short [OF assms, of 2 257] assms show ?thesis
    by (simp add: parse_port_def socks_port_def yields_return)
next
  case False
  then have "2 \<le> length s" by simp
  from recv_at [OF assms _ this, of 257] obtain h1
    where "recv 257 2 h = RGot (take 2 s) h1" and "hs_at out (drop 2 s) h1" by auto
  with False show ?thesis by (simp add: parse_port_def socks_port_def yields_def)
qed

lemma socks_dst_fixed:
  assumes "hs_at out s h" and n: "n \<le> 257"
    and host: "socks_host atyp h = (case recv 257 n h of
        RPanic \<Rightarrow> Inl (panic h) | RErr \<Rightarrow> Inl h | RGot b h \<Rightarrow> Inr (ip_string b, h))"
  shows "yields out (socks_dst atyp h)
    (if length s < n then DShort else parse_port (ip_string (take n s)) (drop n s))"
proof (cases "length s < n")
  case True
  with recv_at_short [OF assms(1) n] assms show ?thesis by (simp add: socks_dst_def yields_return)
next
  case False
  then have "n \<le> length s" by simp
  from recv_at [OF assms(1) n this] obtain h1
    where "recv 257 n h = RGot (take n s) h1" and h1: "hs_at out (drop n s) h1" by auto
  with socks_port_at [OF h1] host False show ?thesis by (simp add: socks_dst_def)
qed

lemma socks_dst_domain:
  assumes "hs_at out s h"
  shows "yields out (socks_dst 3 h) (parse_dst 3 s)"
proof (cases "length s < 1")
  case True
  with recv_at_short [OF assms, of 1 257] assms show ?thesis
    by (simp add: parse_dst_def socks_dst_def socks_host_def yields_return)
next
  case False
  then have "1 \<le> length s" by (cases s) auto
  from recv_at [OF assms _ this, of 257] obtain h1
    where r: "recv 257 1 h = RGot (take 1 s) h1" and h1: "hs_at out (drop 1 s) h1" by auto
  have b0: "take 1 s ! 0 = s ! 0" by (cases s) auto
  have n: "unat (s ! 0) \<le> 257" using unat_byte_le [of "s ! 0"] by linarith
  show ?thesis
  proof (cases "length s < 1 + unat (s ! 0)")
    case True
    have "length (drop 1 s) < unat (s ! 0)" using True False by (cases s) auto
    with recv_at_short [OF h1 n] have "recv 257 (unat (s ! 0)) h1 = RErr" by simp
    with r True False h1 b0 show ?thesis
      by (simp add: parse_dst_def socks_dst_def socks_host_def yields_return)
  next
    case far: False
    then have "unat (s ! 0) \<le> length (drop 1 s)" by simp
    from recv_at [OF h1 n this] obtain h2
      where r2: "recv 257 (unat (s ! 0)) h1 = RGot (take (unat (s ! 0)) (drop 1 s)) h2"
        and h2: "hs_at out (drop (1 + unat (s ! 0)) s) h2" by (auto simp: add.commute)
    with r False far b0 socks_port_at [OF h2] show ?thesis
      by (simp add: parse_dst_def socks_dst_def socks_host_def)
  qed
qed

lemma socks_dst_at:
  assumes "hs_at out s h"
  shows "yields out (socks_dst atyp h) (parse_dst atyp s)"
proof -
  consider "atyp = 1" | "atyp = 3" | "atyp = 4" | "atyp \<noteq> 1 \<and> atyp \<noteq> 3 \<and> atyp \<noteq> 4" by blast
  then show ?thesis
  proof cases
    case 1
    with socks_dst_fixed [OF assms, of 4 atyp] show ?thesis by (simp add: parse_dst_def socks_host_def)
  next
    case 2
    with socks_dst_domain [OF assms] show ?thesis by simp
  next
    case 3
    with socks_dst_fixed [OF assms, of 16 atyp] show ?thesis by (simp add: parse_dst_def socks_host_def)
  next
    case 4
    with assms show ?thesis by (simp add: parse_dst_def socks_dst_def socks_host_def yields_return)
  qed
qed

lemma socks_handle_phases:
  "socks_handle env c =
     socks_deferred (returned
       (and_then (socks_greet (start_handler (set_deadline (Some 60) c))) (\<lambda>h.
        and_then (socks_command h) (\<lambda>(atyp, h).
        and_then (socks_dst atyp h) (\<lambda>req. Inr (socks_connect env req))))))"
  by (simp add: socks_handle_def socks_dst_def and_then_assoc)

text \<open>What the last phase does on a client that takes every write.\<close>

definition log_entry :: "socks_env \<Rightarrow> string \<Rightarrow> string \<Rightarrow> i64 \<Rightarrow> conn_log" where
  "log_entry env addr status n = \<lparr>l_timestamp = e_now env, l_addr = e_remote env, l_target = addr,
     l_status = status, l_bytes = n\<rparr>"

definition connect_outcome ::
  "socks_env \<Rightarrow> byte list \<Rightarrow> string \<Rightarrow> byte list \<Rightarrow> socks_h \<Rightarrow> bool" where
  "connect_outcome env out addr rest h \<longleftrightarrow>
     dialled h = [addr] \<and> \<not> panicked h \<and>
     (case dial (e_net env) addr of
        None \<Rightarrow> outq (client h) = out @ reply_code 4 \<and> upstream h = None \<and>
          effects h = [SFailed, SLog (log_entry env addr ''failed'' 0)]
      | Some t \<Rightarrow> (\<exists>n1\<le>length rest. \<exists>u. (writable (t_conn t) \<longrightarrow> n1 = length rest) \<and>
          outq (client h) = out @ socks_reply t @ stream (t_conn t) \<and>
          upstream h = Some u \<and> outq u = outq (t_conn t) @ take n1 rest \<and> closed u \<and>
          effects h = [SBytesIn n1, SBytesOut (length (stream (t_conn t))),
            SLog (log_entry env addr ''connected'' (of_nat n1 + of_nat (length (stream (t_conn t)))))]))"

lemma socks_connect_at:
  assumes "hs_at out rest h" and "pool_wf (e_pool env)"
  shows "connect_outcome env out (host_colon_port host port) rest (socks_connect env (host, port, h))"
proof (cases "dial (e_net env) (host_colon_port host port)")
  case None
  with assms(1) show ?thesis
    by (simp add: socks_connect_def Let_def connect_outcome_def hs_at_def log_entry_def)
next
  case (Some t)
  let ?h = "h\<lparr>dialled := dialled h @ [host_colon_port host port]\<rparr>"
  let ?c = "set_deadline None ((client h)\<lparr>outq := out @ socks_reply t\<rparr>)"
  have w: "writable (client h)" "outq (client h) = out" "stream (client h) = rest"
    using assms(1) by (simp_all add: hs_at_def)
  obtain r where r: "relay (e_picks env) (e_pool env) ?c (t_conn t) = Some r"
    using relay_total [OF assms(2)] by blast
  have st: "stream ?c = rest" "writable ?c" using w by simp_all
  note d = relay_prefix(1-4) [OF r] relay_exact(1) [OF r] relay_exact(2) [OF r st(2)]
  have eq: "socks_connect env (host, port, h) =
      emit (SLog (log_entry env (host_colon_port host port) ''connected'' (of_nat (r_n1 r) + of_nat (r_n2 r))))
        (emit (SBytesOut (r_n2 r)) (emit (SBytesIn (r_n1 r))
          (?h\<lparr>client := r_conn1 r, upstream := Some (conn_close (r_conn2 r))\<rparr>)))"
    using Some w r by (simp add: socks_connect_def Let_def log_entry_def)
  have "closed (conn_close (r_conn2 r))" "outq (conn_close (r_conn2 r)) = outq (r_conn2 r)"
    by (simp_all add: conn_close_def)
  with d st w assms(1) Some show ?thesis
    unfolding eq connect_outcome_def
    by (auto simp: hs_at_def intro!: exI [of _ "r_n1 r"])
qed

text \<open>
  On a client that takes every write the handler does what \<^const>\<open>socks_spec\<close> says of its whole
  input, in whatever segments the input arrives.
\<close>

definition socks_outcome :: "socks_env \<Rightarrow> byte list \<Rightarrow> socks_verdict \<Rightarrow> socks_h \<Rightarrow> bool" where
  "socks_outcome env out v h =
     (case v of
        VNoGreeting \<Rightarrow> outq (client h) = out \<and> dialled h = [] \<and> effects h = [SFailed] \<and> \<not> panicked h
      | VNoRequest \<Rightarrow> outq (client h) = out @ no_auth \<and> dialled h = [] \<and> effects h = [SFailed] \<and> \<not> panicked h
      | VCommand \<Rightarrow> outq (client h) = out @ no_auth @ reply_code 7 \<and> dialled h = [] \<and>
          effects h = [SFailed] \<and> \<not> panicked h
      | VNoAddress \<Rightarrow> outq (client h) = out @ no_auth \<and> dialled h = [] \<and> effects h = [] \<and> \<not> panicked h
      | VDial host port rest \<Rightarrow>
          connect_outcome env (out @ no_auth) (host_colon_port host port) rest h)"

lemma socks_deferred_quiet:
  "\<not> panicked h \<Longrightarrow> socks_deferred h = h\<lparr>client := conn_close (client h)\<rparr>"
  by (simp add: socks_deferred_def Let_def)

lemma connect_outcome_deferred:
  "connect_outcome env out addr rest h \<Longrightarrow> connect_outcome env out addr rest (socks_deferred h)"
  by (auto simp: connect_outcome_def socks_deferred_quiet split: option.splits)

lemma socks_handle_refines:
  assumes w: "writable c" and p: "pool_wf (e_pool env)"
  shows "socks_outcome env (outq c) (socks_spec (stream c)) (socks_handle env c)"
proof -
  let ?s = "stream c" and ?o = "outq c" and ?h = "start_handler (set_deadline (Some 60) c) :: socks_h"
  have h0: "hs_at ?o ?s ?h" using w by (rule hs_at_start)
  show ?thesis
  proof (cases "length ?s < 2 \<or> length ?s < 2 + unat (?s ! 1)")
    case True
    then obtain h s' where "socks_greet ?h = Inl (emit SFailed h)" and "hs_at ?o s' h"
      using socks_greet_short [OF h0] by blast
    then show ?thesis
      using True by (simp add: socks_handle_phases socks_spec_def socks_outcome_def
          socks_deferred_quiet hs_at_def)
  next
    case False
    let ?s1 = "drop (2 + unat (?s ! 1)) ?s" and ?o1 = "?o @ no_auth"
    obtain h1 where g: "socks_greet ?h = Inr h1" and h1: "hs_at ?o1 ?s1 h1"
      using socks_greet_full [OF h0] False by auto
    have spec: "socks_spec ?s = verdict_request ?s1" using False by (simp add: socks_spec_def)
    note cmd = socks_command_at [OF h1]
    consider "length ?s1 < 4" | "4 \<le> length ?s1" "?s1 ! 1 \<noteq> 1" | "4 \<le> length ?s1" "?s1 ! 1 = 1"
      by linarith
    then show ?thesis
    proof cases
      case 1
      with cmd(1) g h1 show ?thesis
        unfolding spec by (simp add: socks_handle_phases verdict_request_def socks_outcome_def
            socks_deferred_quiet hs_at_def)
    next
      case 2
      with cmd(2) obtain h2 s2 where "socks_command h1 = Inl (emit SFailed h2)"
        and "hs_at (?o1 @ reply_code 7) s2 h2" by blast
      with 2 g show ?thesis
        unfolding spec by (simp add: socks_handle_phases verdict_request_def socks_outcome_def
            socks_deferred_quiet hs_at_def)
    next
      case 3
      with cmd(3) obtain h2 where c2: "socks_command h1 = Inr (?s1 ! 3, h2)"
        and h2: "hs_at ?o1 (drop 4 ?s1) h2" by blast
      have v: "verdict_request ?s1 = verdict_dst (parse_dst (?s1 ! 3) (drop 4 ?s1))"
        using 3 by (simp add: verdict_request_def)
      have y: "yields ?o1 (socks_dst (?s1 ! 3) h2) (parse_dst (?s1 ! 3) (drop 4 ?s1))"
        by (rule socks_dst_at [OF h2])
      show ?thesis
      proof (cases "parse_dst (?s1 ! 3) (drop 4 ?s1)")
        case (DGot host port rest)
        with y obtain h3 where "socks_dst (?s1 ! 3) h2 = Inr (host, port, h3)" and "hs_at ?o1 rest h3"
          by (auto simp: yields_def)
        with g c2 DGot connect_outcome_deferred [OF socks_connect_at [OF _ p]] show ?thesis
          unfolding spec v by (simp add: socks_handle_phases verdict_dst_def socks_outcome_def)
      next
        case DShort
        with y obtain h3 s3 where "socks_dst (?s1 ! 3) h2 = Inl h3" and "hs_at ?o1 s3 h3"
          by (auto simp: yields_def)
        with g c2 DShort show ?thesis
          unfolding spec v by (simp add: socks_handle_phases verdict_dst_def socks_outcome_def
              socks_deferred_quiet hs_at_def)
      next
        case DType
        with y obtain h3 s3 where "socks_dst (?s1 ! 3) h2 = Inl h3" and "hs_at ?o1 s3 h3"
          by (auto simp: yields_def)
        with g c2 DType show ?thesis
          unfolding spec v by (simp add: socks_handle_phases verdict_dst_def socks_outcome_def
              socks_deferred_quiet hs_at_def)
      qed
    qed
  qed
qed

section \<open>Any client: no panic, one dial, one of a few lists of effects\<close>

lemma socks_greet_did:
  "case socks_greet h of Inl h' \<Rightarrow> did [] h h' \<or> did [SFailed] h h' | Inr h' \<Rightarrow> did [] h h'"
  by (auto simp: socks_greet_def Let_def did_def recv_no_panic recv_byte_no_panic split: phase_splits
      dest!: recv_keeps send_keeps)

lemma socks_command_did:
  "case socks_command h of Inl h' \<Rightarrow> did [SFailed] h h' | Inr (a, h') \<Rightarrow> did [] h h'"
  by (auto simp: socks_command_def did_def recv_no_panic split: phase_splits dest!: recv_keeps)

lemma socks_host_did:
  "case socks_host atyp h of Inl h' \<Rightarrow> did [] h h' | Inr (x, h') \<Rightarrow> did [] h h'"
  by (auto simp: socks_host_def did_def recv_no_panic recv_byte_no_panic split: phase_splits
      dest!: recv_keeps)

lemma socks_port_did:
  "case socks_port (x, h) of Inl h' \<Rightarrow> did [] h h' | Inr (y, p, h') \<Rightarrow> did [] h h'"
  by (auto simp: socks_port_def did_def recv_no_panic split: phase_splits dest!: recv_keeps)

definition connect_effects :: "socks_env \<Rightarrow> string \<Rightarrow> socks_effect list \<Rightarrow> bool" where
  "connect_effects env addr es \<longleftrightarrow>
     (if dial (e_net env) addr = None
      then es = [SFailed, SLog (log_entry env addr ''failed'' 0)]
      else es = [] \<or> (\<exists>n1 n2. es = [SBytesIn n1, SBytesOut n2,
             SLog (log_entry env addr ''connected'' (of_nat n1 + of_nat n2))]))"

lemma socks_connect_did:
  assumes "pool_wf (e_pool env)" and "did [] h0 h"
  shows "\<exists>es. effects (socks_connect env (host, port, h)) = effects h0 @ es \<and>
    connect_effects env (host_colon_port host port) es \<and>
    dialled (socks_connect env (host, port, h)) = dialled h0 @ [host_colon_port host port] \<and>
    panicked (socks_connect env (host, port, h)) = panicked h0"
proof (cases "dial (e_net env) (host_colon_port host port)")
  case None
  with assms(2) show ?thesis
    by (simp add: socks_connect_def Let_def connect_effects_def log_entry_def did_def)
next
  case (Some t)
  let ?h = "h\<lparr>dialled := dialled h @ [host_colon_port host port]\<rparr>"
  obtain ok h1 where sd: "send (socks_reply t) ?h = (ok, h1)" by fastforce
  note k = send_keeps [OF sd]
  show ?thesis
  proof (cases ok)
    case False
    with sd Some k assms(2) show ?thesis
      by (simp add: socks_connect_def Let_def connect_effects_def did_def)
  next
    case True
    obtain r where "relay (e_picks env) (e_pool env) (set_deadline None (client h1)) (t_conn t) = Some r"
      using relay_total [OF assms(1)] by blast
    with True sd Some k assms(2) show ?thesis
      by (simp add: socks_connect_def Let_def connect_effects_def did_def log_entry_def)
  qed
qed

text \<open>
  For any client and any network: the handler does not panic, closes the connection, and either
  dials nothing and counts at most one failure, or dials one address and then counts the failure
  and logs it, or counts the bytes and logs the connection, or (the reply could not be sent) does
  neither.
\<close>

definition socks_shape :: "socks_env \<Rightarrow> socks_h \<Rightarrow> bool" where
  "socks_shape env h \<longleftrightarrow> \<not> panicked h \<and> closed (client h) \<and>
     (dialled h = [] \<and> (effects h = [] \<or> effects h = [SFailed]) \<or>
      (\<exists>addr. dialled h = [addr] \<and> connect_effects env addr (effects h)))"

lemma socks_shape_deferred:
  assumes "\<not> panicked h" and "dialled h = [] \<and> (effects h = [] \<or> effects h = [SFailed]) \<or>
      (\<exists>addr. dialled h = [addr] \<and> connect_effects env addr (effects h))"
  shows "socks_shape env (socks_deferred h)"
  using assms by (simp add: socks_shape_def socks_deferred_quiet)

lemma socks_handle_shape:
  assumes "pool_wf (e_pool env)"
  shows "socks_shape env (socks_handle env c)"
  unfolding socks_handle_def
proof (rule socks_shape_deferred; goal_cases)
  let ?h = "start_handler (set_deadline (Some 60) c) :: socks_h"
  let ?m = "and_then (socks_greet ?h) (\<lambda>h. and_then (socks_command h) (\<lambda>(atyp, h).
        and_then (socks_host atyp h) (\<lambda>hh. and_then (socks_port hh) (\<lambda>req. Inr (socks_connect env req)))))"
  have start: "effects ?h = []" "dialled ?h = []" "\<not> panicked ?h" by (simp_all add: start_handler_def)
  have "\<not> panicked (returned ?m) \<and>
    (dialled (returned ?m) = [] \<and> (effects (returned ?m) = [] \<or> effects (returned ?m) = [SFailed]) \<or>
      (\<exists>addr. dialled (returned ?m) = [addr] \<and> connect_effects env addr (effects (returned ?m))))"
  proof (cases "socks_greet ?h")
    case (Inl h1)
    with socks_greet_did [of ?h] start show ?thesis by (auto simp: did_def)
  next
    case g: (Inr h1)
    with socks_greet_did [of ?h] have d1: "did [] ?h h1" by simp
    show ?thesis
    proof (cases "socks_command h1")
      case (Inl h2)
      with socks_command_did [of h1] g d1 start show ?thesis by (auto simp: did_def)
    next
      case c2: (Inr ah)
      obtain a h2 where ah: "ah = (a, h2)" by fastforce
      with c2 socks_command_did [of h1] d1 have d2: "did [] ?h h2" by (simp add: did_def)
      show ?thesis
      proof (cases "socks_host a h2")
        case (Inl h3)
        with socks_host_did [of h2 a] g c2 ah d2 start show ?thesis by (auto simp: did_def)
      next
        case c3: (Inr xh)
        obtain x h3 where xh: "xh = (x, h3)" by fastforce
        with c3 socks_host_did [of h2 a] d2 have d3: "did [] ?h h3" by (simp add: did_def)
        show ?thesis
        proof (cases "socks_port (x, h3)")
          case (Inl h4)
          with socks_port_did [of h3 x] g c2 c3 ah xh d3 start show ?thesis by (auto simp: did_def)
        next
          case c4: (Inr yh)
          obtain y p h4 where yh: "yh = (y, p, h4)" by (cases yh) auto
          with c4 socks_port_did [of h3 x] d3 have d4: "did [] ?h h4" by (simp add: did_def)
          from socks_connect_did [OF assms d4, of y p] g c2 c3 c4 ah xh yh start show ?thesis by auto
        qed
      qed
    qed
  qed
  then show "\<not> panicked (returned ?m)"
    "dialled (returned ?m) = [] \<and> (effects (returned ?m) = [] \<or> effects (returned ?m) = [SFailed]) \<or>
      (\<exists>addr. dialled (returned ?m) = [addr] \<and> connect_effects env addr (effects (returned ?m)))"
    by blast+
qed

section \<open>The server as a system\<close>

text \<open>A connection of a run comes with what its handler will find around it.\<close>

definition socks_effects :: "socks_env \<times> conn \<Rightarrow> socks_effect list" where
  "socks_effects ec = effects (socks_handle (fst ec) (snd ec))"

definition socks_run ::
  "(socks_env \<times> conn) event list \<Rightarrow> socks_server \<Rightarrow> (socks_server, socks_effect, socks_env \<times> conn) system" where
  "socks_run evs s = sys_run socks_admit socks_release socks_act socks_effects evs (sys_start s)"

fun amount_failed :: "socks_effect \<Rightarrow> i64" where
  "amount_failed SFailed = 1"
| "amount_failed _ = 0"

fun amount_in :: "socks_effect \<Rightarrow> i64" where
  "amount_in (SBytesIn n) = of_nat n"
| "amount_in _ = 0"

fun amount_out :: "socks_effect \<Rightarrow> i64" where
  "amount_out (SBytesOut n) = of_nat n"
| "amount_out _ = 0"

lemma addConnLog_frame [simp]:
  "s_stats (addConnLog e s) = s_stats s" "s_sem (addConnLog e s) = s_sem s"
  "s_slots (addConnLog e s) = s_slots s" "s_max_log (addConnLog e s) = s_max_log s"
  by (simp_all add: addConnLog_def Let_def)

lemma socks_gate:
  "slot_gate socks_admit socks_release socks_act s_sem s_slots
     (\<lambda>s. s_conns_active (s_stats s)) (\<lambda>s. s_conns_total (s_stats s)) (\<lambda>s. s_conns_rejected (s_stats s))"
proof
  show "s_sem (socks_act e s) = s_sem s" "s_slots (socks_act e s) = s_slots s"
    "s_conns_active (s_stats (socks_act e s)) = s_conns_active (s_stats s)"
    "s_conns_total (s_stats (socks_act e s)) = s_conns_total (s_stats s)"
    "s_conns_rejected (s_stats (socks_act e s)) = s_conns_rejected (s_stats s)" for e s
    by (cases e; simp)+
qed (simp_all add: socks_admit_def socks_release_def Let_def)

lemma socks_counted:
  assumes "\<And>s. counter (snd (socks_admit s)) = counter s"
    and "\<And>s. counter (socks_release s) = counter s"
    and "\<And>e s. counter (socks_act e s) = counter s + amount e"
  shows "counted_gate socks_admit socks_release socks_act s_sem s_slots
     (\<lambda>s. s_conns_active (s_stats s)) (\<lambda>s. s_conns_total (s_stats s)) (\<lambda>s. s_conns_rejected (s_stats s))
     counter amount"
  using socks_gate assms by (simp add: counted_gate_def counted_gate_axioms_def)

interpretation sgate: slot_gate socks_admit socks_release socks_act s_sem s_slots
  "\<lambda>s. s_conns_active (s_stats s)" "\<lambda>s. s_conns_total (s_stats s)" "\<lambda>s. s_conns_rejected (s_stats s)"
  by (rule socks_gate)

lemma socks_act_failed: "s_conns_failed (s_stats (socks_act e s)) = s_conns_failed (s_stats s) + amount_failed e"
  by (cases e) simp_all

lemma socks_act_in: "s_bytes_in (s_stats (socks_act e s)) = s_bytes_in (s_stats s) + amount_in e"
  by (cases e) simp_all

lemma socks_act_out: "s_bytes_out (s_stats (socks_act e s)) = s_bytes_out (s_stats s) + amount_out e"
  by (cases e) simp_all

interpretation sfailed: counted_gate socks_admit socks_release socks_act s_sem s_slots
  "\<lambda>s. s_conns_active (s_stats s)" "\<lambda>s. s_conns_total (s_stats s)" "\<lambda>s. s_conns_rejected (s_stats s)"
  "\<lambda>s. s_conns_failed (s_stats s)" amount_failed
  by (rule socks_counted) (simp_all add: socks_admit_def socks_release_def Let_def socks_act_failed)

interpretation sbytesin: counted_gate socks_admit socks_release socks_act s_sem s_slots
  "\<lambda>s. s_conns_active (s_stats s)" "\<lambda>s. s_conns_total (s_stats s)" "\<lambda>s. s_conns_rejected (s_stats s)"
  "\<lambda>s. s_bytes_in (s_stats s)" amount_in
  by (rule socks_counted) (simp_all add: socks_admit_def socks_release_def Let_def socks_act_in)

interpretation sbytesout: counted_gate socks_admit socks_release socks_act s_sem s_slots
  "\<lambda>s. s_conns_active (s_stats s)" "\<lambda>s. s_conns_total (s_stats s)" "\<lambda>s. s_conns_rejected (s_stats s)"
  "\<lambda>s. s_bytes_out (s_stats s)" amount_out
  by (rule socks_counted) (simp_all add: socks_admit_def socks_release_def Let_def socks_act_out)

interpretation slog: bounded_log addConnLog s_conn_log s_max_log
  by unfold_locales (auto simp: addConnLog_def Let_def last_n_def)

section \<open>Throughput\<close>

definition socks_win :: "socks_server \<Rightarrow> windows" where
  "socks_win s = \<lparr>w_in = s_bytes_in (s_stats s), w_out = s_bytes_out (s_stats s),
     w_prev_in = s_bytes_in_prev (s_stats s), w_prev_out = s_bytes_out_prev (s_stats s),
     w_rate_in = s_throughput_in (s_stats s), w_rate_out = s_throughput_out (s_stats s),
     w_last = s_last_calc s\<rparr>"

lemma socks_win_simps [simp]:
  "w_in (socks_win s) = s_bytes_in (s_stats s)" "w_prev_in (socks_win s) = s_bytes_in_prev (s_stats s)"
  "w_out (socks_win s) = s_bytes_out (s_stats s)" "w_prev_out (socks_win s) = s_bytes_out_prev (s_stats s)"
  "w_rate_in (socks_win s) = s_throughput_in (s_stats s)" "w_last (socks_win s) = s_last_calc s"
  by (simp_all add: socks_win_def)

text \<open>The server under callers of \<^verbatim>\<open>GetStats\<close> and handlers that count bytes, in any order.\<close>

definition socks_poll_act :: "poll_event \<Rightarrow> socks_server polled \<Rightarrow> socks_server polled" where
  "socks_poll_act = poll_act socks_poll_step (\<lambda>n. socks_act (SBytesIn n)) (\<lambda>n. socks_act (SBytesOut n)) socks_win"

definition socks_polled :: "poll_event list \<Rightarrow> nat \<Rightarrow> socks_server \<Rightarrow> socks_server polled" where
  "socks_polled evs n s = fold socks_poll_act evs (polled_by n s)"

lemma socks_step_win:
  "(fst (socks_poll_step now m pc s), socks_win (fst (snd (socks_poll_step now m pc s)))) =
   window_step now pc (socks_win s)"
  by (cases pc) (simp_all add: socks_win_def Let_def)

interpretation swin: window_server socks_poll_step "\<lambda>n. socks_act (SBytesIn n)"
  "\<lambda>n. socks_act (SBytesOut n)" socks_win
  by unfold_locales (rule socks_step_win, simp_all add: socks_win_def)

lemma socks_polled_windows:
  "pl_in (socks_polled evs n s) = pl_in (fold window_act evs (polled_by n (socks_win s)))"
  "pl_out (socks_polled evs n s) = pl_out (fold window_act evs (polled_by n (socks_win s)))"
  "socks_win (pl_srv (socks_polled evs n s)) = pl_srv (fold window_act evs (polled_by n (socks_win s)))"
proof -
  have "swin.windows_of (socks_polled evs n s) = fold window_act evs (polled_by n (socks_win s))"
    using swin.windows_of_run [of evs "polled_by n s"]
    by (simp add: socks_polled_def socks_poll_act_def swin.windows_of_def polled_by_def)
  from arg_cong [OF this, of pl_in] arg_cong [OF this, of pl_out] arg_cong [OF this, of pl_srv]
  show "pl_in (socks_polled evs n s) = pl_in (fold window_act evs (polled_by n (socks_win s)))"
    "pl_out (socks_polled evs n s) = pl_out (fold window_act evs (polled_by n (socks_win s)))"
    "socks_win (pl_srv (socks_polled evs n s)) = pl_srv (fold window_act evs (polled_by n (socks_win s)))"
    by (simp_all add: swin.windows_of_def)
qed

lemma new_socks_windows [simp]:
  "s_bytes_in (s_stats (NewSOCKS5Server a t0)) = 0" "s_bytes_in_prev (s_stats (NewSOCKS5Server a t0)) = 0"
  "s_bytes_out (s_stats (NewSOCKS5Server a t0)) = 0" "s_bytes_out_prev (s_stats (NewSOCKS5Server a t0)) = 0"
  "s_last_calc (NewSOCKS5Server a t0) = t0"
  by (simp_all add: NewSOCKS5Server_def zero_socks_stats_def)

section \<open>Properties\<close>

text \<open>A small network for the witnesses: one host, whose server sends two bytes.\<close>

definition sample_target :: target where
  "sample_target = \<lparr>t_conn = fresh_conn [[1], [2]] [], t_local_ip = [10, 0, 0, 7], t_local_port = 4000\<rparr>"

definition sample_net :: network where
  "sample_net host port = (if host = ''a'' \<and> port = ''80'' then Some sample_target else None)"

definition sample_env :: socks_env where
  "sample_env = \<lparr>e_net = sample_net, e_now = 0, e_remote = ''c'',
     e_pool = empty_pool \<lparr>allocated = 0, reused = 0, put_back = 0, dropped = 0\<rparr>, e_picks = (None, None)\<rparr>"

lemma sample_env_wf [simp]: "pool_wf (e_pool sample_env)" "e_net sample_env = sample_net"
  by (simp_all add: sample_env_def)

lemma show_80: "show_nat 80 = ''80''"
  by (simp add: show_nat_def show_base.simps digit_def)

lemma dial_sample: "dial sample_net (host_colon_port ''a'' 80) = Some sample_target"
  using split_host_port_plain [of "''a''" "''80''"]
  by (simp add: dial_def host_colon_port_def sample_net_def show_80 plain_def)

lemma socks_spec_encoded:
  assumes "length ms < 256" and "dst_wf d" and "port < 65536"
  shows "socks_spec (encode_greeting ms @ encode_request d port @ payload) = VDial (dst_host d) port payload"
proof -
  have n: "unat (word_of_nat (length ms) :: byte) = length ms" using assms(1) by (rule unat_length_byte)
  have "verdict_request (encode_request d port @ payload) = VDial (dst_host d) port payload"
    using parse_dst_encoded [OF assms(2,3)]
    by (simp add: verdict_request_def encode_request_def verdict_dst_def)
  then show ?thesis
    by (simp add: socks_spec_def encode_greeting_def n)
qed

text \<open>
  C1. A client that offers any methods and asks to CONNECT to any well-formed destination, and then
  sends a payload, in whatever segments all of it arrives, is served: exactly the address
  \<open>host:port\<close> of the destination is dialled; the client receives the method reply, the success
  reply and everything the target sends; the target receives a prefix of the payload, all of it
  when it takes every write; the byte counters and one log entry record exactly that.
\<close>

theorem socks_serves_connect:
  assumes "writable c" and "stream c = encode_greeting ms @ encode_request d port @ payload"
    and "length ms < 256" and "dst_wf d" and "port < 65536" and "pool_wf (e_pool env)"
    and "dial (e_net env) (host_colon_port (dst_host d) port) = Some t"
  shows "dialled (socks_handle env c) = [host_colon_port (dst_host d) port] \<and>
    outq (client (socks_handle env c)) = outq c @ no_auth @ socks_reply t @ stream (t_conn t) \<and>
    (\<exists>n u. upstream (socks_handle env c) = Some u \<and> outq u = outq (t_conn t) @ take n payload \<and>
       n \<le> length payload \<and> (writable (t_conn t) \<longrightarrow> n = length payload) \<and>
       effects (socks_handle env c) = [SBytesIn n, SBytesOut (length (stream (t_conn t))),
         SLog (log_entry env (host_colon_port (dst_host d) port) ''connected''
           (of_nat n + of_nat (length (stream (t_conn t)))))])"
proof -
  have "socks_spec (stream c) = VDial (dst_host d) port payload"
    using assms(2-5) socks_spec_encoded by simp
  with socks_handle_refines [OF assms(1,6)] assms(7) show ?thesis
    by (auto simp: socks_outcome_def connect_outcome_def)
qed

theorem socks_serves_connect_witness:
  "dialled (socks_handle sample_env (fresh_conn [[5], [1, 0, 5, 1, 0, 3], [1, 97, 0], [80, 71]] [])) = [''a:80''] \<and>
   outq (client (socks_handle sample_env (fresh_conn [[5], [1, 0, 5, 1, 0, 3], [1, 97, 0], [80, 71]] [])))
     = [5, 0, 5, 0, 0, 1, 10, 0, 0, 7, 15, 160, 1, 2]"
proof -
  have enc: "encode_greeting [0] @ encode_request (DstDomain ''a'') 80 @ [71] = [5, 1, 0, 5, 1, 0, 3, 1, 97, 0, 80, 71]"
    by (simp add: encode_greeting_def encode_request_def dst_atyp_def encode_dst_def put_be16_def byte_of_def)
  have "host_colon_port (dst_host (DstDomain ''a'')) 80 = ''a:80''"
    by (simp add: host_colon_port_def dst_host_def show_80)
  moreover have "no_auth @ socks_reply sample_target @ stream (t_conn sample_target)
      = [5, 0, 5, 0, 0, 1, 10, 0, 0, 7, 15, 160, 1, 2]"
    by (simp add: no_auth_def socks_reply_def sample_target_def put_be16_def)
  ultimately show ?thesis
    using socks_serves_connect [of "fresh_conn [[5], [1, 0, 5, 1, 0, 3], [1, 97, 0], [80, 71]] []" "[0]"
        "DstDomain ''a''" 80 "[71]" sample_env sample_target] dial_sample enc
    by (simp add: dst_wf_def dst_host_def)
qed

text \<open>
  C2. On a client that takes every write, the handler refines the parser \<^const>\<open>socks_spec\<close> of the
  whole input, on every branch: which replies go out, what is dialled, what is counted and logged
  depends on the bytes of the input alone, never on how they were cut into segments.
\<close>

theorem socks_refines_spec:
  assumes "writable c" and "pool_wf (e_pool env)"
  shows "socks_outcome env (outq c) (socks_spec (stream c)) (socks_handle env c)"
  using assms by (rule socks_handle_refines)

theorem socks_refines_spec_witness:
  "outq (client (socks_handle sample_env (fresh_conn [[5, 1], [0, 5, 2], [0, 1]] []))) = no_auth @ reply_code 7 \<and>
   effects (socks_handle sample_env (fresh_conn [[5, 1], [0, 5, 2], [0, 1]] [])) = [SFailed]"
  using socks_refines_spec [of "fresh_conn [[5, 1], [0, 5, 2], [0, 1]] []" sample_env]
  by (simp add: socks_spec_def verdict_request_def socks_outcome_def)

text \<open>
  C3. For any client and network, failing or not: the handler never panics (every slice of its
  257-byte buffer is in range and the relay gets buffers that are not empty), closes the
  connection, dials at most one address, and its effects are one of the lists of
  \<^const>\<open>socks_shape\<close>: in particular bytes are counted only together with a log entry for them.
\<close>

theorem socks_any_client:
  assumes "pool_wf (e_pool env)"
  shows "socks_shape env (socks_handle env c)"
  using assms by (rule socks_handle_shape)

theorem socks_any_client_witness:
  "socks_shape sample_env (socks_handle sample_env (fresh_conn [[5, 1, 0]] [WErr 1]))"
  by (rule socks_any_client) simp

text \<open>
  C4. A request for an IPv6 address.  Unless the address is IPv4-mapped it fails on every network:
  it is joined to the port without brackets, which no dialer accepts, so the client gets the reply
  "host unreachable", and a failure is counted and logged.  An IPv4-mapped address is dialled as the
  dotted quad it maps to, and served as that one is.
\<close>

theorem socks_ipv6_destinations:
  assumes "writable c" and "stream c = encode_greeting ms @ encode_request (DstIPv6 ip) port @ payload"
    and "length ms < 256" and "length ip = 16" and "port < 65536" and "pool_wf (e_pool env)"
  shows "case to4 ip of
      None \<Rightarrow> outq (client (socks_handle env c)) = outq c @ no_auth @ reply_code 4 \<and>
        dialled (socks_handle env c) = [host_colon_port (ip_string ip) port] \<and>
        upstream (socks_handle env c) = None \<and>
        effects (socks_handle env c) =
          [SFailed, SLog (log_entry env (host_colon_port (ip_string ip) port) ''failed'' 0)]
    | Some q \<Rightarrow> connect_outcome env (outq c @ no_auth) (host_colon_port (ip4_string q) port) payload
        (socks_handle env c)"
proof -
  have "socks_spec (stream c) = VDial (ip_string ip) port payload"
    using assms(2-5) socks_spec_encoded [of ms "DstIPv6 ip" port payload]
    by (simp add: dst_wf_def dst_host_def)
  then have out: "connect_outcome env (outq c @ no_auth) (host_colon_port (ip_string ip) port) payload
      (socks_handle env c)"
    using socks_handle_refines [OF assms(1,6)] by (simp add: socks_outcome_def)
  show ?thesis
  proof (cases "to4 ip")
    case None
    then have "dial (e_net env) (host_colon_port (ip_string ip) port) = None"
      using split_ip6_unbracketed [OF assms(4)] by (simp add: dial_def host_colon_port_def)
    with out None show ?thesis by (simp add: connect_outcome_def)
  next
    case (Some q)
    then have "ip_string ip = ip4_string q" using assms(4) by (auto simp: ip_string_def)
    with out Some show ?thesis by simp
  qed
qed

theorem socks_ipv6_destinations_witness:
  "outq (client (socks_handle sample_env
     (fresh_conn [encode_greeting [0] @ encode_request (DstIPv6 [0,0,0,0,0,0,0,0,0,0,0,0,0,0,0,1]) 443] [])))
   = no_auth @ reply_code 4 \<and>
   dialled (socks_handle sample_env
     (fresh_conn [encode_greeting [0] @ encode_request (DstIPv6 [0,0,0,0,0,0,0,0,0,0,255,255,10,0,0,9]) 443] []))
   = [host_colon_port (ip4_string [10,0,0,9]) 443]"
proof -
  have "to4 [0,0,0,0,0,0,0,0,0,0,0,0,0,0,0,1] = None"
    "to4 [0,0,0,0,0,0,0,0,0,0,255,255,10,0,0,9] = Some [10,0,0,9]" by code_simp+
  then show ?thesis
    using socks_ipv6_destinations [of "fresh_conn [encode_greeting [0] @
          encode_request (DstIPv6 [0,0,0,0,0,0,0,0,0,0,0,0,0,0,0,1]) 443] []"
        "[0]" "[0,0,0,0,0,0,0,0,0,0,0,0,0,0,0,1]" 443 "[]" sample_env]
      socks_ipv6_destinations [of "fresh_conn [encode_greeting [0] @
          encode_request (DstIPv6 [0,0,0,0,0,0,0,0,0,0,255,255,10,0,0,9]) 443] []"
        "[0]" "[0,0,0,0,0,0,0,0,0,0,255,255,10,0,0,9]" 443 "[]" sample_env]
    by (simp add: connect_outcome_def)
qed

text \<open>
  In every interleaving of arrivals, effects and endings, from a server whose limit was set to
  \<open>m\<close>: the handlers that run are never more than \<open>m\<close>, the semaphore and \<open>ConnsActive\<close> count
  them exactly, and every arrival was counted once, in \<open>ConnsTotal\<close> or in \<open>ConnsRejected\<close>.
\<close>

lemma socks_connection_limit:
  assumes "socks_SetMaxConns m (NewSOCKS5Server a now) = Some s"
  shows "length (running (socks_run evs s)) \<le> nat (sint m) \<and>
    s_sem (server (socks_run evs s)) = length (running (socks_run evs s)) \<and>
    s_conns_active (s_stats (server (socks_run evs s))) = of_nat (length (running (socks_run evs s))) \<and>
    s_conns_total (s_stats (server (socks_run evs s))) = of_nat (length (served (socks_run evs s))) \<and>
    s_conns_rejected (s_stats (server (socks_run evs s))) + s_conns_total (s_stats (server (socks_run evs s)))
      = of_nat (arrivals evs)"
proof -
  have s: "s_sem s = 0" "s_slots s = nat (sint m)" "s_conns_active (s_stats s) = 0"
    "s_conns_total (s_stats s) = 0" "s_conns_rejected (s_stats s) = 0"
    using assms by (auto simp: socks_SetMaxConns_def NewSOCKS5Server_def zero_socks_stats_def split: if_splits)
  from sgate.gate_run [OF s(1), of evs socks_effects] s show ?thesis
    by (simp add: sgate.gate_inv_def socks_run_def)
qed

lemma socks_connection_limit_witness:
  "length (running (socks_run [Arrive (sample_env, fresh_conn [] []), Arrive (sample_env, fresh_conn [] [])]
     (the (socks_SetMaxConns 1 (NewSOCKS5Server ''x'' 0))))) \<le> 1"
  using socks_connection_limit [of 1 "''x''" 0 "the (socks_SetMaxConns 1 (NewSOCKS5Server ''x'' 0))"
      "[Arrive (sample_env, fresh_conn [] []), Arrive (sample_env, fresh_conn [] [])]"]
  by (simp add: socks_SetMaxConns_def)

text \<open>
  C5. Whatever the interleaving, once all handlers have ended the three counters are the sums over
  the connections served of what their handlers did (modulo the width of the counters): no update
  is lost and none is counted twice.
\<close>

theorem socks_counters_sum:
  assumes "running (socks_run evs s) = []"
  shows "s_bytes_in (s_stats (server (socks_run evs s))) = s_bytes_in (s_stats s) +
      sum_list (map (\<lambda>c. sum_list (map amount_in (socks_effects c))) (served (socks_run evs s))) \<and>
    s_bytes_out (s_stats (server (socks_run evs s))) = s_bytes_out (s_stats s) +
      sum_list (map (\<lambda>c. sum_list (map amount_out (socks_effects c))) (served (socks_run evs s))) \<and>
    s_conns_failed (s_stats (server (socks_run evs s))) = s_conns_failed (s_stats s) +
      sum_list (map (\<lambda>c. sum_list (map amount_failed (socks_effects c))) (served (socks_run evs s)))"
  using assms sbytesin.count_quiescent [of socks_effects evs s] sbytesout.count_quiescent [of socks_effects evs s]
    sfailed.count_quiescent [of socks_effects evs s]
  unfolding socks_run_def by blast

theorem socks_counters_sum_witness:
  "s_conns_failed (s_stats (server (socks_run
     [Arrive (sample_env, fresh_conn [[5]] []), Effect 0, Finish 0] (NewSOCKS5Server ''x'' 0)))) = 1"
proof -
  let ?c = "(sample_env, fresh_conn [[5]] [])"
  let ?R = "socks_run [Arrive ?c, Effect 0, Finish 0] (NewSOCKS5Server ''x'' 0)"
  have e: "socks_effects ?c = [SFailed]"
    using socks_handle_refines [of "fresh_conn [[5]] []" sample_env]
    by (simp add: socks_effects_def socks_spec_def socks_outcome_def)
  have "running ?R = []" and "served ?R = [?c]"
    by (simp_all add: socks_run_def sys_run_def sys_start_def socks_admit_def NewSOCKS5Server_def
        remove_nth_def e)
  with socks_counters_sum [of "[Arrive ?c, Effect 0, Finish 0]" "NewSOCKS5Server ''x'' 0"] e
  show ?thesis by (simp add: NewSOCKS5Server_def zero_socks_stats_def)
qed

text \<open>
  A limit of zero, which \<^verbatim>\<open>main\<close> sets when it halves a configured limit of one, serves nobody:
  no arrival is ever admitted.
\<close>

lemma socks_zero_limit_serves_nobody:
  assumes "socks_SetMaxConns 0 s0 = Some s"
  shows "served (socks_run evs s) = []"
proof -
  have "s_slots s = 0" "s_sem s = 0" using assms by (auto simp: socks_SetMaxConns_def)
  then show ?thesis unfolding socks_run_def by (rule sgate.no_slots_no_service)
qed

lemma socks_zero_limit_serves_nobody_witness:
  "served (socks_run [Arrive (sample_env, fresh_conn [] [])]
     (the (socks_SetMaxConns 0 (NewSOCKS5Server ''x'' 0)))) = []"
  by (rule socks_zero_limit_serves_nobody [of "NewSOCKS5Server ''x'' 0"])
    (simp add: socks_SetMaxConns_def)

text \<open>
  The connection log is a window on the history: after any entries were added to a new server
  the log holds the last 1000 of them, in order, and \<^verbatim>\<open>GetConnLogs\<close> returns it.
\<close>

lemma socks_log_window:
  "GetConnLogs (fold addConnLog es (NewSOCKS5Server a now)) = last_n 1000 es"
  using slog.fold_add_entries [of "NewSOCKS5Server a now" es]
  by (simp add: GetConnLogs_def NewSOCKS5Server_def)




end
