(* ===== verification/Tunnel_Handlers.thy ===== *)
theory Tunnel_Handlers
  imports Socks5_Proxy
begin

text \<open>
  \<^verbatim>\<open>internal/tunnel/tunnel.go\<close>, the handlers of TCP connections: the protocol detection of
  \<^verbatim>\<open>handleTCP\<close> over its pooled buffer, and the handlers of the four protocols.  A pooled buffer
  keeps the bytes of its last user; \<^verbatim>\<open>peek := buf[:n]\<close> keeps the capacity of the buffer, so
  \<^verbatim>\<open>peek[:4]\<close> reads these bytes when \<open>n\<close> is smaller than 4.
\<close>

text \<open>What a handler does to the counters of the server.\<close>

datatype tun_effect =
    TFailed             \<comment> \<open>\<open>ConnsFailed\<close> + 1\<close>
  | TBytesIn nat
  | TBytesOut nat

section \<open>Hosts from HTTP requests\<close>

definition extractCONNECTHost :: "byte list \<Rightarrow> string" where
  "extractCONNECTHost data =
     (let s = str_of data in
      case str_index s '' '' of
        None \<Rightarrow> []
      | Some i \<Rightarrow>
          let s = drop (i + 1) s in
          (case str_index s '' '' of None \<Rightarrow> [] | Some i \<Rightarrow> take i s))"

definition crlf :: string where
  "crlf = [CHR 0x0D, CHR 0x0A]"

fun host_of_lines :: "string list \<Rightarrow> string" where
  "host_of_lines [] = []"
| "host_of_lines (line # lines) =
     (if 6 < length line \<and> equal_fold (take 6 line) ''host: '' then drop 6 line
      else host_of_lines lines)"

definition extractHTTPHost :: "byte list \<Rightarrow> string" where
  "extractHTTPHost data = host_of_lines (str_split (str_of data) crlf)"

text \<open>The default port, when the host has no colon.\<close>

definition default_port :: "string \<Rightarrow> string \<Rightarrow> string" where
  "default_port port host = (if str_contains host '':'' then host else host @ port)"


section \<open>The handlers\<close>

text \<open>
  What a handler finds: the network, the buffer pool, and what \<open>sync.Pool\<close> picks for its small
  buffer and for the two goroutines of the relay.  A handler returns its state and the pool.
\<close>

record tun_env =
  v_net :: network
  v_pool :: buffer_pool
  v_pick :: pick
  v_picks :: "pick \<times> pick"

type_synonym tun_h = "tun_effect hstate"

text \<open>
  Lines 321 to 322 and 392 to 396: the deadline is cleared, the relay runs and its counts are added;
  the target is closed by a deferred call.  A \<^const>\<open>None\<close> of the relay is a panic in one of its goroutines,
  which only an empty buffer causes.
\<close>

definition relayWithStats :: "tun_env \<Rightarrow> conn \<Rightarrow> buffer_pool \<Rightarrow> tun_h \<Rightarrow> tun_h \<times> buffer_pool" where
  "relayWithStats env tc bp h =
     (let h = h\<lparr>client := set_deadline None (client h)\<rparr> in
      case relay (v_picks env) bp (client h) tc of
        None \<Rightarrow> (panic h, bp)
      | Some r \<Rightarrow>
          (emit (TBytesOut (r_n2 r)) (emit (TBytesIn (r_n1 r))
             (h\<lparr>client := r_conn1 r, upstream := Some (conn_close (r_conn2 r))\<rparr>)), r_pool r))"

text \<open>Lines 239 to 251: the greeting must be complete in the first read; the rest of that read is dropped.\<close>

definition tun_greet :: "byte list \<Rightarrow> tun_h \<Rightarrow> tun_h + tun_h" where
  "tun_greet initial h =
     (if length initial < 3 then Inl h
      else if length initial < 2 + unat (initial ! 1) then Inl h
      else case send no_auth h of (True, h) \<Rightarrow> Inr h | (False, h) \<Rightarrow> Inl h)"

text \<open>Lines 253 to 262.\<close>

definition tun_command :: "tun_h \<Rightarrow> tun_h + (byte \<times> tun_h)" where
  "tun_command h =
     (case recv 4 4 h of
        RPanic \<Rightarrow> Inl (panic h)
      | RErr \<Rightarrow> Inl h
      | RGot b h \<Rightarrow>
          if b ! 0 \<noteq> 5 \<or> b ! 1 \<noteq> 1 then Inl (snd (send (reply_code 7) h))
          else Inr (b ! 3, h))"

text \<open>Lines 264 to 293; every buffer is made in the size that is read.\<close>

definition tun_host :: "byte \<Rightarrow> 'e hstate \<Rightarrow> 'e hstate + (string \<times> 'e hstate)" where
  "tun_host atyp h =
     (if atyp = 1 then
        (case recv 4 4 h of
           RPanic \<Rightarrow> Inl (panic h)
         | RErr \<Rightarrow> Inl h
         | RGot b h \<Rightarrow> Inr (ip_string b, h))
      else if atyp = 3 then
        (case recv 1 1 h of
           RPanic \<Rightarrow> Inl (panic h)
         | RErr \<Rightarrow> Inl h
         | RGot b h \<Rightarrow>
             (let l = unat (b ! 0) in
              case recv l l h of
                RPanic \<Rightarrow> Inl (panic h)
              | RErr \<Rightarrow> Inl h
              | RGot d h \<Rightarrow> Inr (str_of d, h)))
      else if atyp = 4 then
        (case recv 16 16 h of
           RPanic \<Rightarrow> Inl (panic h)
         | RErr \<Rightarrow> Inl h
         | RGot b h \<Rightarrow> Inr (ip_string b, h))
      else Inl h)"

text \<open>Lines 295 to 299.\<close>

definition tun_port :: "string \<times> 'e hstate \<Rightarrow> 'e hstate + (string \<times> nat \<times> 'e hstate)" where
  "tun_port hh =
     (case recv 2 2 (snd hh) of
        RPanic \<Rightarrow> Inl (panic (snd hh))
      | RErr \<Rightarrow> Inl (snd hh)
      | RGot b h \<Rightarrow> Inr (fst hh, be16 (b ! 0) (b ! 1), h))"

text \<open>
  Lines 313 to 316: the reply ends in the port that the client asked for, not in the local one;
  \<^verbatim>\<open>append(resp, IP.To4()...)\<close> appends nothing when the local address has no IPv4 form.
\<close>

definition tun_reply :: "nat \<Rightarrow> target \<Rightarrow> byte list" where
  "tun_reply port t =
     [5, 0, 0, 1] @ (case to4 (t_local_ip t) of Some p \<Rightarrow> p | None \<Rightarrow> []) @ put_be16 port"

text \<open>Lines 301 to 322.\<close>

definition tun_connect :: "tun_env \<Rightarrow> buffer_pool \<Rightarrow> string \<times> nat \<times> tun_h \<Rightarrow> tun_h \<times> buffer_pool" where
  "tun_connect env bp req =
     (let (host, port, h) = req;
          addr = host_colon_port host port;
          h = h\<lparr>dialled := dialled h @ [addr]\<rparr>
      in case dial (v_net env) addr of
           None \<Rightarrow> (emit TFailed (snd (send (reply_code 4) h)), bp)
         | Some t \<Rightarrow>
             (case send (tun_reply port t) h of
                (False, h) \<Rightarrow> (h\<lparr>upstream := Some (conn_close (t_conn t))\<rparr>, bp)
              | (True, h) \<Rightarrow> relayWithStats env (t_conn t) bp h))"

definition tun_handleSOCKS5 :: "tun_env \<Rightarrow> byte list \<Rightarrow> buffer_pool \<Rightarrow> tun_h \<Rightarrow> tun_h \<times> buffer_pool" where
  "tun_handleSOCKS5 env initial bp h =
     (case and_then (tun_greet initial h) (\<lambda>h.
           and_then (tun_command h) (\<lambda>(atyp, h).
           and_then (tun_host atyp h) tun_port)) of
        Inl h \<Rightarrow> (h, bp)
      | Inr req \<Rightarrow> tun_connect env bp req)"

definition established :: "byte list" where
  "established = bytes_of (''HTTP/1.1 200 Connection Established'' @ crlf @ crlf)"

definition handleHTTPConnect :: "tun_env \<Rightarrow> byte list \<Rightarrow> buffer_pool \<Rightarrow> tun_h \<Rightarrow> tun_h \<times> buffer_pool" where
  "handleHTTPConnect env initial bp h =
     (let host = extractCONNECTHost initial in
      if host = [] then (h, bp)
      else
        let host = default_port '':443'' host;
            h = h\<lparr>dialled := dialled h @ [host]\<rparr>
        in case dial (v_net env) host of
             None \<Rightarrow> (h, bp)
           | Some t \<Rightarrow>
               (case send established h of
                  (False, h) \<Rightarrow> (h\<lparr>upstream := Some (conn_close (t_conn t))\<rparr>, bp)
                | (True, h) \<Rightarrow> relayWithStats env (t_conn t) bp h))"

definition handleHTTPProxy :: "tun_env \<Rightarrow> byte list \<Rightarrow> buffer_pool \<Rightarrow> tun_h \<Rightarrow> tun_h \<times> buffer_pool" where
  "handleHTTPProxy env initial bp h =
     (let host = extractHTTPHost initial in
      if host = [] then (h, bp)
      else
        let host = default_port '':80'' host;
            h = h\<lparr>dialled := dialled h @ [host]\<rparr>
        in case dial (v_net env) host of
             None \<Rightarrow> (h, bp)
           | Some t \<Rightarrow>
               (case conn_write initial (t_conn t) of
                  (False, c) \<Rightarrow> (h\<lparr>upstream := Some (conn_close c)\<rparr>, bp)
                | (True, c) \<Rightarrow> relayWithStats env c bp h))"

definition handleRawProxy :: "tun_env \<Rightarrow> byte list \<Rightarrow> buffer_pool \<Rightarrow> tun_h \<Rightarrow> tun_h \<times> buffer_pool" where
  "handleRawProxy env initial bp h =
     (let addr = str_of (take 256 initial);
          h = h\<lparr>dialled := dialled h @ [addr]\<rparr>
      in case dial (v_net env) addr of
           None \<Rightarrow> (h, bp)
         | Some t \<Rightarrow> relayWithStats env (t_conn t) bp h)"

section \<open>Protocol detection\<close>

text \<open>
  The switch over \<^verbatim>\<open>peek = buf[:n]\<close>.  In its third case only the comparison with \<^verbatim>\<open>GET\<close> is guarded
  by the length (\<^verbatim>\<open>&&\<close> binds tighter than \<^verbatim>\<open>||\<close>); the others slice up to the capacity of the
  buffer and panic only beyond it.
\<close>

datatype protocol = PSocks | PConnect | PHttp | PRaw | PUnknown | PPanic

definition tun_detect :: "nat \<Rightarrow> buffer \<Rightarrow> protocol" where
  "tun_detect n buf =
     (if 0 < n \<and> buf ! 0 = 5 then PSocks
      else if 7 \<le> n \<and> str_of (take 7 buf) = ''CONNECT'' then PConnect
      else if 4 \<le> n \<and> str_of (take 4 buf) = ''GET '' then PHttp
      else if length buf < 4 then PPanic
      else if str_of (take 4 buf) = ''POST'' \<or> str_of (take 4 buf) = ''PUT '' \<or>
              str_of (take 4 buf) = ''HEAD'' then PHttp
      else if 2 \<le> n \<and> buf ! 0 = 0 \<and> buf ! 1 = 0 then PRaw
      else PUnknown)"

definition tun_dispatch :: "tun_env \<Rightarrow> nat \<Rightarrow> buffer \<Rightarrow> buffer_pool \<Rightarrow> tun_h \<Rightarrow> tun_h \<times> buffer_pool" where
  "tun_dispatch env n buf bp h =
     (let peek = take n buf in
      case tun_detect n buf of
        PSocks \<Rightarrow> tun_handleSOCKS5 env peek bp h
      | PConnect \<Rightarrow> handleHTTPConnect env peek bp h
      | PHttp \<Rightarrow> handleHTTPProxy env peek bp h
      | PRaw \<Rightarrow> handleRawProxy env peek bp h
      | PUnknown \<Rightarrow> (emit TFailed h, bp)
      | PPanic \<Rightarrow> (panic h, bp))"

text \<open>The deferred calls, as for the SOCKS5 server; before them the small buffer goes back.\<close>

definition tun_deferred :: "tun_h \<Rightarrow> tun_h" where
  "tun_deferred h =
     (let h = h\<lparr>client := conn_close (client h)\<rparr> in if panicked h then emit TFailed h else h)"

definition handleTCP :: "tun_env \<Rightarrow> conn \<Rightarrow> tun_h \<times> buffer_pool" where
  "handleTCP env c =
     (let h = start_handler (set_deadline (Some 120) c);
          (buf, bp) = GetSmall (v_pick env) (v_pool env)
      in case conn_read (length buf) (client h) of
           None \<Rightarrow> (tun_deferred h, PutSmall (Some buf) bp)
         | Some (b, c) \<Rightarrow>
             let h = h\<lparr>client := c\<rparr>;
                 buf = b @ drop (length b) buf
             in if b = [] then (tun_deferred h, PutSmall (Some buf) bp)
                else let (h, bp) = tun_dispatch env (length b) buf bp h
                     in (tun_deferred h, PutSmall (Some buf) bp))"


section \<open>The destination reader is that of the SOCKS5 server\<close>

lemma recv_capacity: "n \<le> m \<Longrightarrow> recv n n h = recv m n h"
  by (simp add: recv_def)

lemma recv_byte_capacity: "recv (unat (b :: byte)) (unat b) h = recv 257 (unat b) h"
  using unat_byte_le [of b] by (intro recv_capacity) linarith

lemma tun_host_eq: "tun_host atyp h = socks_host atyp h"
  by (simp add: tun_host_def socks_host_def recv_capacity [of _ 257] recv_byte_capacity Let_def
      split: rd.split)

lemma tun_port_eq: "tun_port = socks_port"
  by (rule ext) (simp add: tun_port_def socks_port_def recv_capacity [of _ 257])

lemma tun_dst_eq: "and_then (tun_host atyp h) tun_port = socks_dst atyp h"
  by (simp add: tun_host_eq tun_port_eq socks_dst_def)

section \<open>The handler against a plan made from the input\<close>

text \<open>
  What the tunnel makes of a connection, as a function of the protocol, the bytes of the first
  read and the input after it: to quit after some bytes to the client, perhaps counting a failure,
  or to open a connection: the address, the bytes to the client before dialling, those after a
  failure (counted if there are any), the reply on success, what is forwarded first, and the input
  left for the relay.
\<close>

datatype plan =
    Quit "byte list" bool
  | Open string "byte list" "byte list" "target \<Rightarrow> byte list" "byte list option" "byte list"

definition plan_socks :: "byte list \<Rightarrow> byte list \<Rightarrow> plan" where
  "plan_socks first s =
     (if length first < 3 \<or> length first < 2 + unat (first ! 1) then Quit [] False
      else if length s < 4 then Quit no_auth False
      else if s ! 0 \<noteq> 5 \<or> s ! 1 \<noteq> 1 then Quit (no_auth @ reply_code 7) False
      else case parse_dst (s ! 3) (drop 4 s) of
             DGot host port rest \<Rightarrow>
               Open (host_colon_port host port) no_auth (reply_code 4)
                 (\<lambda>t. [5, 0, 0, 1] @ (case to4 (t_local_ip t) of Some p \<Rightarrow> p | None \<Rightarrow> []) @ put_be16 port)
                 None rest
           | _ \<Rightarrow> Quit no_auth False)"

lemma plan_socks_alt:
  "plan_socks first s =
     (if length first < 3 \<or> length first < 2 + unat (first ! 1) then Quit [] False
      else if length s < 4 then Quit no_auth False
      else if s ! 0 \<noteq> 5 \<or> s ! 1 \<noteq> 1 then Quit (no_auth @ reply_code 7) False
      else case parse_dst (s ! 3) (drop 4 s) of
             DGot host port rest \<Rightarrow>
               Open (host_colon_port host port) no_auth (reply_code 4) (tun_reply port) None rest
           | _ \<Rightarrow> Quit no_auth False)"
  unfolding plan_socks_def tun_reply_def [abs_def] ..

definition plan_connect :: "byte list \<Rightarrow> byte list \<Rightarrow> plan" where
  "plan_connect first s =
     (let host = extractCONNECTHost first in
      if host = [] then Quit [] False
      else Open (default_port '':443'' host) [] [] (\<lambda>_. established) None s)"

definition plan_http :: "byte list \<Rightarrow> byte list \<Rightarrow> plan" where
  "plan_http first s =
     (let host = extractHTTPHost first in
      if host = [] then Quit [] False
      else Open (default_port '':80'' host) [] [] (\<lambda>_. []) (Some first) s)"

definition tun_plan :: "protocol \<Rightarrow> byte list \<Rightarrow> byte list \<Rightarrow> plan" where
  "tun_plan p first s =
     (case p of
        PSocks \<Rightarrow> plan_socks first s
      | PConnect \<Rightarrow> plan_connect first s
      | PHttp \<Rightarrow> plan_http first s
      | PRaw \<Rightarrow> Open (str_of (take 256 first)) [] [] (\<lambda>_. []) None s
      | _ \<Rightarrow> Quit [] True)"

text \<open>What it means that a handler did what a plan says, for a client that takes every write.\<close>

definition relayed :: "conn \<Rightarrow> byte list \<Rightarrow> byte list \<Rightarrow> tun_h \<Rightarrow> bool" where
  "relayed tc out rest h \<longleftrightarrow>
     outq (client h) = out @ stream tc \<and>
     (\<exists>n\<le>length rest. \<exists>u. (writable tc \<longrightarrow> n = length rest) \<and> upstream h = Some u \<and>
        outq u = outq tc @ take n rest \<and> closed u \<and>
        effects h = [TBytesIn n, TBytesOut (length (stream tc))])"

definition send_first :: "byte list option \<Rightarrow> conn \<Rightarrow> bool \<times> conn" where
  "send_first fw c = (case fw of None \<Rightarrow> (True, c) | Some b \<Rightarrow> conn_write b c)"

definition opened :: "byte list \<Rightarrow> (target \<Rightarrow> byte list) \<Rightarrow> byte list option \<Rightarrow> byte list \<Rightarrow> target \<Rightarrow> tun_h \<Rightarrow> bool" where
  "opened out reply fw rest t h \<longleftrightarrow>
     (case send_first fw (t_conn t) of
        (True, c) \<Rightarrow> relayed c (out @ reply t) rest h
      | (False, c) \<Rightarrow> outq (client h) = out \<and> upstream h = Some (conn_close c) \<and> effects h = [])"

definition plan_outcome :: "tun_env \<Rightarrow> byte list \<Rightarrow> plan \<Rightarrow> tun_h \<Rightarrow> bool" where
  "plan_outcome env out p h \<longleftrightarrow> \<not> panicked h \<and>
     (case p of
        Quit b counted \<Rightarrow> outq (client h) = out @ b \<and> dialled h = [] \<and> upstream h = None \<and>
          effects h = (if counted then [TFailed] else [])
      | Open addr before failed reply fw rest \<Rightarrow> dialled h = [addr] \<and>
          (case dial (v_net env) addr of
             None \<Rightarrow> outq (client h) = out @ before @ failed \<and> upstream h = None \<and>
               effects h = (if failed = [] then [] else [TFailed])
           | Some t \<Rightarrow> opened (out @ before) reply fw rest t h))"

lemma relayWithStats_at:
  assumes "pool_wf bp" and "writable (client h)" and "effects h = []" and "\<not> panicked h"
    and "relayWithStats env tc bp h = (h', bp')"
  shows "relayed tc (outq (client h)) (stream (client h)) h'" "dialled h' = dialled h"
    "\<not> panicked h'"
proof -
  let ?c = "set_deadline None (client h)"
  obtain r where r: "relay (v_picks env) bp ?c tc = Some r"
    using relay_total [OF assms(1)] by blast
  have w: "writable ?c" using assms(2) by simp
  have h': "h' = emit (TBytesOut (r_n2 r)) (emit (TBytesIn (r_n1 r))
      (h\<lparr>client := r_conn1 r, upstream := Some (conn_close (r_conn2 r))\<rparr>))"
    using assms(5) r by (simp add: relayWithStats_def)
  note d = relay_prefix(1-4) [OF r] relay_exact(1) [OF r] relay_exact(2) [OF r w]
  then show "relayed tc (outq (client h)) (stream (client h)) h'"
    using assms(3) by (auto simp: h' relayed_def intro!: exI [of _ "r_n1 r"])
  show "dialled h' = dialled h" "\<not> panicked h'" using assms(4) by (simp_all add: h')
qed

lemma relay_at:
  assumes "hs_at out rest h" and "pool_wf bp"
    and "relayWithStats env tc bp (h\<lparr>dialled := [addr]\<rparr>) = (h', bp')"
  shows "relayed tc out rest h' \<and> dialled h' = [addr] \<and> \<not> panicked h'"
  using relayWithStats_at [OF assms(2) _ _ _ assms(3)] assms(1) by (simp add: hs_at_def)

lemma hs_at_fields:
  assumes "hs_at out s h"
  shows "writable (client h)" "outq (client h) = out" "stream (client h) = s" "effects h = []"
    "dialled h = []" "upstream h = None" "\<not> panicked h"
  using assms by (simp_all add: hs_at_def)

lemma tun_connect_at:
  assumes "hs_at (out @ before) rest h" and "pool_wf bp"
    and "tun_connect env bp (host, port, h) = (h', bp')"
  shows "plan_outcome env out (Open (host_colon_port host port) before (reply_code 4) (tun_reply port) None rest) h'"
proof (cases "dial (v_net env) (host_colon_port host port)")
  case None
  with assms(3) hs_at_fields [OF assms(1)] show ?thesis
    by (auto simp: tun_connect_def Let_def plan_outcome_def reply_code_def)
next
  case (Some t)
  obtain h1 where sd: "send (tun_reply port t) h = (True, h1)"
    and h1: "hs_at ((out @ before) @ tun_reply port t) rest h1" using send_at [OF assms(1)] by blast
  have "send (tun_reply port t) (h\<lparr>dialled := [host_colon_port host port]\<rparr>) =
      (True, h1\<lparr>dialled := [host_colon_port host port]\<rparr>)"
    using sd hs_at_fields [OF assms(1)] by auto
  with Some assms(3) hs_at_fields [OF assms(1)]
  have "relayWithStats env (t_conn t) bp (h1\<lparr>dialled := [host_colon_port host port]\<rparr>) = (h', bp')"
    by (simp add: tun_connect_def Let_def)
  with relay_at [OF h1 assms(2)] Some show ?thesis
    by (simp add: plan_outcome_def opened_def send_first_def)
qed

lemma handleHTTPConnect_at:
  assumes "hs_at out s h" and "pool_wf bp" and "handleHTTPConnect env first bp h = (h', bp')"
  shows "plan_outcome env out (plan_connect first s) h'"
proof (cases "extractCONNECTHost first = []")
  case True
  with assms(1,3) show ?thesis
    by (simp add: handleHTTPConnect_def plan_connect_def plan_outcome_def hs_at_def)
next
  case False
  define a where "a = default_port '':443'' (extractCONNECTHost first)"
  have p: "plan_connect first s = Open a [] [] (\<lambda>_. established) None s"
    using False by (simp add: plan_connect_def a_def)
  show ?thesis
  proof (cases "dial (v_net env) a")
    case None
    with False assms(3) hs_at_fields [OF assms(1)] show ?thesis
      by (auto simp: p handleHTTPConnect_def Let_def plan_outcome_def simp flip: a_def)
  next
    case (Some t)
    obtain h1 where sd: "send established h = (True, h1)"
      and h1: "hs_at (out @ established) s h1" using send_at [OF assms(1)] by blast
    have "send established (h\<lparr>dialled := [a]\<rparr>) = (True, h1\<lparr>dialled := [a]\<rparr>)"
      using sd hs_at_fields [OF assms(1)] by auto
    with Some False assms(3) hs_at_fields [OF assms(1)]
    have "relayWithStats env (t_conn t) bp (h1\<lparr>dialled := [a]\<rparr>) = (h', bp')"
      by (simp add: handleHTTPConnect_def Let_def flip: a_def)
    with relay_at [OF h1 assms(2)] Some show ?thesis
      by (simp add: p plan_outcome_def opened_def send_first_def)
  qed
qed

lemma handleHTTPProxy_at:
  assumes "hs_at out s h" and "pool_wf bp" and "handleHTTPProxy env first bp h = (h', bp')"
  shows "plan_outcome env out (plan_http first s) h'"
proof (cases "extractHTTPHost first = []")
  case True
  with assms(1,3) show ?thesis
    by (simp add: handleHTTPProxy_def plan_http_def plan_outcome_def hs_at_def)
next
  case False
  define a where "a = default_port '':80'' (extractHTTPHost first)"
  have p: "plan_http first s = Open a [] [] (\<lambda>_. []) (Some first) s"
    using False by (simp add: plan_http_def a_def)
  note h = hs_at_fields [OF assms(1)]
  show ?thesis
  proof (cases "dial (v_net env) a")
    case None
    with False assms(3) h show ?thesis
      by (auto simp: p handleHTTPProxy_def Let_def plan_outcome_def simp flip: a_def)
  next
    case (Some t)
    obtain ok c where cw: "conn_write first (t_conn t) = (ok, c)" by fastforce
    show ?thesis
    proof (cases ok)
      case True
      with Some False cw assms(3) h
      have "relayWithStats env c bp (h\<lparr>dialled := [a]\<rparr>) = (h', bp')"
        by (simp add: handleHTTPProxy_def Let_def flip: a_def)
      from relay_at [OF assms(1,2) this] Some cw True show ?thesis
        by (simp add: p plan_outcome_def opened_def send_first_def)
    next
      case False
      with Some \<open>extractHTTPHost first \<noteq> []\<close> cw assms(3) h
      have "h' = h\<lparr>dialled := [a], upstream := Some (conn_close c)\<rparr>"
        by (simp add: handleHTTPProxy_def Let_def flip: a_def)
      with Some False cw h show ?thesis
        by (simp add: p plan_outcome_def opened_def send_first_def)
    qed
  qed
qed

lemma handleRawProxy_at:
  assumes "hs_at out s h" and "pool_wf bp" and "handleRawProxy env first bp h = (h', bp')"
  shows "plan_outcome env out (Open (str_of (take 256 first)) [] [] (\<lambda>_. []) None s) h'"
proof (cases "dial (v_net env) (str_of (take 256 first))")
  case None
  with assms(3) hs_at_fields [OF assms(1)] show ?thesis
    by (auto simp: handleRawProxy_def Let_def plan_outcome_def)
next
  case (Some t)
  with assms(3) hs_at_fields [OF assms(1)]
  have "relayWithStats env (t_conn t) bp (h\<lparr>dialled := [str_of (take 256 first)]\<rparr>) = (h', bp')"
    by (simp add: handleRawProxy_def Let_def)
  from relay_at [OF assms(1,2) this] Some show ?thesis
    by (simp add: plan_outcome_def opened_def send_first_def)
qed

subsection \<open>SOCKS5\<close>

lemma plan_outcome_quit:
  "hs_at (out @ b) s h \<Longrightarrow> plan_outcome env out (Quit b False) h"
  by (simp add: plan_outcome_def hs_at_def)

lemma tun_greet_at:
  assumes "hs_at out s h"
  shows "length first < 3 \<or> length first < 2 + unat (first ! 1) \<Longrightarrow> tun_greet first h = Inl h"
    and "\<not> (length first < 3 \<or> length first < 2 + unat (first ! 1)) \<Longrightarrow>
      \<exists>h'. tun_greet first h = Inr h' \<and> hs_at (out @ no_auth) s h'"
proof -
  show "tun_greet first h = Inl h" if "length first < 3 \<or> length first < 2 + unat (first ! 1)"
    using that unfolding tun_greet_def by argo
  obtain h' where "send no_auth h = (True, h')" and "hs_at (out @ no_auth) s h'"
    using send_at [OF assms] by blast
  then show "\<exists>h'. tun_greet first h = Inr h' \<and> hs_at (out @ no_auth) s h'"
    if "\<not> (length first < 3 \<or> length first < 2 + unat (first ! 1))"
    using that unfolding tun_greet_def by simp
qed

lemma tun_command_at:
  assumes "hs_at out s h"
  shows "length s < 4 \<Longrightarrow> tun_command h = Inl h"
    and "4 \<le> length s \<Longrightarrow> s ! 0 \<noteq> 5 \<or> s ! 1 \<noteq> 1 \<Longrightarrow>
      \<exists>h' s'. tun_command h = Inl h' \<and> hs_at (out @ reply_code 7) s' h'"
    and "4 \<le> length s \<Longrightarrow> s ! 0 = 5 \<Longrightarrow> s ! 1 = 1 \<Longrightarrow>
      \<exists>h'. tun_command h = Inr (s ! 3, h') \<and> hs_at out (drop 4 s) h'"
proof -
  show "tun_command h = Inl h" if "length s < 4"
    using recv_at_short [OF assms, of 4 4] that by (simp add: tun_command_def)
  assume "4 \<le> length s"
  from recv_at [OF assms _ this, of 4] obtain h1
    where r: "recv 4 4 h = RGot (take 4 s) h1" and h1: "hs_at out (drop 4 s) h1" by auto
  show "\<exists>h' s'. tun_command h = Inl h' \<and> hs_at (out @ reply_code 7) s' h'"
    if "s ! 0 \<noteq> 5 \<or> s ! 1 \<noteq> 1"
  proof -
    obtain h2 where "send (reply_code 7) h1 = (True, h2)" and "hs_at (out @ reply_code 7) (drop 4 s) h2"
      using send_at [OF h1] by blast
    with r that show ?thesis by (auto simp: tun_command_def)
  qed
  show "\<exists>h'. tun_command h = Inr (s ! 3, h') \<and> hs_at out (drop 4 s) h'" if "s ! 0 = 5" "s ! 1 = 1"
    using r h1 that by (simp add: tun_command_def)
qed

lemma tun_handleSOCKS5_at:
  assumes h: "hs_at out s h" and "pool_wf bp"
    and r: "tun_handleSOCKS5 env first bp h = (h', bp')"
  shows "plan_outcome env out (plan_socks first s) h'"
proof (cases "length first < 3 \<or> length first < 2 + unat (first ! 1)")
  case True
  with tun_greet_at(1) [OF h] r h plan_outcome_quit [of out "[]" s h env] show ?thesis
    by (simp add: tun_handleSOCKS5_def plan_socks_alt)
next
  case False
  then obtain h1 where g: "tun_greet first h = Inr h1" and h1: "hs_at (out @ no_auth) s h1"
    using tun_greet_at(2) [OF h] by blast
  note cmd = tun_command_at [OF h1]
  consider "length s < 4" | "4 \<le> length s" "s ! 0 \<noteq> 5 \<or> s ! 1 \<noteq> 1" | "4 \<le> length s" "s ! 0 = 5" "s ! 1 = 1"
    by linarith
  then show ?thesis
  proof cases
    case 1
    with cmd(1) g r False plan_outcome_quit [OF h1] show ?thesis
      by (simp add: tun_handleSOCKS5_def plan_socks_alt)
  next
    case 2
    with cmd(2) obtain h2 s2 where c: "tun_command h1 = Inl h2" and h2: "hs_at ((out @ no_auth) @ reply_code 7) s2 h2"
      by blast
    have "plan_socks first s = Quit (no_auth @ reply_code 7) False"
      using 2 False unfolding plan_socks_alt by simp
    moreover have "h' = h2" using g c r by (simp add: tun_handleSOCKS5_def)
    ultimately show ?thesis using plan_outcome_quit [of out "no_auth @ reply_code 7"] h2 by simp
  next
    case 3
    with cmd(3) obtain h2 where c: "tun_command h1 = Inr (s ! 3, h2)"
      and h2: "hs_at (out @ no_auth) (drop 4 s) h2" by blast
    have p: "plan_socks first s = (case parse_dst (s ! 3) (drop 4 s) of
        DGot host port rest \<Rightarrow> Open (host_colon_port host port) no_auth (reply_code 4) (tun_reply port) None rest
      | _ \<Rightarrow> Quit no_auth False)"
      using 3 False unfolding plan_socks_alt by simp
    have e: "tun_handleSOCKS5 env first bp h =
        (case socks_dst (s ! 3) h2 of Inl h \<Rightarrow> (h, bp) | Inr req \<Rightarrow> tun_connect env bp req)"
      using g c by (simp add: tun_handleSOCKS5_def tun_dst_eq)
    have y: "yields (out @ no_auth) (socks_dst (s ! 3) h2) (parse_dst (s ! 3) (drop 4 s))"
      by (rule socks_dst_at [OF h2])
    show ?thesis
    proof (cases "parse_dst (s ! 3) (drop 4 s)")
      case (DGot host port rest)
      with y obtain h3 where "socks_dst (s ! 3) h2 = Inr (host, port, h3)" and h3: "hs_at (out @ no_auth) rest h3"
        by (auto simp: yields_def)
      with e r have "tun_connect env bp (host, port, h3) = (h', bp')" by simp
      from tun_connect_at [OF h3 assms(2) this] DGot show ?thesis by (simp add: p)
    qed (use y e r plan_outcome_quit in \<open>auto simp: p yields_def\<close>)
  qed
qed

subsection \<open>The whole handler\<close>

lemma plan_outcome_deferred: "plan_outcome env out p h \<Longrightarrow> plan_outcome env out p (tun_deferred h)"
  by (auto simp: plan_outcome_def opened_def relayed_def tun_deferred_def Let_def
      split: plan.splits option.splits prod.splits bool.splits)

lemma tun_detect_no_panic: "4 \<le> length buf \<Longrightarrow> tun_detect n buf \<noteq> PPanic"
  by (simp add: tun_detect_def)

lemma tun_dispatch_at:
  assumes h: "hs_at out s h" and "pool_wf bp" and "4 \<le> length buf"
    and d: "tun_dispatch env n buf bp h = (h', bp')"
  shows "plan_outcome env out (tun_plan (tun_detect n buf) (take n buf) s) h'"
proof (cases "tun_detect n buf")
  case PSocks
  with d have "tun_handleSOCKS5 env (take n buf) bp h = (h', bp')" by (simp add: tun_dispatch_def)
  from tun_handleSOCKS5_at [OF assms(1,2) this] PSocks show ?thesis by (simp add: tun_plan_def)
next
  case PConnect
  with d have "handleHTTPConnect env (take n buf) bp h = (h', bp')" by (simp add: tun_dispatch_def)
  from handleHTTPConnect_at [OF assms(1,2) this] PConnect show ?thesis by (simp add: tun_plan_def)
next
  case PHttp
  with d have "handleHTTPProxy env (take n buf) bp h = (h', bp')" by (simp add: tun_dispatch_def)
  from handleHTTPProxy_at [OF assms(1,2) this] PHttp show ?thesis by (simp add: tun_plan_def)
next
  case PRaw
  with d have "handleRawProxy env (take n buf) bp h = (h', bp')" by (simp add: tun_dispatch_def)
  from handleRawProxy_at [OF assms(1,2) this] PRaw show ?thesis by (simp add: tun_plan_def)
next
  case PUnknown
  with d have "h' = emit TFailed h" by (simp add: tun_dispatch_def)
  with PUnknown hs_at_fields [OF h] show ?thesis by (simp add: tun_plan_def plan_outcome_def)
next
  case PPanic
  with assms(3) show ?thesis by (simp add: tun_detect_no_panic)
qed

lemma conn_read_deadline:
  "conn_read n (set_deadline d c) =
     (case conn_read n c of None \<Rightarrow> None | Some (b, c') \<Rightarrow> Some (b, set_deadline d c'))"
  by (simp add: conn_read_def set_deadline_def split: list.split)

text \<open>The small buffer a handler gets, with what is stale in it after the first read.\<close>

definition small_buf :: "tun_env \<Rightarrow> buffer" where
  "small_buf env = fst (GetSmall (v_pick env) (v_pool env))"

definition peeked :: "tun_env \<Rightarrow> byte list \<Rightarrow> buffer" where
  "peeked env first = first @ drop (length first) (small_buf env)"

lemma small_buf_length: "pool_wf (v_pool env) \<Longrightarrow> length (small_buf env) = SmallBufSize"
  unfolding small_buf_def by (rule small_source.get_length)

lemma handleTCP_refines:
  assumes w: "writable c" and p: "pool_wf (v_pool env)"
    and r: "conn_read SmallBufSize c = Some (first, c')" and "first \<noteq> []"
  shows "plan_outcome env (outq c)
    (tun_plan (tun_detect (length first) (peeked env first)) first (stream c')) (fst (handleTCP env c))"
proof -
  obtain buf bp where g: "GetSmall (v_pick env) (v_pool env) = (buf, bp)" by fastforce
  then have buf: "buf = small_buf env" "length buf = SmallBufSize"
    using small_buf_length [OF p] by (simp_all add: small_buf_def)
  have bp: "pool_wf bp" using small_source.get_wf [OF p, of "v_pick env"] g by simp
  let ?h = "(start_handler (set_deadline (Some 120) c))\<lparr>client := set_deadline (Some 120) c'\<rparr> :: tun_h"
  have "length first \<le> SmallBufSize" using conn_read_Some(3) [OF r] .
  then have len: "length (peeked env first) = SmallBufSize" using buf by (simp add: peeked_def)
  have fr: "\<exists>q. c' = c\<lparr>inq := q\<rparr>" using conn_read_Some(2) [OF r] by metis
  then have h: "hs_at (outq c) (stream c') ?h"
    using w by (auto simp: hs_at_def start_handler_def)
  obtain h' bp' where d: "tun_dispatch env (length first) (peeked env first) bp ?h = (h', bp')"
    by fastforce
  have "fst (handleTCP env c) = tun_deferred h'"
    using g r buf d assms(4)
    by (simp add: handleTCP_def conn_read_deadline peeked_def start_handler_def)
  moreover have "plan_outcome env (outq c)
      (tun_plan (tun_detect (length first) (peeked env first)) (take (length first) (peeked env first)) (stream c')) h'"
    by (rule tun_dispatch_at [OF h bp _ d]) (simp add: len SmallBufSize_def)
  ultimately show ?thesis by (simp add: plan_outcome_deferred peeked_def)
qed

lemma handleTCP_no_input:
  assumes p: "pool_wf (v_pool env)"
    and r: "conn_read SmallBufSize c = None \<or> conn_read SmallBufSize c = Some ([], c')"
  shows "plan_outcome env (outq c) (Quit [] False) (fst (handleTCP env c))"
proof -
  obtain buf bp where g: "GetSmall (v_pick env) (v_pool env) = (buf, bp)" by fastforce
  then have buf: "length buf = SmallBufSize" using small_buf_length [OF p] by (simp add: small_buf_def)
  have "conn_read SmallBufSize c = Some ([], c') \<Longrightarrow> outq c' = outq c"
    using conn_read_Some(2) [of SmallBufSize c "[]" c'] by (auto dest!: arg_cong [of _ _ outq])
  with g buf r show ?thesis
    by (auto simp: handleTCP_def conn_read_deadline start_handler_def plan_outcome_def
        tun_deferred_def Let_def)
qed

text \<open>From four bytes on, what is stale in the buffer does not matter.\<close>

lemma tun_detect_local:
  assumes "4 \<le> length first"
  shows "tun_detect (length first) (first @ stale) = tun_detect (length first) first"
proof -
  have "0 < length first" and "1 < length first" using assms by linarith+
  then have "(first @ stale) ! 0 = first ! 0" "(first @ stale) ! 1 = first ! 1"
    by (simp_all add: nth_append)
  moreover have "take 4 (first @ stale) = take 4 first" using assms by simp
  moreover have "7 \<le> length first \<Longrightarrow> take 7 (first @ stale) = take 7 first" by simp
  ultimately show ?thesis using assms unfolding tun_detect_def by (auto simp: nth_append)
qed

section \<open>Any client\<close>

definition quiet :: "tun_h \<Rightarrow> bool" where
  "quiet h \<longleftrightarrow> effects h = [] \<and> dialled h = [] \<and> upstream h = None \<and> \<not> panicked h"

lemma quiet_client [simp]: "quiet (h\<lparr>client := c\<rparr>) \<longleftrightarrow> quiet h"
  by (simp add: quiet_def)

lemma quiet_recv: "recv k n h = RGot b h' \<Longrightarrow> quiet h \<Longrightarrow> quiet h'"
  using recv_RGot(4) [of k n h b h'] by auto

lemma quiet_send: "send b h = (ok, h') \<Longrightarrow> quiet h \<Longrightarrow> quiet h'"
  by (auto simp: send_def split: prod.splits)

lemma quiet_send_snd: "quiet h \<Longrightarrow> quiet (snd (send b h))"
  using quiet_send [of b h "fst (send b h)" "snd (send b h)"] by simp

text \<open>
  The shape of a handler's end: nothing dialled and at most a failure counted, or one address
  dialled, and only if that succeeded bytes counted, in both directions, and the target closed.
\<close>

definition tun_ends :: "tun_env \<Rightarrow> tun_h \<Rightarrow> bool" where
  "tun_ends env h \<longleftrightarrow> \<not> panicked h \<and>
     (dialled h = [] \<and> upstream h = None \<and> (effects h = [] \<or> effects h = [TFailed]) \<or>
      (\<exists>addr. dialled h = [addr] \<and>
         (if dial (v_net env) addr = None
          then upstream h = None \<and> (effects h = [] \<or> effects h = [TFailed])
          else (\<exists>u. upstream h = Some u \<and> closed u) \<and>
            (effects h = [] \<or> (\<exists>n m. effects h = [TBytesIn n, TBytesOut m])))))"

lemma tun_ends_quiet: "quiet h \<Longrightarrow> tun_ends env h"
  by (simp add: quiet_def tun_ends_def)

lemma tun_ends_undialled:
  "quiet h \<Longrightarrow> dial (v_net env) addr = None \<Longrightarrow> tun_ends env (h\<lparr>dialled := [addr]\<rparr>)"
  "quiet h \<Longrightarrow> dial (v_net env) addr = None \<Longrightarrow> tun_ends env (emit TFailed (h\<lparr>dialled := [addr]\<rparr>))"
  by (simp_all add: quiet_def tun_ends_def)

lemma tun_ends_refused:
  "quiet h \<Longrightarrow> dial (v_net env) addr = Some t \<Longrightarrow>
     tun_ends env (h\<lparr>dialled := [addr], upstream := Some (conn_close c)\<rparr>)"
  by (simp add: quiet_def tun_ends_def)

lemma tun_ends_relay:
  assumes "quiet h" and "dial (v_net env) addr = Some t" and "pool_wf bp"
    and "relayWithStats env tc bp (h\<lparr>dialled := [addr]\<rparr>) = (h', bp')"
  shows "tun_ends env h'" "pool_wf bp'"
proof -
  obtain r where r: "relay (v_picks env) bp (set_deadline None (client h)) tc = Some r" and p: "pool_wf (r_pool r)"
    using relay_total [OF assms(3)] by blast
  have h': "h' = emit (TBytesOut (r_n2 r)) (emit (TBytesIn (r_n1 r))
      (h\<lparr>dialled := [addr], client := r_conn1 r, upstream := Some (conn_close (r_conn2 r))\<rparr>))"
    and bp': "bp' = r_pool r"
    using assms(4) r by (simp_all add: relayWithStats_def)
  show "tun_ends env h'" using assms(1,2) by (simp add: h' tun_ends_def quiet_def)
  show "pool_wf bp'" using p by (simp add: bp')
qed

lemma send_dialled: "send b (h\<lparr>dialled := a\<rparr>) = (fst (send b h), (snd (send b h))\<lparr>dialled := a\<rparr>)"
  by (simp add: send_def split: prod.split)

lemma tun_connect_ends:
  assumes "quiet h" and "pool_wf bp" and "tun_connect env bp (host, port, h) = (h', bp')"
  shows "tun_ends env h' \<and> pool_wf bp'"
proof -
  define a where "a = host_colon_port host port"
  have q: "dialled h = []" "quiet (snd (send b h))" for b
    using assms(1) by (simp_all add: quiet_def quiet_send_snd)
  show ?thesis
  proof (cases "dial (v_net env) a")
    case None
    with assms(2,3) q show ?thesis
      by (auto simp: tun_connect_def Let_def send_dialled tun_ends_undialled simp flip: a_def)
  next
    case (Some t)
    with assms(2,3) q tun_ends_refused [OF q(2) Some] tun_ends_relay [OF q(2) Some assms(2)]
    show ?thesis
      by (auto simp: tun_connect_def Let_def send_dialled split: prod.splits bool.splits simp flip: a_def)
  qed
qed

lemma handleHTTPConnect_ends:
  assumes "quiet h" and "pool_wf bp" and "handleHTTPConnect env first bp h = (h', bp')"
  shows "tun_ends env h' \<and> pool_wf bp'"
proof -
  define a where "a = default_port '':443'' (extractCONNECTHost first)"
  have q: "dialled h = []" "quiet (snd (send b h))" for b
    using assms(1) by (simp_all add: quiet_def quiet_send_snd)
  show ?thesis
  proof (cases "dial (v_net env) a")
    case None
    with assms q show ?thesis
      by (auto simp: handleHTTPConnect_def Let_def tun_ends_undialled tun_ends_quiet split: if_splits
          simp flip: a_def)
  next
    case (Some t)
    with assms q tun_ends_refused [OF q(2) Some] tun_ends_relay [OF q(2) Some assms(2)] show ?thesis
      by (auto simp: handleHTTPConnect_def Let_def send_dialled tun_ends_quiet
          split: prod.splits bool.splits if_splits simp flip: a_def)
  qed
qed

lemma handleHTTPProxy_ends:
  assumes "quiet h" and "pool_wf bp" and "handleHTTPProxy env first bp h = (h', bp')"
  shows "tun_ends env h' \<and> pool_wf bp'"
proof -
  define a where "a = default_port '':80'' (extractHTTPHost first)"
  have q: "dialled h = []" using assms(1) by (simp add: quiet_def)
  show ?thesis
  proof (cases "dial (v_net env) a")
    case None
    with assms q show ?thesis
      by (auto simp: handleHTTPProxy_def Let_def tun_ends_undialled tun_ends_quiet split: if_splits
          simp flip: a_def)
  next
    case (Some t)
    with assms q tun_ends_refused [OF assms(1) Some] tun_ends_relay [OF assms(1) Some assms(2)] show ?thesis
      by (auto simp: handleHTTPProxy_def Let_def tun_ends_quiet
          split: prod.splits bool.splits if_splits simp flip: a_def)
  qed
qed

lemma handleRawProxy_ends:
  assumes "quiet h" and "pool_wf bp" and "handleRawProxy env first bp h = (h', bp')"
  shows "tun_ends env h' \<and> pool_wf bp'"
  using assms tun_ends_relay [OF assms(1) _ assms(2)]
  by (cases "dial (v_net env) (str_of (take 256 first))")
    (auto simp: handleRawProxy_def Let_def tun_ends_undialled quiet_def)

lemma tun_greet_quiet:
  "quiet h \<Longrightarrow> case tun_greet first h of Inl h' \<Rightarrow> quiet h' | Inr h' \<Rightarrow> quiet h'"
  by (auto simp: tun_greet_def split: phase_splits dest: quiet_send)

lemma tun_command_quiet:
  "quiet h \<Longrightarrow> case tun_command h of Inl h' \<Rightarrow> quiet h' | Inr (a, h') \<Rightarrow> quiet h'"
  by (auto simp: tun_command_def recv_no_panic quiet_send_snd quiet_recv split: phase_splits)

lemma socks_host_quiet:
  "quiet h \<Longrightarrow> case socks_host atyp h of Inl h' \<Rightarrow> quiet h' | Inr (x, h') \<Rightarrow> quiet h'"
  by (auto simp: socks_host_def recv_no_panic recv_byte_no_panic quiet_recv split: phase_splits)

lemma socks_port_quiet:
  "quiet h \<Longrightarrow> case socks_port (x, h) of Inl h' \<Rightarrow> quiet h' | Inr (y, p, h') \<Rightarrow> quiet h'"
  by (auto simp: socks_port_def recv_no_panic quiet_recv split: phase_splits)

lemma socks_dst_quiet:
  assumes "quiet h"
  shows "case socks_dst atyp h of Inl h' \<Rightarrow> quiet h' | Inr (y, p, h') \<Rightarrow> quiet h'"
proof (cases "socks_host atyp h")
  case (Inl h')
  with socks_host_quiet [OF assms, of atyp] show ?thesis by (simp add: socks_dst_def)
next
  case (Inr xh)
  then obtain x h1 where xh: "socks_host atyp h = Inr (x, h1)" by (cases xh) auto
  with socks_host_quiet [OF assms, of atyp] have "quiet h1" by simp
  from socks_port_quiet [OF this, of x] xh show ?thesis by (simp add: socks_dst_def)
qed

lemma tun_handleSOCKS5_ends:
  assumes "quiet h" and "pool_wf bp" and "tun_handleSOCKS5 env first bp h = (h', bp')"
  shows "tun_ends env h' \<and> pool_wf bp'"
proof (cases "tun_greet first h")
  case (Inl h1)
  with tun_greet_quiet [OF assms(1), of first] assms(2,3) show ?thesis
    by (auto simp: tun_handleSOCKS5_def tun_ends_quiet)
next
  case g: (Inr h1)
  with tun_greet_quiet [OF assms(1), of first] have q1: "quiet h1" by simp
  show ?thesis
  proof (cases "tun_command h1")
    case (Inl h2)
    with tun_command_quiet [OF q1] g assms(2,3) show ?thesis
      by (auto simp: tun_handleSOCKS5_def tun_ends_quiet)
  next
    case c: (Inr ah)
    then obtain a h2 where ah: "tun_command h1 = Inr (a, h2)" by (cases ah) auto
    with tun_command_quiet [OF q1] have q2: "quiet h2" by simp
    have e: "tun_handleSOCKS5 env first bp h =
        (case socks_dst a h2 of Inl h \<Rightarrow> (h, bp) | Inr req \<Rightarrow> tun_connect env bp req)"
      using g ah by (simp add: tun_handleSOCKS5_def tun_dst_eq)
    show ?thesis
    proof (cases "socks_dst a h2")
      case (Inl h3)
      with socks_dst_quiet [OF q2, of a] e assms(2,3) show ?thesis by (auto simp: tun_ends_quiet)
    next
      case (Inr req)
      then obtain host port h3 where req: "socks_dst a h2 = Inr (host, port, h3)" by (cases req) auto
      with socks_dst_quiet [OF q2, of a] have "quiet h3" by simp
      moreover have "tun_connect env bp (host, port, h3) = (h', bp')" using e req assms(3) by simp
      ultimately show ?thesis using tun_connect_ends assms(2) by blast
    qed
  qed
qed

lemma tun_dispatch_ends:
  assumes "quiet h" and "pool_wf bp" and "4 \<le> length buf"
    and d: "tun_dispatch env n buf bp h = (h', bp')"
  shows "tun_ends env h' \<and> pool_wf bp'"
proof (cases "tun_detect n buf")
  case PPanic
  with assms(3) show ?thesis by (simp add: tun_detect_no_panic)
next
  case PUnknown
  with d have "h' = emit TFailed h" "bp' = bp" by (simp_all add: tun_dispatch_def)
  with assms(1,2) show ?thesis by (simp add: quiet_def tun_ends_def)
qed (use d tun_handleSOCKS5_ends [OF assms(1,2)] handleHTTPConnect_ends [OF assms(1,2)]
      handleHTTPProxy_ends [OF assms(1,2)] handleRawProxy_ends [OF assms(1,2)] in
      \<open>simp add: tun_dispatch_def; blast\<close>)+

lemma tun_ends_deferred:
  assumes "tun_ends env h"
  shows "tun_ends env (tun_deferred h) \<and> closed (client (tun_deferred h))"
proof -
  have "tun_deferred h = h\<lparr>client := conn_close (client h)\<rparr>"
    using assms by (simp add: tun_ends_def tun_deferred_def Let_def)
  moreover have "tun_ends env (h\<lparr>client := c\<rparr>) = tun_ends env h" for c by (simp add: tun_ends_def)
  ultimately show ?thesis using assms by simp
qed

lemma handleTCP_ends:
  assumes p: "pool_wf (v_pool env)" and r: "handleTCP env c = (h', bp')"
  shows "tun_ends env h' \<and> closed (client h') \<and> pool_wf bp'"
proof -
  obtain buf bp where g: "GetSmall (v_pick env) (v_pool env) = (buf, bp)" by fastforce
  have len: "length buf = SmallBufSize" and bp: "pool_wf bp"
    using small_source.get_length [OF p, of "v_pick env"] small_source.get_wf [OF p, of "v_pick env"] g
    by simp_all
  let ?h = "start_handler (set_deadline (Some 120) c) :: tun_h"
  have q: "quiet ?h" by (simp add: start_handler_def quiet_def)
  note close = tun_ends_deferred [OF tun_ends_quiet [OF q], of env]
  show ?thesis
  proof (cases "conn_read (length buf) (client ?h)")
    case None
    with g r len bp close show ?thesis by (auto simp: handleTCP_def intro!: small_source.put_wf)
  next
    case (Some x)
    then obtain b c1 where rd: "conn_read (length buf) (client ?h) = Some (b, c1)" by (cases x) auto
    have "length b \<le> length buf" using conn_read_Some(3) [OF rd] .
    then have len': "length (b @ drop (length b) buf) = SmallBufSize" using len by simp
    show ?thesis
    proof (cases "b = []")
      case True
      with g r rd len bp tun_ends_deferred [OF tun_ends_quiet, of "?h\<lparr>client := c1\<rparr>" env] q show ?thesis
        by (auto simp: handleTCP_def intro!: small_source.put_wf)
    next
      case False
      obtain h1 bp1 where d: "tun_dispatch env (length b) (b @ drop (length b) buf) bp (?h\<lparr>client := c1\<rparr>) = (h1, bp1)"
        by fastforce
      have "tun_ends env h1 \<and> pool_wf bp1"
        by (rule tun_dispatch_ends [OF _ bp _ d]) (simp_all add: q len' del: length_append, simp add: SmallBufSize_def)
      moreover have "h' = tun_deferred h1" "bp' = PutSmall (Some (b @ drop (length b) buf)) bp1"
        using g r rd d False by (simp_all add: handleTCP_def)
      ultimately show ?thesis
        using tun_ends_deferred small_source.put_wf len' by auto
    qed
  qed
qed

section \<open>What the extractors find\<close>

lemma extractCONNECTHost_request:
  assumes "CHR '' '' \<notin> set m" and "CHR '' '' \<notin> set host"
  shows "extractCONNECTHost (bytes_of (m @ '' '' @ host @ '' '' @ tail)) = host"
  using str_index_single_append [OF assms(1), of "host @ '' '' @ tail"]
    str_index_single_append [OF assms(2), of tail]
  by (simp add: extractCONNECTHost_def Let_def)

lemma crlf_index_None: "CHR 0x0D \<notin> set l \<Longrightarrow> str_index l crlf = None"
  by (induction l) (auto simp: crlf_def has_prefix_def)

lemma crlf_index: "CHR 0x0D \<notin> set l \<Longrightarrow> str_index (l @ crlf @ t) crlf = Some (length l)"
  by (induction l) (auto simp: crlf_def has_prefix_def)

text \<open>Splitting a request at its line ends gives back its lines.\<close>

lemma str_split_lines:
  assumes "ls \<noteq> []" and "\<forall>l\<in>set ls. CHR 0x0D \<notin> set l"
  shows "str_split (str_join crlf ls) crlf = ls"
  using assms
proof (induction ls rule: list_nonempty_induct)
  case (single l)
  then show ?case by (simp add: str_split.simps [of l] crlf_index_None)
next
  case (cons l ls)
  then have i: "str_index (l @ crlf @ str_join crlf ls) crlf = Some (length l)" by (simp add: crlf_index)
  have "crlf \<noteq> []" by (simp add: crlf_def)
  with cons(1) have "str_split (str_join crlf (l # ls)) crlf = l # str_split (str_join crlf ls) crlf"
    using i by (subst str_split.simps) (simp add: str_join_Cons)
  with cons show ?case by simp
qed

definition host_line :: "string \<Rightarrow> bool" where
  "host_line l \<longleftrightarrow> 6 < length l \<and> equal_fold (take 6 l) ''host: ''"

lemma host_of_lines_first:
  assumes "\<forall>l\<in>set pre. \<not> host_line l" and "equal_fold key ''host: ''" and "host \<noteq> []"
  shows "host_of_lines (pre @ (key @ host) # post) = host"
proof -
  have "length key = 6" using arg_cong [OF assms(2) [unfolded equal_fold_def], of length] by simp
  with assms show ?thesis by (induction pre) (auto simp: host_line_def)
qed

lemma extractHTTPHost_request:
  assumes "\<forall>l\<in>set (pre @ (key @ host) # post). CHR 0x0D \<notin> set l"
    and "\<forall>l\<in>set pre. \<not> host_line l" and "equal_fold key ''host: ''" and "host \<noteq> []"
  shows "extractHTTPHost (bytes_of (str_join crlf (pre @ (key @ host) # post))) = host"
  using str_split_lines [OF _ assms(1)] host_of_lines_first [OF assms(2-4)]
  by (simp add: extractHTTPHost_def)

lemma four_chars: "take 4 s = [a, b, c, d] \<Longrightarrow> \<exists>t. s = a # b # c # d # t"
  by (metis append_Cons append_Nil append_take_drop_id)

lemma tun_detect_http:
  assumes "take 4 s \<in> {''GET '', ''POST'', ''PUT '', ''HEAD''}"
  shows "tun_detect (length s) (bytes_of s) = PHttp"
proof -
  obtain a b c d t where s: "s = a # b # c # d # t"
    using assms by (auto dest!: four_chars)
  have "byte_of a \<noteq> 5" using assms by (auto simp: s byte_of_def)
  with assms show ?thesis by (auto simp: s tun_detect_def)
qed

lemma tun_detect_connect:
  assumes "s = ''CONNECT'' @ t"
  shows "tun_detect (length s) (bytes_of s) = PConnect"
proof -
  have "byte_of (CHR ''C'') \<noteq> 5" by (simp add: byte_of_def)
  moreover have "take 7 (bytes_of s) = bytes_of ''CONNECT''" by (simp add: assms bytes_of_def)
  ultimately show ?thesis
    unfolding tun_detect_def by (simp add: assms)
qed

section \<open>Properties\<close>

definition sample_tun :: "buffer list \<Rightarrow> tun_env" where
  "sample_tun smalls = \<lparr>v_net = sample_net,
     v_pool = (empty_pool \<lparr>allocated = 0, reused = 0, put_back = 0, dropped = 0\<rparr>)\<lparr>small := smalls\<rparr>,
     v_pick = Some 0, v_picks = (None, None)\<rparr>"

lemma sample_tun_wf: "\<forall>b\<in>set bs. length b = SmallBufSize \<Longrightarrow> pool_wf (v_pool (sample_tun bs))"
  by (simp add: sample_tun_def pool_wf_iff empty_pool_def)

lemma sample_tun_net [simp]: "v_net (sample_tun bs) = sample_net"
  by (simp add: sample_tun_def)

lemma conn_read_fresh:
  "length seg \<le> n \<Longrightarrow> conn_read n (fresh_conn (seg # q) ws) = Some (seg, fresh_conn q ws)"
  by (simp add: conn_read_def fresh_conn_def)

text \<open>
  C13. On a client that takes every write the handler does what its plan says, a function of what the
  first read gives, the detected protocol and the input after it, for every protocol and every
  branch, a first read that fails or is empty included: which replies go out, what is dialled,
  forwarded, relayed and counted.
\<close>

theorem tunnel_refines_plan:
  assumes "writable c" and "pool_wf (v_pool env)"
  shows "plan_outcome env (outq c)
    (case conn_read SmallBufSize c of
       None \<Rightarrow> Quit [] False
     | Some (first, c') \<Rightarrow>
         if first = [] then Quit [] False
         else tun_plan (tun_detect (length first) (peeked env first)) first (stream c'))
    (fst (handleTCP env c))"
proof (cases "\<exists>first c'. conn_read SmallBufSize c = Some (first, c') \<and> first \<noteq> []")
  case True
  then obtain first c' where "conn_read SmallBufSize c = Some (first, c')" "first \<noteq> []" by blast
  with handleTCP_refines [OF assms] show ?thesis by simp
next
  case False
  then consider "conn_read SmallBufSize c = None" | c' where "conn_read SmallBufSize c = Some ([], c')"
    by (cases "conn_read SmallBufSize c") auto
  then show ?thesis using handleTCP_no_input [OF assms(2)] by cases simp_all
qed

theorem tunnel_refines_plan_witness:
  "effects (fst (handleTCP (sample_tun []) (fresh_conn [[1, 2, 3, 4]] []))) = [TFailed] \<and>
   outq (client (fst (handleTCP (sample_tun []) (fresh_conn [[1, 2, 3, 4]] [])))) = [] \<and>
   effects (fst (handleTCP (sample_tun []) (fresh_conn [] []))) = []"
proof -
  have "tun_detect (length [1, 2, 3, 4 :: byte]) (peeked (sample_tun []) [1, 2, 3, 4]) = tun_detect (length [1, 2, 3, 4 :: byte]) [1, 2, 3, 4]"
    unfolding peeked_def by (rule tun_detect_local) simp
  moreover have "tun_detect (length [1, 2, 3, 4 :: byte]) [1, 2, 3, 4] = PUnknown" by code_simp
  moreover have "conn_read SmallBufSize (fresh_conn [[1, 2, 3, 4]] []) = Some ([1, 2, 3, 4], fresh_conn [] [])"
    by (rule conn_read_fresh) (simp add: SmallBufSize_def)
  moreover have "conn_read SmallBufSize (fresh_conn [] []) = None"
    by (simp add: conn_read_def fresh_conn_def)
  ultimately show ?thesis
    using tunnel_refines_plan [of "fresh_conn [[1, 2, 3, 4]] []" "sample_tun []"]
      tunnel_refines_plan [of "fresh_conn [] []" "sample_tun []"] sample_tun_wf [of "[]"]
    by (simp add: tun_plan_def plan_outcome_def)
qed

text \<open>
  C14. For any client and network, failing or not: the handler never panics, closes the client,
  opens at most one connection and closes it, counts bytes only for a connection it opened (both
  directions or none), and leaves the pool in order.
\<close>

theorem tunnel_any_client:
  assumes "pool_wf (v_pool env)"
  shows "tun_ends env (fst (handleTCP env c)) \<and> closed (client (fst (handleTCP env c))) \<and>
    pool_wf (snd (handleTCP env c))"
  using handleTCP_ends [OF assms prod.collapse [symmetric]] .

theorem tunnel_any_client_witness:
  "closed (client (fst (handleTCP (sample_tun []) (fresh_conn [[5, 1]] [WErr 0]))))"
  using tunnel_any_client [OF sample_tun_wf [of "[]"]] by simp

lemma plan_socks_encoded:
  assumes "ms \<noteq> []" "length ms < 256" "dst_wf d" "port < 65536"
  shows "plan_socks (encode_greeting ms @ extra) (encode_request d port @ payload) =
    Open (host_colon_port (dst_host d) port) no_auth (reply_code 4) (tun_reply port) None payload"
proof -
  have "unat (word_of_nat (length ms) :: byte) = length ms" using assms(2) by (rule unat_length_byte)
  moreover have "Suc 0 \<le> length ms" using assms(1) by (cases ms) auto
  ultimately have "\<not> (length (encode_greeting ms @ extra) < 3 \<or>
      length (encode_greeting ms @ extra) < 2 + unat ((encode_greeting ms @ extra) ! 1))"
    using assms(1) by (simp add: encode_greeting_def)
  then show ?thesis
    using parse_dst_encoded [OF assms(3,4), of payload]
    unfolding plan_socks_alt by (simp add: encode_request_def)
qed

text \<open>
  C15. A SOCKS5 client whose greeting (one method at least) arrives in one piece is served: the
  destination of its request is dialled and, if that succeeds, the client gets the method reply,
  the success reply, with the IPv4 form of the local address, if any, and the port that the client
  itself asked for, and all that the target sends, and the target gets the payload.
\<close>

theorem tunnel_serves_socks5:
  assumes "writable c" and "pool_wf (v_pool env)"
    and "conn_read SmallBufSize c = Some (encode_greeting ms, c')"
    and "stream c' = encode_request d port @ payload"
    and "ms \<noteq> []" and "length ms < 256" and "dst_wf d" and "port < 65536"
    and "dial (v_net env) (host_colon_port (dst_host d) port) = Some t"
  shows "dialled (fst (handleTCP env c)) = [host_colon_port (dst_host d) port] \<and>
    relayed (t_conn t)
      (outq c @ [5, 0] @ [5, 0, 0, 1] @ (case to4 (t_local_ip t) of Some p \<Rightarrow> p | None \<Rightarrow> []) @ put_be16 port)
      payload (fst (handleTCP env c))"
proof -
  have "tun_detect (length (encode_greeting ms)) (peeked env (encode_greeting ms)) = PSocks"
    by (simp add: tun_detect_def peeked_def encode_greeting_def)
  moreover have "encode_greeting ms \<noteq> []" by (simp add: encode_greeting_def)
  ultimately show ?thesis
    using handleTCP_refines [OF assms(1-3)] plan_socks_encoded [OF assms(5-8), of "[]" payload] assms(4,9)
    by (simp add: tun_plan_def plan_outcome_def opened_def send_first_def tun_reply_def no_auth_def)
qed

theorem tunnel_serves_socks5_witness:
  "dialled (fst (handleTCP (sample_tun []) (fresh_conn [[5, 1, 0], [5, 1, 0, 3, 1, 97], [0, 80, 71]] []))) = [''a:80'']"
proof -
  let ?c = "fresh_conn [[5, 1, 0], [5, 1, 0, 3, 1, 97], [0, 80, 71]] []"
  have "conn_read SmallBufSize ?c = Some (encode_greeting [0], fresh_conn [[5, 1, 0, 3, 1, 97], [0, 80, 71]] [])"
    by (simp add: conn_read_fresh SmallBufSize_def encode_greeting_def)
  moreover have "stream (fresh_conn [[5, 1, 0, 3, 1, 97], [0, 80, 71]] []) =
      encode_request (DstDomain ''a'') 80 @ [71]"
    by (simp add: encode_request_def encode_dst_def dst_atyp_def put_be16_def byte_of_def)
  moreover have "host_colon_port ''a'' 80 = ''a:80''" by code_simp
  ultimately show ?thesis
    using tunnel_serves_socks5 [of ?c "sample_tun []" "[0]" _ "DstDomain ''a''" 80 "[71]" sample_target]
      sample_tun_wf [of "[]"] dial_sample
    by (simp add: dst_wf_def dst_host_def)
qed

text \<open>
  C16. An HTTP CONNECT request in the first read opens a tunnel to its host (port 443 if it names
  none): the client gets the confirmation and all that the target sends.  What arrived with the
  request in the first read is dropped: the target gets only the input that follows it.
\<close>

theorem tunnel_serves_connect:
  assumes "writable c" and "pool_wf (v_pool env)"
    and "conn_read SmallBufSize c = Some (bytes_of (''CONNECT '' @ host @ '' '' @ tail), c')"
    and "host \<noteq> []" and "CHR '' '' \<notin> set host"
    and "dial (v_net env) (default_port '':443'' host) = Some t"
  shows "dialled (fst (handleTCP env c)) = [default_port '':443'' host] \<and>
    relayed (t_conn t) (outq c @ established) (stream c') (fst (handleTCP env c))"
proof -
  let ?s = "''CONNECT '' @ host @ '' '' @ tail" and ?f = "bytes_of (''CONNECT '' @ host @ '' '' @ tail)"
  have "tun_detect (length ?f) (peeked env ?f) = tun_detect (length ?f) ?f"
    unfolding peeked_def by (rule tun_detect_local) simp
  also have "\<dots> = PConnect" using tun_detect_connect [of ?s "'' '' @ host @ '' '' @ tail"] by simp
  finally have "tun_plan (tun_detect (length ?f) (peeked env ?f)) ?f (stream c') =
      Open (default_port '':443'' host) [] [] (\<lambda>_. established) None (stream c')"
    using extractCONNECTHost_request [of "''CONNECT''" host tail] assms(4,5)
    by (simp add: tun_plan_def plan_connect_def Let_def)
  moreover have "?f \<noteq> []" by simp
  ultimately show ?thesis
    using handleTCP_refines [OF assms(1-3)] assms(6)
    by (simp add: plan_outcome_def opened_def send_first_def)
qed

theorem tunnel_serves_connect_witness:
  "dialled (fst (handleTCP (sample_tun []) (fresh_conn [bytes_of ''CONNECT a:80 HTTP/1.1'', [22]] []))) = [''a:80'']"
proof -
  have d: "default_port '':443'' ''a:80'' = ''a:80''" by code_simp
  have "conn_read SmallBufSize (fresh_conn [bytes_of ''CONNECT a:80 HTTP/1.1'', [22]] []) =
      Some (bytes_of (''CONNECT '' @ ''a:80'' @ '' '' @ ''HTTP/1.1''), fresh_conn [[22]] [])"
    by (simp add: conn_read_fresh SmallBufSize_def)
  moreover have "host_colon_port ''a'' 80 = ''a:80''" by code_simp
  ultimately show ?thesis
    using tunnel_serves_connect [of "fresh_conn [bytes_of ''CONNECT a:80 HTTP/1.1'', [22]] []"
        "sample_tun []" "''a:80''" "''HTTP/1.1''" "fresh_conn [[22]] []" sample_target]
      sample_tun_wf [of "[]"] dial_sample d by simp
qed

text \<open>
  A plain HTTP request whose first read ends no earlier than its header field \<^verbatim>\<open>Host\<close> (the first
  line that is one, in any case of letters) is sent, unchanged, to that host (port 80 if it names
  none), followed by the rest of the client's input; the client gets the target's answer.
\<close>

lemma tunnel_serves_http:
  assumes "writable c" and "pool_wf (v_pool env)"
    and "req = str_join crlf (pre @ (key @ host) # post)"
    and "conn_read SmallBufSize c = Some (bytes_of req, c')"
    and "take 4 req \<in> {''GET '', ''POST'', ''PUT '', ''HEAD''}"
    and "\<forall>l\<in>set (pre @ (key @ host) # post). CHR 0x0D \<notin> set l"
    and "\<forall>l\<in>set pre. \<not> host_line l" and "equal_fold key ''host: ''" and "host \<noteq> []"
    and "dial (v_net env) (default_port '':80'' host) = Some t"
    and "writable (t_conn t)"
  shows "dialled (fst (handleTCP env c)) = [default_port '':80'' host] \<and>
    outq (client (fst (handleTCP env c))) = outq c @ stream (t_conn t) \<and>
    (\<exists>u. upstream (fst (handleTCP env c)) = Some u \<and>
       outq u = outq (t_conn t) @ bytes_of req @ stream c')"
proof -
  have len: "4 \<le> length req" using assms(5) by (auto dest!: four_chars)
  have "tun_detect (length (bytes_of req)) (peeked env (bytes_of req)) =
      tun_detect (length (bytes_of req)) (bytes_of req)"
    unfolding peeked_def by (rule tun_detect_local) (simp add: len)
  also have "\<dots> = PHttp" using tun_detect_http [OF assms(5)] by simp
  finally have "tun_plan (tun_detect (length (bytes_of req)) (peeked env (bytes_of req))) (bytes_of req) (stream c') =
      Open (default_port '':80'' host) [] [] (\<lambda>_. []) (Some (bytes_of req)) (stream c')"
    using extractHTTPHost_request [OF assms(6-9)] assms(3,9)
    by (simp add: tun_plan_def plan_http_def Let_def)
  moreover have "bytes_of req \<noteq> []" using len by (auto simp: bytes_of_def)
  ultimately show ?thesis
    using handleTCP_refines [OF assms(1,2,4)] assms(10,11)
    by (auto simp: plan_outcome_def opened_def send_first_def relayed_def)
qed

lemma tunnel_serves_http_witness:
  "dialled (fst (handleTCP (sample_tun []) (fresh_conn
     [bytes_of (str_join crlf [''GET / HTTP/1.0'', ''HOST: a:80'', [], []])] []))) = [''a:80'']"
proof -
  let ?r = "str_join crlf ([''GET / HTTP/1.0''] @ (''HOST: '' @ ''a:80'') # [[], []])"
  have "conn_read SmallBufSize (fresh_conn [bytes_of ?r] []) = Some (bytes_of ?r, fresh_conn [] [])"
    by (rule conn_read_fresh) (simp add: crlf_def SmallBufSize_def)
  moreover have "take 4 ?r \<in> {''GET '', ''POST'', ''PUT '', ''HEAD''}" by simp
  moreover have "default_port '':80'' ''a:80'' = ''a:80''" "host_colon_port ''a'' 80 = ''a:80''"
    "equal_fold ''HOST: '' ''host: ''" "\<not> equal_fold ''GET / '' ''host: ''" by code_simp+
  ultimately show ?thesis
    using tunnel_serves_http [of "fresh_conn [bytes_of ?r] []" "sample_tun []" ?r "[''GET / HTTP/1.0'']"
        "''HOST: ''" "''a:80''" "[[], []]" "fresh_conn [] []" sample_target]
      sample_tun_wf [of "[]"] dial_sample
    by (simp add: host_line_def sample_target_def)
qed

text \<open>
  C18. Reused buffers leak into the detection only below four bytes: from four bytes on the first
  read alone decides the protocol; below, three of the four method names are compared with bytes
  that an earlier connection left in the buffer, so that the same byte \<^verbatim>\<open>P\<close> is a failed connection
  over a fresh buffer and an HTTP request over one that held \<^verbatim>\<open>PUT\<close>.
\<close>

theorem tunnel_detection_stale:
  "(4 \<le> length first \<longrightarrow> tun_detect (length first) (peeked env first) = tun_detect (length first) first) \<and>
   effects (fst (handleTCP (sample_tun []) (fresh_conn [bytes_of ''P''] []))) = [TFailed] \<and>
   effects (fst (handleTCP (sample_tun [bytes_of ''PUT '' @ replicate 4092 0]) (fresh_conn [bytes_of ''P''] []))) = []"
proof (intro conjI impI)
  show "tun_detect (length first) (peeked env first) = tun_detect (length first) first" if "4 \<le> length first"
    unfolding peeked_def using that by (rule tun_detect_local)
  have r: "conn_read SmallBufSize (fresh_conn [bytes_of ''P''] []) = Some (bytes_of ''P'', fresh_conn [] [])"
    by (rule conn_read_fresh) (simp add: SmallBufSize_def)
  have ne: "bytes_of ''P'' \<noteq> []" and one: "length (bytes_of ''P'') = 1" by (simp_all add: bytes_of_def)
  have four: "tun_detect 1 (a # b # d # e # s) = tun_detect 1 [a, b, d, e]" for a b d e s
    by (simp add: tun_detect_def)
  note ref = handleTCP_refines [OF _ _ r ne, unfolded one]
  have "small_buf (sample_tun []) = replicate 4096 0"
    by (simp add: small_buf_def sample_tun_def GetSmall_def pool_small_get_def tier_get_def
        empty_pool_def count_reused_def SmallBufSize_def)
  also have "\<dots> = 0 # 0 # 0 # 0 # replicate 4092 0" by (simp add: numeral_eq_Suc)
  finally have "peeked (sample_tun []) (bytes_of ''P'') = byte_of (CHR ''P'') # 0 # 0 # 0 # replicate 4092 0"
    by (simp add: peeked_def)
  moreover have "tun_detect 1 [byte_of (CHR ''P''), 0, 0, 0] = PUnknown" by code_simp
  ultimately have "tun_detect 1 (peeked (sample_tun []) (bytes_of ''P'')) = PUnknown"
    using four [of "byte_of (CHR ''P'')" 0 0 0 "replicate 4092 0"] by (simp only:)
  then show "effects (fst (handleTCP (sample_tun []) (fresh_conn [bytes_of ''P''] []))) = [TFailed]"
    using ref [of "sample_tun []"] sample_tun_wf [of "[]"]
    by (simp add: tun_plan_def plan_outcome_def)
  let ?bs = "[bytes_of ''PUT '' @ replicate 4092 0]"
  have wf: "pool_wf (v_pool (sample_tun ?bs))" by (rule sample_tun_wf) (simp add: SmallBufSize_def)
  have "small_buf (sample_tun ?bs) = bytes_of ''PUT '' @ replicate 4092 0"
    by (simp add: small_buf_def sample_tun_def GetSmall_def pool_small_get_def tier_get_def
        empty_pool_def count_reused_def)
  then have "peeked (sample_tun ?bs) (bytes_of ''P'') =
      byte_of (CHR ''P'') # byte_of (CHR ''U'') # byte_of (CHR ''T'') # byte_of (CHR '' '') # replicate 4092 0"
    by (simp add: peeked_def)
  moreover have "tun_detect 1 [byte_of (CHR ''P''), byte_of (CHR ''U''), byte_of (CHR ''T''), byte_of (CHR '' '')] = PHttp"
    by code_simp
  ultimately have "tun_detect 1 (peeked (sample_tun ?bs) (bytes_of ''P'')) = PHttp"
    using four [of "byte_of (CHR ''P'')" _ _ _ "replicate 4092 0"] by (simp only:)
  moreover have "plan_http (bytes_of ''P'') s = Quit [] False" for s
  proof -
    have "extractHTTPHost (bytes_of ''P'') = []" by code_simp
    then show ?thesis by (simp add: plan_http_def)
  qed
  ultimately show "effects (fst (handleTCP (sample_tun ?bs) (fresh_conn [bytes_of ''P''] []))) = []"
    using ref [OF _ wf] by (simp add: tun_plan_def plan_outcome_def)
qed

theorem tunnel_detection_stale_witness:
  "tun_detect (length (bytes_of ''POST'')) (peeked (sample_tun []) (bytes_of ''POST'')) = PHttp"
proof -
  have "tun_detect (length (bytes_of ''POST'')) (bytes_of ''POST'') = PHttp" by code_simp
  with tunnel_detection_stale [of "bytes_of ''POST''" "sample_tun []"] show ?thesis by simp
qed

lemma dial_nul:
  assumes "\<forall>host port. CHR 0x00 \<in> set host \<longrightarrow> net host port = None"
  shows "dial net (CHR 0x00 # s) = None"
proof (cases "split_host_port (CHR 0x00 # s)")
  case (Some hp)
  then obtain host port where hp: "split_host_port (CHR 0x00 # s) = Some (host, port)" by (cases hp) auto
  then obtain i where i: "last_index (CHR 0x00 # s) '':'' = Some i" and host: "host = take i (CHR 0x00 # s)"
    unfolding split_host_port_def by (auto split: option.splits if_splits)
  from last_index_single_Some [OF i] have "i \<noteq> 0" by (intro notI) simp
  then have "CHR 0x00 \<in> set host" by (cases i) (simp_all add: host)
  with assms hp show ?thesis by (simp add: dial_def)
qed (simp add: dial_def)

text \<open>
  The raw protocol dials the first 256 bytes of the first read with their two zero bytes in
  front: on a network where no host name contains a zero byte it never connects anywhere.
\<close>

lemma tunnel_raw_never_connects:
  assumes "writable c" and "pool_wf (v_pool env)"
    and "conn_read SmallBufSize c = Some (first, c')"
    and "4 \<le> length first" and "first ! 0 = 0" and "first ! 1 = 0"
    and "\<forall>host port. CHR 0x00 \<in> set host \<longrightarrow> v_net env host port = None"
  shows "dialled (fst (handleTCP env c)) = [str_of (take 256 first)] \<and>
    upstream (fst (handleTCP env c)) = None \<and> outq (client (fst (handleTCP env c))) = outq c \<and>
    effects (fst (handleTCP env c)) = []"
proof -
  obtain a b d e s where f: "first = a # b # d # e # s"
    using assms(4) by (auto simp: Suc_le_length_iff numeral_eq_Suc)
  with assms(5,6) have ab: "a = 0" "b = 0" by simp_all
  have zero: "chr 0 = CHR 0x00" by code_simp
  have "tun_detect (length first) (peeked env first) = tun_detect (length first) first"
    unfolding peeked_def using assms(4) by (rule tun_detect_local)
  also have "\<dots> = PRaw" by (simp add: f ab tun_detect_def zero)
  finally have "tun_plan (tun_detect (length first) (peeked env first)) first (stream c') =
      Open (str_of (take 256 first)) [] [] (\<lambda>_. []) None (stream c')" by (simp add: tun_plan_def)
  moreover have "dial (v_net env) (str_of (take 256 first)) = None"
    using dial_nul [OF assms(7)] by (simp add: f ab zero)
  moreover have "first \<noteq> []" by (simp add: f)
  ultimately show ?thesis
    using handleTCP_refines [OF assms(1-3)] by (simp add: plan_outcome_def)
qed

lemma tunnel_raw_never_connects_witness:
  "upstream (fst (handleTCP (sample_tun []) (fresh_conn [[0, 0, 97, 58, 56, 48]] []))) = None"
proof -
  have "conn_read SmallBufSize (fresh_conn [[0, 0, 97, 58, 56, 48]] []) = Some ([0, 0, 97, 58, 56, 48], fresh_conn [] [])"
    by (rule conn_read_fresh) (simp add: SmallBufSize_def)
  moreover have "\<forall>host port. CHR 0x00 \<in> set host \<longrightarrow> v_net (sample_tun []) host port = None"
    by (auto simp: sample_net_def)
  ultimately show ?thesis
    using tunnel_raw_never_connects [of "fresh_conn [[0, 0, 97, 58, 56, 48]] []" "sample_tun []"
        "[0, 0, 97, 58, 56, 48]" "fresh_conn [] []"] sample_tun_wf [of "[]"]
    by simp
qed

text \<open>
  The success reply of the tunnel has ten bytes exactly when the local address of the connection
  has an IPv4 form; otherwise it is four bytes short, and the client takes the first bytes of the
  target for its end.  A reply of ten bytes is that of the SOCKS5 server only when the client asked
  for the very port that the connection has at the proxy.
\<close>

lemma tunnel_reply_short:
  assumes "port < 65536" and "t_local_port t < 65536"
  shows "if to4 (t_local_ip t) = None then length (tun_reply port t) = 6
    else length (tun_reply port t) = 10 \<and> (tun_reply port t = socks_reply t \<longleftrightarrow> port = t_local_port t)"
proof -
  have "put_be16 port = put_be16 (t_local_port t) \<longleftrightarrow> port = t_local_port t"
    using be16_put_be16 [OF assms(1)] be16_put_be16 [OF assms(2)]
    unfolding put_be16_def by (metis list.inject)
  with assms(2) to4_length [of "t_local_ip t"] show ?thesis
    by (cases "to4 (t_local_ip t)") (simp_all add: tun_reply_def socks_reply_def)
qed

lemma tunnel_reply_short_witness:
  "length (tun_reply 80 \<lparr>t_conn = fresh_conn [] [], t_local_ip = replicate 15 0 @ [1], t_local_port = 4000\<rparr>) = 6 \<and>
   tun_reply 80 sample_target \<noteq> socks_reply sample_target"
proof -
  have "to4 (replicate 15 0 @ [1]) = None" "to4 [10, 0, 0, 7] = Some [10, 0, 0, 7]" by code_simp+
  then show ?thesis
    using tunnel_reply_short [of 80 "\<lparr>t_conn = fresh_conn [] [], t_local_ip = replicate 15 0 @ [1], t_local_port = 4000\<rparr>"]
      tunnel_reply_short [of 80 sample_target]
    by (simp add: sample_target_def)
qed

text \<open>
  A SOCKS5 greeting (with at least one method) that arrives in two pieces is dropped without
  an answer and without being counted as failed; and what arrives in one piece with a complete
  greeting is lost: the handler goes on as if it had not been sent.
\<close>

lemma tunnel_greeting_in_one_piece:
  assumes "writable c" and "pool_wf (v_pool env)"
    and "conn_read SmallBufSize c = Some (first, c')" and "first \<noteq> []" and "first ! 0 = 5"
    and "1 < length first \<longrightarrow> first ! 1 \<noteq> 0"
  shows "if length first < 2 \<or> length first < 2 + unat (first ! 1)
    then outq (client (fst (handleTCP env c))) = outq c \<and> dialled (fst (handleTCP env c)) = [] \<and>
      effects (fst (handleTCP env c)) = []
    else plan_outcome env (outq c) (plan_socks (take (2 + unat (first ! 1)) first) (stream c'))
      (fst (handleTCP env c))"
proof -
  have "peeked env first ! 0 = first ! 0" using assms(4) by (simp add: peeked_def nth_append)
  then have "tun_detect (length first) (peeked env first) = PSocks"
    using assms(4,5) by (simp add: tun_detect_def)
  then have p: "plan_outcome env (outq c) (plan_socks first (stream c')) (fst (handleTCP env c))"
    using handleTCP_refines [OF assms(1-4)] by (simp add: tun_plan_def)
  define n where "n = unat (first ! 1)"
  show ?thesis
  proof (cases "length first < 2 \<or> length first < 2 + n")
    case True
    then have "length first < 3 \<or> length first < 2 + n" by linarith
    then have "plan_socks first (stream c') = Quit [] False" unfolding plan_socks_alt n_def by argo
    with p True show ?thesis by (simp add: plan_outcome_def n_def)
  next
    case False
    then have "n \<noteq> 0" using assms(6) by (simp add: n_def unat_eq_zero)
    then have "plan_socks (take (2 + n) first) s = plan_socks first s" for s
      using False by (simp add: plan_socks_alt n_def)
    with p False show ?thesis by (simp add: n_def)
  qed
qed

lemma tunnel_greeting_in_one_piece_witness:
  "outq (client (fst (handleTCP (sample_tun []) (fresh_conn [[5, 2, 0], [1]] [])))) = []"
proof -
  have "conn_read SmallBufSize (fresh_conn [[5, 2, 0], [1]] []) = Some ([5, 2, 0], fresh_conn [[1]] [])"
    by (rule conn_read_fresh) (simp add: SmallBufSize_def)
  then show ?thesis
    using tunnel_greeting_in_one_piece [of "fresh_conn [[5, 2, 0], [1]] []" "sample_tun []" "[5, 2, 0]"
        "fresh_conn [[1]] []"] sample_tun_wf [of "[]"]
    by simp
qed

end
