(* ===== verification/Tunnel_Server.thy ===== *)
theory Tunnel_Server
  imports Tunnel_Handlers
begin

text \<open>
  \<^verbatim>\<open>internal/tunnel/tunnel.go\<close>, the server around the handlers: its record and statistics,
  \<^verbatim>\<open>SetMaxConns\<close>, \<^verbatim>\<open>GetStats\<close>, the admission in \<^verbatim>\<open>startTCP\<close> and the release, as a system of running
  handlers.
\<close>

section \<open>State\<close>

text \<open>The fields \<^verbatim>\<open>BytesInPrev\<close>, \<^verbatim>\<open>BytesOutPrev\<close> and \<^verbatim>\<open>LastCalcTime\<close> of \<^verbatim>\<open>Stats\<close> are never used.\<close>

record tun_stats =
  tn_bytes_in :: i64
  tn_bytes_out :: i64
  tn_conns_total :: i64
  tn_conns_rejected :: i64
  tn_conns_failed :: i64
  tn_start_time :: i64
  tn_throughput_in :: rat
  tn_throughput_out :: rat
  tn_tcp_accepts :: i64
  tn_udp_packets :: i64
  tn_conns_active :: i32
  tn_mem_alloc :: "32 word"
  tn_mem_sys :: "32 word"
  tn_num_goroutine :: i64

record tun_server =
  tn_tcp_addr :: string
  tn_udp_addr :: string
  tn_stats :: tun_stats
  tn_last_in :: i64
  tn_last_out :: i64
  tn_last_time :: int
  tn_max_conns :: i32
  tn_sem :: nat          \<comment> \<open>values in the channel \<open>connSem\<close>\<close>
  tn_slots :: nat        \<comment> \<open>its capacity\<close>

definition zero_tun_stats :: tun_stats where
  "zero_tun_stats = \<lparr>tn_bytes_in = 0, tn_bytes_out = 0, tn_conns_total = 0, tn_conns_rejected = 0,
     tn_conns_failed = 0, tn_start_time = 0, tn_throughput_in = 0, tn_throughput_out = 0,
     tn_tcp_accepts = 0, tn_udp_packets = 0, tn_conns_active = 0, tn_mem_alloc = 0, tn_mem_sys = 0,
     tn_num_goroutine = 0\<rparr>"

definition NewServer :: "string \<Rightarrow> string \<Rightarrow> int \<Rightarrow> tun_server" where
  "NewServer tcp udp now = \<lparr>tn_tcp_addr = tcp, tn_udp_addr = udp,
     tn_stats = zero_tun_stats\<lparr>tn_start_time := word_of_int (now div 1000000000)\<rparr>,
     tn_last_in = 0, tn_last_out = 0, tn_last_time = now, tn_max_conns = 4096, tn_sem = 0,
     tn_slots = 4096\<rparr>"

text \<open>\<^verbatim>\<open>make(chan struct{}, max)\<close> panics for a negative size: \<^const>\<open>None\<close>.\<close>

definition tun_SetMaxConns :: "i32 \<Rightarrow> tun_server \<Rightarrow> tun_server option" where
  "tun_SetMaxConns m s =
     (if sint m < 0 then None
      else Some (s\<lparr>tn_max_conns := m, tn_sem := 0, tn_slots := nat (sint m)\<rparr>))"

text \<open>
  \<^verbatim>\<open>GetStats\<close>, in its steps on the shared server: \<^verbatim>\<open>mu\<close> is held for reading only and keeps no other
  call out.  The three figures of the runtime are written in one step and the result is read in
  one; \<open>lastTime\<close> is read and written whole.
\<close>

fun tun_poll_step ::
  "int \<Rightarrow> mem_stats \<Rightarrow> poll_pc \<Rightarrow> tun_server \<Rightarrow> poll_pc \<times> tun_server \<times> tun_stats option" where
  "tun_poll_step now m GsIdle s =
     (let elapsed = now - tn_last_time s
      in (if 500000000 \<le> elapsed then GsLoadIn now elapsed else GsMem, s, None))"
| "tun_poll_step now m (GsLoadIn t elapsed) s =
     (GsLoadOut t elapsed (tn_bytes_in (tn_stats s)), s, None)"
| "tun_poll_step now m (GsLoadOut t elapsed i) s =
     (GsRateIn t elapsed i (tn_bytes_out (tn_stats s)), s, None)"
| "tun_poll_step now m (GsRateIn t elapsed i ot) s =
     (GsRateOut t elapsed i ot,
      s\<lparr>tn_stats := (tn_stats s)\<lparr>tn_throughput_in := mbps (i - tn_last_in s) elapsed\<rparr>\<rparr>, None)"
| "tun_poll_step now m (GsRateOut t elapsed i ot) s =
     (GsPrevIn t i ot,
      s\<lparr>tn_stats := (tn_stats s)\<lparr>tn_throughput_out := mbps (ot - tn_last_out s) elapsed\<rparr>\<rparr>, None)"
| "tun_poll_step now m (GsPrevIn t i ot) s = (GsPrevOut t ot, s\<lparr>tn_last_in := i\<rparr>, None)"
| "tun_poll_step now m (GsPrevOut t ot) s = (GsLast t, s\<lparr>tn_last_out := ot\<rparr>, None)"
| "tun_poll_step now m (GsLast t) s = (GsMem, s\<lparr>tn_last_time := t\<rparr>, None)"
| "tun_poll_step now m GsMem s =
     (GsReturn, s\<lparr>tn_stats := (tn_stats s)\<lparr>tn_mem_alloc := mem_mb (m_alloc m),
        tn_mem_sys := mem_mb (m_sys m), tn_num_goroutine := m_goroutines m\<rparr>\<rparr>, None)"
| "tun_poll_step now m GsReturn s = (GsIdle, s, Some (tn_stats s))"

text \<open>
  A call that no other call overlaps, with the clock and the runtime read once
  (\<open>tun_GetStats_solo\<close> shows it is the steps above, one after the other).
\<close>

definition tun_GetStats :: "int \<Rightarrow> mem_stats \<Rightarrow> tun_server \<Rightarrow> tun_stats \<times> tun_server" where
  "tun_GetStats now m s =
     (let elapsed = now - tn_last_time s;
          st = tn_stats s;
          s = (if 500000000 \<le> elapsed then
                 s\<lparr>tn_stats := st\<lparr>
                     tn_throughput_in := mbps (tn_bytes_in st - tn_last_in s) elapsed,
                     tn_throughput_out := mbps (tn_bytes_out st - tn_last_out s) elapsed\<rparr>,
                   tn_last_in := tn_bytes_in st,
                   tn_last_out := tn_bytes_out st,
                   tn_last_time := now\<rparr>
               else s);
          s = s\<lparr>tn_stats := (tn_stats s)\<lparr>tn_mem_alloc := mem_mb (m_alloc m),
                  tn_mem_sys := mem_mb (m_sys m), tn_num_goroutine := m_goroutines m\<rparr>\<rparr>
      in (tn_stats s, s))"

lemma tun_GetStats_solo: "solo (tun_poll_step now m) 10 GsIdle s = Some (tun_GetStats now m s)"
  by (simp add: eval_nat_numeral tun_GetStats_def Let_def)

text \<open>No step of a call writes a counter or the semaphore.\<close>

lemma tun_poll_frame:
  "tn_bytes_in (tn_stats (fst (snd (tun_poll_step now m pc s)))) = tn_bytes_in (tn_stats s)"
  "tn_bytes_out (tn_stats (fst (snd (tun_poll_step now m pc s)))) = tn_bytes_out (tn_stats s)"
  "tn_conns_active (tn_stats (fst (snd (tun_poll_step now m pc s)))) = tn_conns_active (tn_stats s)"
  "tn_conns_total (tn_stats (fst (snd (tun_poll_step now m pc s)))) = tn_conns_total (tn_stats s)"
  "tn_conns_failed (tn_stats (fst (snd (tun_poll_step now m pc s)))) = tn_conns_failed (tn_stats s)"
  "tn_conns_rejected (tn_stats (fst (snd (tun_poll_step now m pc s)))) = tn_conns_rejected (tn_stats s)"
  "tn_tcp_accepts (tn_stats (fst (snd (tun_poll_step now m pc s)))) = tn_tcp_accepts (tn_stats s)"
  "tn_udp_packets (tn_stats (fst (snd (tun_poll_step now m pc s)))) = tn_udp_packets (tn_stats s)"
  "tn_sem (fst (snd (tun_poll_step now m pc s))) = tn_sem s"
  "tn_slots (fst (snd (tun_poll_step now m pc s))) = tn_slots s"
  by (cases pc; simp add: Let_def)+

section \<open>Admission, release and the handlers' effects\<close>

definition tun_admit :: "tun_server \<Rightarrow> bool \<times> tun_server" where
  "tun_admit s =
     (let st = tn_stats s in
      if tn_sem s < tn_slots s then
        (True, s\<lparr>tn_sem := tn_sem s + 1,
           tn_stats := st\<lparr>tn_conns_active := tn_conns_active st + 1,
                          tn_conns_total := tn_conns_total st + 1,
                          tn_tcp_accepts := tn_tcp_accepts st + 1\<rparr>\<rparr>)
      else (False, s\<lparr>tn_stats := st\<lparr>tn_conns_rejected := tn_conns_rejected st + 1\<rparr>\<rparr>))"

definition tun_release :: "tun_server \<Rightarrow> tun_server" where
  "tun_release s =
     s\<lparr>tn_sem := tn_sem s - 1,
       tn_stats := (tn_stats s)\<lparr>tn_conns_active := tn_conns_active (tn_stats s) - 1\<rparr>\<rparr>"

fun tun_act :: "tun_effect \<Rightarrow> tun_server \<Rightarrow> tun_server" where
  "tun_act TFailed s =
     s\<lparr>tn_stats := (tn_stats s)\<lparr>tn_conns_failed := tn_conns_failed (tn_stats s) + 1\<rparr>\<rparr>"
| "tun_act (TBytesIn n) s =
     s\<lparr>tn_stats := (tn_stats s)\<lparr>tn_bytes_in := tn_bytes_in (tn_stats s) + of_nat n\<rparr>\<rparr>"
| "tun_act (TBytesOut n) s =
     s\<lparr>tn_stats := (tn_stats s)\<lparr>tn_bytes_out := tn_bytes_out (tn_stats s) + of_nat n\<rparr>\<rparr>"

section \<open>The server as a system\<close>

definition tun_effects :: "tun_env \<times> conn \<Rightarrow> tun_effect list" where
  "tun_effects ec = effects (fst (handleTCP (fst ec) (snd ec)))"

definition tun_run ::
  "(tun_env \<times> conn) event list \<Rightarrow> tun_server \<Rightarrow> (tun_server, tun_effect, tun_env \<times> conn) system" where
  "tun_run evs s = sys_run tun_admit tun_release tun_act tun_effects evs (sys_start s)"

fun tun_failed :: "tun_effect \<Rightarrow> i64" where
  "tun_failed TFailed = 1"
| "tun_failed _ = 0"

fun tun_in :: "tun_effect \<Rightarrow> i64" where
  "tun_in (TBytesIn n) = of_nat n"
| "tun_in _ = 0"

fun tun_out :: "tun_effect \<Rightarrow> i64" where
  "tun_out (TBytesOut n) = of_nat n"
| "tun_out _ = 0"

lemma tun_act_frame [simp]:
  "tn_sem (tun_act e s) = tn_sem s" "tn_slots (tun_act e s) = tn_slots s"
  "tn_conns_active (tn_stats (tun_act e s)) = tn_conns_active (tn_stats s)"
  "tn_conns_total (tn_stats (tun_act e s)) = tn_conns_total (tn_stats s)"
  "tn_conns_rejected (tn_stats (tun_act e s)) = tn_conns_rejected (tn_stats s)"
  "tn_tcp_accepts (tn_stats (tun_act e s)) = tn_tcp_accepts (tn_stats s)"
  by (cases e; simp)+

lemma tun_gate:
  "slot_gate tun_admit tun_release tun_act tn_sem tn_slots
     (\<lambda>s. tn_conns_active (tn_stats s)) (\<lambda>s. tn_conns_total (tn_stats s)) (\<lambda>s. tn_conns_rejected (tn_stats s))"
  by unfold_locales (simp_all add: tun_admit_def tun_release_def Let_def)

interpretation tgate: slot_gate tun_admit tun_release tun_act tn_sem tn_slots
  "\<lambda>s. tn_conns_active (tn_stats s)" "\<lambda>s. tn_conns_total (tn_stats s)" "\<lambda>s. tn_conns_rejected (tn_stats s)"
  by (rule tun_gate)

lemma tun_counted:
  assumes "\<And>s. counter (snd (tun_admit s)) = counter s"
    and "\<And>s. counter (tun_release s) = counter s"
    and "\<And>e s. counter (tun_act e s) = counter s + amount e"
  shows "counted_gate tun_admit tun_release tun_act tn_sem tn_slots
     (\<lambda>s. tn_conns_active (tn_stats s)) (\<lambda>s. tn_conns_total (tn_stats s)) (\<lambda>s. tn_conns_rejected (tn_stats s))
     counter amount"
  using tun_gate assms by (simp add: counted_gate_def counted_gate_axioms_def)

lemma tun_act_counters:
  "tn_conns_failed (tn_stats (tun_act e s)) = tn_conns_failed (tn_stats s) + tun_failed e"
  "tn_bytes_in (tn_stats (tun_act e s)) = tn_bytes_in (tn_stats s) + tun_in e"
  "tn_bytes_out (tn_stats (tun_act e s)) = tn_bytes_out (tn_stats s) + tun_out e"
  by (cases e; simp)+

interpretation tfailed: counted_gate tun_admit tun_release tun_act tn_sem tn_slots
  "\<lambda>s. tn_conns_active (tn_stats s)" "\<lambda>s. tn_conns_total (tn_stats s)" "\<lambda>s. tn_conns_rejected (tn_stats s)"
  "\<lambda>s. tn_conns_failed (tn_stats s)" tun_failed
  by (rule tun_counted) (simp_all add: tun_admit_def tun_release_def Let_def tun_act_counters)

interpretation tbytesin: counted_gate tun_admit tun_release tun_act tn_sem tn_slots
  "\<lambda>s. tn_conns_active (tn_stats s)" "\<lambda>s. tn_conns_total (tn_stats s)" "\<lambda>s. tn_conns_rejected (tn_stats s)"
  "\<lambda>s. tn_bytes_in (tn_stats s)" tun_in
  by (rule tun_counted) (simp_all add: tun_admit_def tun_release_def Let_def tun_act_counters)

interpretation tbytesout: counted_gate tun_admit tun_release tun_act tn_sem tn_slots
  "\<lambda>s. tn_conns_active (tn_stats s)" "\<lambda>s. tn_conns_total (tn_stats s)" "\<lambda>s. tn_conns_rejected (tn_stats s)"
  "\<lambda>s. tn_bytes_out (tn_stats s)" tun_out
  by (rule tun_counted) (simp_all add: tun_admit_def tun_release_def Let_def tun_act_counters)

text \<open>\<^verbatim>\<open>TCPAccepts\<close> and \<^verbatim>\<open>ConnsTotal\<close> move together.\<close>

lemma tun_accepts_step:
  "tn_tcp_accepts (tn_stats (server (sys_step tun_admit tun_release tun_act handler ev S))) -
     tn_conns_total (tn_stats (server (sys_step tun_admit tun_release tun_act handler ev S))) =
   tn_tcp_accepts (tn_stats (server S)) - tn_conns_total (tn_stats (server S))"
  by (cases ev) (auto simp: tun_admit_def tun_release_def Let_def split: list.split)

lemma tun_accepts_run:
  "tn_tcp_accepts (tn_stats (server (tun_run evs s))) - tn_conns_total (tn_stats (server (tun_run evs s))) =
   tn_tcp_accepts (tn_stats s) - tn_conns_total (tn_stats s)"
proof -
  have "tn_tcp_accepts (tn_stats (server (fold (sys_step tun_admit tun_release tun_act tun_effects) evs S))) -
      tn_conns_total (tn_stats (server (fold (sys_step tun_admit tun_release tun_act tun_effects) evs S))) =
    tn_tcp_accepts (tn_stats (server S)) - tn_conns_total (tn_stats (server S))" for S
    by (induction evs arbitrary: S) (simp_all add: tun_accepts_step)
  then show ?thesis by (simp add: tun_run_def sys_run_def sys_start_def)
qed

section \<open>Throughput\<close>

definition tun_win :: "tun_server \<Rightarrow> windows" where
  "tun_win s = \<lparr>w_in = tn_bytes_in (tn_stats s), w_out = tn_bytes_out (tn_stats s),
     w_prev_in = tn_last_in s, w_prev_out = tn_last_out s,
     w_rate_in = tn_throughput_in (tn_stats s), w_rate_out = tn_throughput_out (tn_stats s),
     w_last = tn_last_time s\<rparr>"

text \<open>The server under callers of \<^verbatim>\<open>GetStats\<close> and handlers that count bytes, in any order.\<close>

definition tun_poll_act :: "poll_event \<Rightarrow> tun_server polled \<Rightarrow> tun_server polled" where
  "tun_poll_act = poll_act tun_poll_step (\<lambda>n. tun_act (TBytesIn n)) (\<lambda>n. tun_act (TBytesOut n)) tun_win"

definition tun_polled :: "poll_event list \<Rightarrow> nat \<Rightarrow> tun_server \<Rightarrow> tun_server polled" where
  "tun_polled evs n s = fold tun_poll_act evs (polled_by n s)"

lemma tun_step_win:
  "(fst (tun_poll_step now m pc s), tun_win (fst (snd (tun_poll_step now m pc s)))) =
   window_step now pc (tun_win s)"
  by (cases pc) (simp_all add: tun_win_def Let_def)

interpretation twin: window_server tun_poll_step "\<lambda>n. tun_act (TBytesIn n)"
  "\<lambda>n. tun_act (TBytesOut n)" tun_win
  by unfold_locales (rule tun_step_win, simp_all add: tun_win_def)

lemma tun_polled_windows:
  "twin.windows_of (tun_polled evs n s) = fold window_act evs (polled_by n (tun_win s))"
  using twin.windows_of_run [of evs "polled_by n s"]
  by (simp add: tun_polled_def tun_poll_act_def twin.windows_of_def polled_by_def)

section \<open>Properties\<close>

text \<open>
  In every interleaving of arrivals, effects and endings, from a server whose limit was set to
  \<open>m\<close>: never more than \<open>m\<close> TCP handlers run, the semaphore and \<open>ConnsActive\<close> count them exactly, and
  every arrival was counted once, as accepted (in both counters of it) or as rejected.
\<close>

lemma tunnel_connection_limit:
  assumes "tun_SetMaxConns m (NewServer tcp udp now) = Some s"
  shows "length (running (tun_run evs s)) \<le> nat (sint m) \<and>
    tn_sem (server (tun_run evs s)) = length (running (tun_run evs s)) \<and>
    tn_conns_active (tn_stats (server (tun_run evs s))) = of_nat (length (running (tun_run evs s))) \<and>
    tn_conns_total (tn_stats (server (tun_run evs s))) = of_nat (length (served (tun_run evs s))) \<and>
    tn_tcp_accepts (tn_stats (server (tun_run evs s))) = of_nat (length (served (tun_run evs s))) \<and>
    tn_conns_rejected (tn_stats (server (tun_run evs s))) + of_nat (length (served (tun_run evs s)))
      = of_nat (arrivals evs)"
proof -
  have s: "tn_sem s = 0" "tn_slots s = nat (sint m)" "tn_conns_active (tn_stats s) = 0"
    "tn_conns_total (tn_stats s) = 0" "tn_conns_rejected (tn_stats s) = 0" "tn_tcp_accepts (tn_stats s) = 0"
    using assms by (auto simp: tun_SetMaxConns_def NewServer_def zero_tun_stats_def split: if_splits)
  from tgate.gate_run [OF s(1), of evs tun_effects] s tun_accepts_run [of evs s] show ?thesis
    by (simp add: tgate.gate_inv_def tun_run_def)
qed

lemma tunnel_connection_limit_witness:
  "length (running (tun_run [Arrive (sample_tun [], fresh_conn [] []), Arrive (sample_tun [], fresh_conn [] [])]
     (the (tun_SetMaxConns 1 (NewServer ''x'' ''y'' 0))))) \<le> 1"
  using tunnel_connection_limit [of 1 "''x''" "''y''" 0 "the (tun_SetMaxConns 1 (NewServer ''x'' ''y'' 0))"
      "[Arrive (sample_tun [], fresh_conn [] []), Arrive (sample_tun [], fresh_conn [] [])]"]
  by (simp add: tun_SetMaxConns_def)

text \<open>
  C17. Once all TCP handlers have ended, each counter is the sum of what the handlers of the
  connections served did, in every interleaving.
\<close>

theorem tunnel_counters_sum:
  assumes "running (tun_run evs s) = []"
  shows "tn_bytes_in (tn_stats (server (tun_run evs s))) = tn_bytes_in (tn_stats s) +
      sum_list (map (\<lambda>c. sum_list (map tun_in (tun_effects c))) (served (tun_run evs s))) \<and>
    tn_bytes_out (tn_stats (server (tun_run evs s))) = tn_bytes_out (tn_stats s) +
      sum_list (map (\<lambda>c. sum_list (map tun_out (tun_effects c))) (served (tun_run evs s))) \<and>
    tn_conns_failed (tn_stats (server (tun_run evs s))) = tn_conns_failed (tn_stats s) +
      sum_list (map (\<lambda>c. sum_list (map tun_failed (tun_effects c))) (served (tun_run evs s)))"
  using assms tbytesin.count_quiescent [of tun_effects evs s] tbytesout.count_quiescent [of tun_effects evs s]
    tfailed.count_quiescent [of tun_effects evs s]
  unfolding tun_run_def by blast

theorem tunnel_counters_sum_witness:
  "tn_conns_failed (tn_stats (server (tun_run
     [Arrive (sample_tun [], fresh_conn [[1, 2, 3, 4]] []), Effect 0, Finish 0] (NewServer ''x'' ''y'' 0)))) = 1"
proof -
  let ?c = "(sample_tun [], fresh_conn [[1, 2, 3, 4]] [])"
  let ?R = "tun_run [Arrive ?c, Effect 0, Finish 0] (NewServer ''x'' ''y'' 0)"
  have r: "conn_read SmallBufSize (snd ?c) = Some ([1, 2, 3, 4], fresh_conn [] [])"
    by (simp add: conn_read_fresh SmallBufSize_def)
  have "tun_detect (length [1, 2, 3, 4 :: byte]) (peeked (fst ?c) [1, 2, 3, 4]) =
      tun_detect (length [1, 2, 3, 4 :: byte]) [1, 2, 3, 4]"
    unfolding peeked_def by (rule tun_detect_local) simp
  moreover have "tun_detect (length [1, 2, 3, 4 :: byte]) [1, 2, 3, 4] = PUnknown" by code_simp
  ultimately have e: "tun_effects ?c = [TFailed]"
    using handleTCP_refines [OF _ _ r, of "sample_tun []"] sample_tun_wf [of "[]"]
    by (simp add: tun_effects_def tun_plan_def plan_outcome_def)
  have "running ?R = []" and "served ?R = [?c]"
    by (simp_all add: tun_run_def sys_run_def sys_start_def tun_admit_def NewServer_def remove_nth_def e)
  with tunnel_counters_sum [of "[Arrive ?c, Effect 0, Finish 0]" "NewServer ''x'' ''y'' 0"] e
  show ?thesis by (simp add: NewServer_def zero_tun_stats_def)
qed

text \<open>
  The tunnel's throughput windows lose and repeat no byte, either, as long as no two calls of
  \<^verbatim>\<open>GetStats\<close> overlap; two that do measure every byte twice.
\<close>

lemma tunnel_throughput_windows:
  assumes "apart tun_poll_act evs (polled_by n (NewServer tcp udp t0))"
    and "list_all ((=) GsIdle) (pl_pcs (tun_polled evs n (NewServer tcp udp t0)))"
    and "counted_in evs < 2 ^ 63" and "counted_out evs < 2 ^ 63"
  shows "pl_in (tun_polled evs n (NewServer tcp udp t0)) +
      of_int (sint (tn_bytes_in (tn_stats (pl_srv (tun_polled evs n (NewServer tcp udp t0)))) -
        tn_last_in (pl_srv (tun_polled evs n (NewServer tcp udp t0))))) = of_nat (counted_in evs) \<and>
    pl_out (tun_polled evs n (NewServer tcp udp t0)) +
      of_int (sint (tn_bytes_out (tn_stats (pl_srv (tun_polled evs n (NewServer tcp udp t0)))) -
        tn_last_out (pl_srv (tun_polled evs n (NewServer tcp udp t0))))) = of_nat (counted_out evs)"
  using twin.windows_exact [of "NewServer tcp udp t0" evs n] assms
  by (simp add: tun_polled_def tun_poll_act_def NewServer_def zero_tun_stats_def tun_win_def)

lemma tunnel_throughput_overlap:
  assumes "500000000 \<le> t1 - t0" and "500000000 \<le> t2 - t0" and "i \<le> 5" and "k < 2 ^ 63" and "l < 2 ^ 63"
  shows "pl_in (tun_polled ([CountIn k, CountOut l] @ overlap t1 t2 m i) 2 (NewServer tcp udp t0)) = 2 * of_nat k \<and>
    pl_out (tun_polled ([CountIn k, CountOut l] @ overlap t1 t2 m i) 2 (NewServer tcp udp t0)) = 2 * of_nat l"
proof -
  let ?s = "NewServer tcp udp t0" and ?evs = "[CountIn k, CountOut l] @ overlap t1 t2 m i"
  have w: "w_in (tun_win ?s) = w_prev_in (tun_win ?s)" "w_out (tun_win ?s) = w_prev_out (tun_win ?s)"
    "w_last (tun_win ?s) = t0"
    by (simp_all add: tun_win_def NewServer_def zero_tun_stats_def)
  have "pl_in (tun_polled ?evs 2 ?s) = pl_in (fold window_act ?evs (polled_by 2 (tun_win ?s)))"
    "pl_out (tun_polled ?evs 2 ?s) = pl_out (fold window_act ?evs (polled_by 2 (tun_win ?s)))"
    by (simp_all only: tun_polled_windows [symmetric]) (simp_all add: twin.windows_of_def)
  with window_overlap [OF w(1,2), of t1 t2 i k l m] assms w(3) show ?thesis by (simp only:)
qed

end
