(* ===== verification/Udp_Tunnel.thy ===== *)
theory Udp_Tunnel
  imports Tunnel_Server
begin

text \<open>
  \<^verbatim>\<open>internal/tunnel/tunnel.go\<close>, the UDP side: the main loop of \<^verbatim>\<open>startUDP\<close>, the reaper that ticks every
  30 seconds, and the reader \<^verbatim>\<open>handleUDPSession\<close> of each session, over the shared map of sessions.
  Each goroutine's work between two points where another can intervene is one event, so a run is any
  interleaving.  Sessions are numbered in the order in which they are made; the map refers to them by
  number, as the code's map refers to them by pointer.  Times are in seconds.
\<close>

section \<open>State\<close>

record udp_session =
  us_key :: string             \<comment> \<open>\<open>remoteAddr\<close>, the key in the map\<close>
  us_last :: int               \<comment> \<open>\<open>lastActivity\<close>\<close>
  us_open :: bool              \<comment> \<open>the connection to the target is open\<close>
  us_reader :: bool            \<comment> \<open>the goroutine \<open>handleUDPSession\<close> has not returned\<close>
  us_deadline :: "int option"  \<comment> \<open>its read deadline, once it runs\<close>
  us_sent :: "byte list list"  \<comment> \<open>datagrams written to the target\<close>

record udp_state =
  u_server :: tun_server
  u_map :: "(string \<times> nat) list"
  u_sess :: "udp_session list"
  u_pending :: "(string \<times> byte list \<times> nat option) option" \<comment> \<open>the main loop between its lookup and its send\<close>
  u_replies :: "(string \<times> byte list) list"   \<comment> \<open>datagrams sent to clients\<close>
  u_received :: "(string \<times> byte list) list"  \<comment> \<open>datagrams received from clients (history)\<close>
  u_reaped :: nat                             \<comment> \<open>sessions closed by the reaper (history)\<close>

definition udp_start :: "tun_server \<Rightarrow> udp_state" where
  "udp_start s = \<lparr>u_server = s, u_map = [], u_sess = [], u_pending = None, u_replies = [],
     u_received = [], u_reaped = 0\<rparr>"

definition on_stats :: "(tun_stats \<Rightarrow> tun_stats) \<Rightarrow> udp_state \<Rightarrow> udp_state" where
  "on_stats f s = s\<lparr>u_server := (u_server s)\<lparr>tn_stats := f (tn_stats (u_server s))\<rparr>\<rparr>"

definition add_active :: "i32 \<Rightarrow> tun_stats \<Rightarrow> tun_stats" where
  "add_active n st = st\<lparr>tn_conns_active := tn_conns_active st + n\<rparr>"

definition add_out :: "nat \<Rightarrow> tun_stats \<Rightarrow> tun_stats" where
  "add_out n st = st\<lparr>tn_bytes_out := tn_bytes_out st + of_nat n\<rparr>"

definition on_session :: "nat \<Rightarrow> (udp_session \<Rightarrow> udp_session) \<Rightarrow> udp_state \<Rightarrow> udp_state" where
  "on_session i f s = s\<lparr>u_sess := (u_sess s)[i := f (u_sess s ! i)]\<rparr>"

section \<open>The steps\<close>

datatype udp_event =
    UPacket string "byte list"     \<comment> \<open>the main loop receives a datagram and looks its sender up\<close>
  | UForward bool int              \<comment> \<open>the main loop sends it on; whether \<open>DialUDP\<close> would succeed, and the time\<close>
  | UStart nat int                 \<comment> \<open>a session's reader sets its first deadline\<close>
  | UReply nat "byte list" int     \<comment> \<open>a session's reader reads a datagram from the target\<close>
  | UError nat                     \<comment> \<open>a session's read fails: deadline, closed connection or network\<close>
  | UTick int                      \<comment> \<open>the reaper ticks\<close>

text \<open>Lines 468 to 473.\<close>

definition udp_packet :: "string \<Rightarrow> byte list \<Rightarrow> udp_state \<Rightarrow> udp_state" where
  "udp_packet key p s =
     (case u_pending s of
        Some _ \<Rightarrow> s
      | None \<Rightarrow>
          (on_stats (\<lambda>st. st\<lparr>tn_udp_packets := tn_udp_packets st + 1\<rparr>) s)
            \<lparr>u_pending := Some (key, p, map_of (u_map s) key), u_received := u_received s @ [(key, p)]\<rparr>)"

text \<open>Lines 475 to 480: a write to a closed connection fails, the error is ignored, the bytes are counted.\<close>

definition udp_send :: "nat \<Rightarrow> byte list \<Rightarrow> int \<Rightarrow> udp_state \<Rightarrow> udp_state" where
  "udp_send i p now s =
     on_stats (add_out (length p))
       (on_session i (\<lambda>x. x\<lparr>us_last := now, us_sent := us_sent x @ (if us_open x then [p] else [])\<rparr>) s)"

text \<open>Lines 482 to 503: a new session.\<close>

definition udp_open :: "string \<Rightarrow> byte list \<Rightarrow> int \<Rightarrow> udp_state \<Rightarrow> udp_state" where
  "udp_open key p now s =
     on_stats (\<lambda>st. (add_active 1 (add_out (length p) st))\<lparr>tn_conns_total := tn_conns_total st + 1\<rparr>)
       (s\<lparr>u_sess := u_sess s @ [\<lparr>us_key = key, us_last = now, us_open = True, us_reader = True,
                                us_deadline = None, us_sent = [p]\<rparr>],
          u_map := (key, length (u_sess s)) # filter (\<lambda>(k, _). k \<noteq> key) (u_map s)\<rparr>)"

definition udp_forward :: "bool \<Rightarrow> int \<Rightarrow> udp_state \<Rightarrow> udp_state" where
  "udp_forward dial_ok now s =
     (case u_pending s of
        None \<Rightarrow> s
      | Some (key, p, Some i) \<Rightarrow> (udp_send i p now s)\<lparr>u_pending := None\<rparr>
      | Some (key, p, None) \<Rightarrow>
          (if dial_ok then udp_open key p now s else s)\<lparr>u_pending := None\<rparr>)"

text \<open>Lines 523 to 537: the reader, with its deadline two minutes ahead.\<close>

definition udp_begin :: "nat \<Rightarrow> int \<Rightarrow> udp_state \<Rightarrow> udp_state" where
  "udp_begin i now s =
     (if i < length (u_sess s) \<and> us_reader (u_sess s ! i) \<and> us_deadline (u_sess s ! i) = None
      then on_session i (\<lambda>x. x\<lparr>us_deadline := Some (now + 120)\<rparr>) s else s)"

definition udp_reply :: "nat \<Rightarrow> byte list \<Rightarrow> int \<Rightarrow> udp_state \<Rightarrow> udp_state" where
  "udp_reply i p now s =
     (if i < length (u_sess s) \<and> us_reader (u_sess s ! i) \<and> us_open (u_sess s ! i) then
        (case us_deadline (u_sess s ! i) of
           None \<Rightarrow> s
         | Some d \<Rightarrow>
             if d < now then s
             else on_stats (\<lambda>st. st\<lparr>tn_bytes_in := tn_bytes_in st + of_nat (length p)\<rparr>)
               ((on_session i (\<lambda>x. x\<lparr>us_last := now, us_deadline := Some (now + 120)\<rparr>) s)
                  \<lparr>u_replies := u_replies s @ [(us_key (u_sess s ! i), p)]\<rparr>))
      else s)"

text \<open>Lines 526 to 533: the key is deleted whichever session it maps to.\<close>

definition udp_error :: "nat \<Rightarrow> udp_state \<Rightarrow> udp_state" where
  "udp_error i s =
     (if i < length (u_sess s) \<and> us_reader (u_sess s ! i) \<and> us_deadline (u_sess s ! i) \<noteq> None then
        on_stats (add_active (- 1))
          ((on_session i (\<lambda>x. x\<lparr>us_open := False, us_reader := False\<rparr>) s)
             \<lparr>u_map := filter (\<lambda>(k, _). k \<noteq> us_key (u_sess s ! i)) (u_map s)\<rparr>)
      else s)"

text \<open>Lines 433 to 442: the reaper closes and deletes the sessions idle for more than three minutes.\<close>

definition udp_expired :: "int \<Rightarrow> udp_state \<Rightarrow> string \<times> nat \<Rightarrow> bool" where
  "udp_expired now s = (\<lambda>(k, i). 180 < now - us_last (u_sess s ! i))"

definition udp_reap :: "udp_state \<Rightarrow> string \<times> nat \<Rightarrow> udp_state" where
  "udp_reap s ki =
     on_stats (add_active (- 1))
       ((on_session (snd ki) (\<lambda>x. x\<lparr>us_open := False\<rparr>) s)
          \<lparr>u_map := filter (\<lambda>(k, _). k \<noteq> fst ki) (u_map s), u_reaped := u_reaped s + 1\<rparr>)"

definition udp_tick :: "int \<Rightarrow> udp_state \<Rightarrow> udp_state" where
  "udp_tick now s = fold (\<lambda>ki s. udp_reap s ki) (filter (udp_expired now s) (u_map s)) s"

fun udp_step :: "udp_event \<Rightarrow> udp_state \<Rightarrow> udp_state" where
  "udp_step (UPacket key p) s = udp_packet key p s"
| "udp_step (UForward ok now) s = udp_forward ok now s"
| "udp_step (UStart i now) s = udp_begin i now s"
| "udp_step (UReply i p now) s = udp_reply i p now s"
| "udp_step (UError i) s = udp_error i s"
| "udp_step (UTick now) s = udp_tick now s"

definition udp_run :: "udp_event list \<Rightarrow> udp_state \<Rightarrow> udp_state" where
  "udp_run evs s = fold udp_step evs s"

lemmas udp_defs = udp_packet_def udp_send_def udp_open_def udp_forward_def udp_begin_def
  udp_reply_def udp_error_def udp_reap_def

lemma on_stats_frame [simp]:
  "u_map (on_stats f s) = u_map s" "u_sess (on_stats f s) = u_sess s"
  "u_pending (on_stats f s) = u_pending s" "u_replies (on_stats f s) = u_replies s"
  "u_received (on_stats f s) = u_received s" "u_reaped (on_stats f s) = u_reaped s"
  "tn_stats (u_server (on_stats f s)) = f (tn_stats (u_server s))"
  by (simp_all add: on_stats_def)

lemma on_session_frame [simp]:
  "u_map (on_session i f s) = u_map s" "u_pending (on_session i f s) = u_pending s"
  "u_replies (on_session i f s) = u_replies s" "u_received (on_session i f s) = u_received s"
  "u_reaped (on_session i f s) = u_reaped s" "u_server (on_session i f s) = u_server s"
  "u_sess (on_session i f s) = (u_sess s)[i := f (u_sess s ! i)]"
  by (simp_all add: on_session_def)

lemma stats_frame [simp]:
  "tn_conns_active (add_active n st) = tn_conns_active st + n"
  "tn_conns_active (add_out m st) = tn_conns_active st"
  by (simp_all add: add_active_def add_out_def)

section \<open>The map of sessions\<close>

text \<open>
  The invariant: a key of the map refers to the latest session made for it, whose reader runs and
  whose connection is open; and so does what the main loop has looked up, save that the session may
  have ended since.
\<close>

definition latest :: "udp_session list \<Rightarrow> string \<Rightarrow> nat \<Rightarrow> bool" where
  "latest ss k i \<longleftrightarrow> i < length ss \<and> us_key (ss ! i) = k \<and> (\<forall>j<length ss. us_key (ss ! j) = k \<longrightarrow> j \<le> i)"

definition udp_inv :: "udp_state \<Rightarrow> bool" where
  "udp_inv s \<longleftrightarrow> distinct (map fst (u_map s)) \<and>
     (\<forall>k i. (k, i) \<in> set (u_map s) \<longrightarrow>
        latest (u_sess s) k i \<and> us_reader (u_sess s ! i) \<and> us_open (u_sess s ! i)) \<and>
     (\<forall>k p i. u_pending s = Some (k, p, Some i) \<longrightarrow> latest (u_sess s) k i)"

lemma nth_update_field: "g y = g (ss ! i) \<Longrightarrow> g (ss[i := y] ! j) = g (ss ! j)"
  by (metis list_update_beyond not_le_imp_less nth_list_update_eq nth_list_update_neq)

lemma latest_update [simp]:
  "us_key (f (ss ! i)) = us_key (ss ! i) \<Longrightarrow> latest (ss[i := f (ss ! i)]) k j = latest ss k j"
  by (simp add: latest_def nth_update_field [of us_key])

lemma latest_append:
  "k \<noteq> us_key x \<Longrightarrow> latest ss k j \<Longrightarrow> latest (ss @ [x]) k j"
  "us_key x = k \<Longrightarrow> latest (ss @ [x]) k (length ss)"
  by (auto simp: latest_def nth_append)

lemma latest_key: "latest ss k i \<Longrightarrow> i < length ss \<and> us_key (ss ! i) = k"
  by (simp add: latest_def)

lemma distinct_filter_fst: "distinct (map fst xs) \<Longrightarrow> distinct (map fst (filter P xs))"
  by (induction xs) auto

text \<open>Changing a session in a way that keeps its key, and removing the key if it ends, keeps the invariant.\<close>

lemma udp_inv_session:
  assumes "udp_inv s" and "\<And>x. us_key (f x) = us_key x \<and> us_reader (f x) = us_reader x \<and> us_open (f x) = us_open x"
  shows "udp_inv (on_session i f s)"
proof -
  note keep = nth_update_field [of us_reader] nth_update_field [of us_open]
  show ?thesis using assms by (simp add: udp_inv_def keep)
qed

lemma udp_inv_end:
  assumes "udp_inv s" and "i < length (u_sess s)" and "\<And>x. us_key (f x) = us_key x"
    and "u_map s' = filter (\<lambda>(k, _). k \<noteq> us_key (u_sess s ! i)) (u_map s)"
    and "u_sess s' = (u_sess s)[i := f (u_sess s ! i)]" and "u_pending s' = u_pending s"
  shows "udp_inv s'"
  using assms by (auto simp: udp_inv_def distinct_filter_fst nth_list_update dest: latest_key)

lemma udp_inv_on_stats [simp]: "udp_inv (on_stats f s) = udp_inv s"
  by (simp add: udp_inv_def)

lemma udp_inv_reap:
  assumes "udp_inv s" and "ki \<in> set (u_map s)"
  shows "udp_inv (udp_reap s ki)"
proof -
  have "latest (u_sess s) (fst ki) (snd ki)" using assms by (cases ki) (auto simp: udp_inv_def)
  then have "snd ki < length (u_sess s)" "us_key (u_sess s ! snd ki) = fst ki" by (auto dest: latest_key)
  then show ?thesis
    using udp_inv_end [OF assms(1), of "snd ki" "\<lambda>x. x\<lparr>us_open := False\<rparr>" "udp_reap s ki"]
    by (simp add: udp_reap_def)
qed

text \<open>A tick reaps entries of the map one by one.\<close>

lemma udp_reap_induct:
  assumes "udp_inv s" "P s" "set kis \<subseteq> set (u_map s)" "distinct (map fst kis)"
    and "\<And>s ki. udp_inv s \<Longrightarrow> P s \<Longrightarrow> ki \<in> set (u_map s) \<Longrightarrow> P (udp_reap s ki)"
  shows "udp_inv (fold (\<lambda>ki s. udp_reap s ki) kis s) \<and> P (fold (\<lambda>ki s. udp_reap s ki) kis s)"
  using assms(1-4)
proof (induction kis arbitrary: s)
  case (Cons ki kis)
  have "ki \<in> set (u_map s)" using Cons.prems by simp
  moreover have "set kis \<subseteq> set (u_map (udp_reap s ki))"
    using Cons.prems by (auto simp: udp_reap_def image_iff)
  ultimately show ?case
    using Cons udp_inv_reap assms(5) by simp
qed simp

lemma udp_tick_induct:
  assumes "udp_inv s" "P s"
    and "\<And>s ki. udp_inv s \<Longrightarrow> P s \<Longrightarrow> ki \<in> set (u_map s) \<Longrightarrow> P (udp_reap s ki)"
  shows "udp_inv (udp_tick now s) \<and> P (udp_tick now s)"
  unfolding udp_tick_def
  using assms by (intro udp_reap_induct) (auto simp: udp_inv_def distinct_filter_fst)

lemma udp_inv_step:
  assumes "udp_inv s"
  shows "udp_inv (udp_step ev s)"
proof (cases ev)
  case (UPacket key p)
  then show ?thesis
    using assms by (auto simp: udp_packet_def udp_inv_def split: option.split dest: map_of_SomeD)
next
  case (UForward ok now)
  show ?thesis
  proof (cases "u_pending s")
    case (Some kpi)
    obtain k p io where kpi: "kpi = (k, p, io)" by (cases kpi) auto
    show ?thesis
    proof (cases io)
      case (Some i)
      have "udp_inv (udp_send i p now s)"
        using assms by (simp add: udp_send_def udp_inv_session)
      then show ?thesis
        using \<open>u_pending s = Some kpi\<close> by (simp add: UForward udp_forward_def kpi Some udp_inv_def)
    next
      case None
      then show ?thesis
        using assms \<open>u_pending s = Some kpi\<close>
        by (auto simp: UForward udp_forward_def kpi udp_open_def udp_inv_def distinct_filter_fst
            nth_append latest_append dest: latest_key)
    qed
  qed (use assms in \<open>simp add: UForward udp_forward_def\<close>)
next
  case (UStart i now)
  then show ?thesis using assms by (simp add: udp_begin_def udp_inv_session)
next
  case (UReply i p now)
  have "udp_inv (on_session i (\<lambda>x. x\<lparr>us_last := now, us_deadline := Some (now + 120)\<rparr>) s)"
    using assms by (simp add: udp_inv_session)
  then have "udp_inv ((on_session i (\<lambda>x. x\<lparr>us_last := now, us_deadline := Some (now + 120)\<rparr>) s)\<lparr>u_replies := rs\<rparr>)" for rs
    by (simp add: udp_inv_def)
  then show ?thesis using assms by (simp add: UReply udp_reply_def split: option.split)
next
  case (UError i)
  then show ?thesis
    using assms udp_inv_end [OF assms, of i "\<lambda>x. x\<lparr>us_open := False, us_reader := False\<rparr>"
        "(on_session i (\<lambda>x. x\<lparr>us_open := False, us_reader := False\<rparr>) s)
             \<lparr>u_map := filter (\<lambda>(k, _). k \<noteq> us_key (u_sess s ! i)) (u_map s)\<rparr>"]
    by (simp add: udp_error_def)
next
  case (UTick now)
  with udp_tick_induct [OF assms, of "\<lambda>_. True"] show ?thesis by simp
qed

lemma udp_inv_start [simp]: "udp_inv (udp_start srv)"
  by (simp add: udp_inv_def udp_start_def)

text \<open>Any property that every step keeps under the invariant holds in all states of a run.\<close>

lemma udp_run_invariant:
  assumes "P (udp_start srv)" and "\<And>ev s. udp_inv s \<Longrightarrow> P s \<Longrightarrow> P (udp_step ev s)"
  shows "udp_inv (udp_run evs (udp_start srv)) \<and> P (udp_run evs (udp_start srv))"
proof -
  have "udp_inv s \<and> P s \<Longrightarrow> udp_inv (udp_run evs s) \<and> P (udp_run evs s)" for s
    by (induction evs arbitrary: s) (simp_all add: udp_run_def udp_inv_step assms(2))
  then show ?thesis using assms(1) by simp
qed

section \<open>What \<open>ConnsActive\<close> counts\<close>

definition readers :: "udp_state \<Rightarrow> nat" where
  "readers s = length (filter us_reader (u_sess s))"

text \<open>Readers that run, less the sessions reaped: a reaped session is subtracted a second time when its reader ends.\<close>

definition udp_accounts :: "i32 \<Rightarrow> udp_state \<Rightarrow> bool" where
  "udp_accounts a s \<longleftrightarrow>
     tn_conns_active (tn_stats (u_server s)) + of_nat (u_reaped s) = a + of_nat (readers s)"

lemma filter_update_same:
  "P y = P (xs ! i) \<Longrightarrow> length (filter P (xs[i := y])) = length (filter P xs)"
proof (induction xs arbitrary: i)
  case (Cons x xs)
  then show ?case by (cases i) auto
qed simp

lemma filter_update_off:
  "i < length xs \<Longrightarrow> P (xs ! i) \<Longrightarrow> \<not> P y \<Longrightarrow> Suc (length (filter P (xs[i := y]))) = length (filter P xs)"
proof (induction xs arbitrary: i)
  case (Cons x xs)
  then show ?case by (cases i) auto
qed simp

lemma udp_accounts_on_stats:
  "udp_accounts a s \<Longrightarrow> tn_conns_active (f (tn_stats (u_server s))) = tn_conns_active (tn_stats (u_server s)) \<Longrightarrow>
     udp_accounts a (on_stats f s)"
  by (simp add: udp_accounts_def readers_def)

lemma readers_on_session [simp]:
  "us_reader (f (u_sess s ! i)) = us_reader (u_sess s ! i) \<Longrightarrow> readers (on_session i f s) = readers s"
  by (simp add: readers_def filter_update_same)

lemma udp_accounts_reap: "udp_accounts a s \<Longrightarrow> udp_accounts a (udp_reap s ki)"
  by (simp add: udp_accounts_def udp_reap_def readers_def filter_update_same [of us_reader] algebra_simps)

lemma udp_accounts_error:
  assumes "udp_accounts a s"
  shows "udp_accounts a (udp_error i s)"
proof (cases "i < length (u_sess s) \<and> us_reader (u_sess s ! i) \<and> us_deadline (u_sess s ! i) \<noteq> None")
  case True
  let ?y = "(u_sess s ! i)\<lparr>us_open := False, us_reader := False\<rparr>"
  have "Suc (length (filter us_reader ((u_sess s)[i := ?y]))) = readers s"
    using True unfolding readers_def by (intro filter_update_off) simp_all
  then have "of_nat (readers s) = (of_nat (length (filter us_reader ((u_sess s)[i := ?y]))) + 1 :: i32)"
    by (metis Suc_eq_plus1 of_nat_1 of_nat_add)
  with True assms show ?thesis
    by (simp add: udp_accounts_def udp_error_def) (simp add: readers_def algebra_simps)
next
  case False
  then have "udp_error i s = s" unfolding udp_error_def by argo
  with assms show ?thesis by simp
qed

lemma udp_accounts_step:
  assumes "udp_inv s" and "udp_accounts a s"
  shows "udp_accounts a (udp_step ev s)"
proof (cases ev)
  case (UTick now)
  with udp_tick_induct [of s "udp_accounts a", OF assms] udp_accounts_reap show ?thesis by simp
next
  case (UError i)
  with udp_accounts_error [OF assms(2)] show ?thesis by simp
next
  case (UForward ok now)
  with assms(2) show ?thesis
    by (auto simp: udp_forward_def udp_accounts_def udp_send_def udp_open_def readers_def filter_update_same
        split: option.split prod.split)
qed (use assms(2) in \<open>auto simp: udp_accounts_def udp_packet_def udp_begin_def udp_reply_def readers_def
      filter_update_same split: option.split\<close>)

section \<open>Datagrams arrive in order at the sessions of their sender\<close>

definition sents :: "string \<Rightarrow> udp_session list \<Rightarrow> byte list list" where
  "sents k ss = concat (map us_sent (filter (\<lambda>x. us_key x = k) ss))"

definition payloads :: "string \<Rightarrow> (string \<times> byte list) list \<Rightarrow> byte list list" where
  "payloads k ds = map snd (filter (\<lambda>(a, _). a = k) ds)"

definition handled :: "udp_state \<Rightarrow> (string \<times> byte list) list" where
  "handled s = (case u_pending s of None \<Rightarrow> u_received s | Some _ \<Rightarrow> butlast (u_received s))"

definition udp_ordered :: "udp_state \<Rightarrow> bool" where
  "udp_ordered s \<longleftrightarrow>
     (\<forall>k p io. u_pending s = Some (k, p, io) \<longrightarrow> u_received s = handled s @ [(k, p)]) \<and>
     (\<forall>k. subseq (sents k (u_sess s)) (payloads k (handled s)))"

lemma sents_append: "sents k (xs @ ys) = sents k xs @ sents k ys"
  by (simp add: sents_def)

lemma sents_none: "\<forall>x\<in>set xs. us_key x \<noteq> k \<Longrightarrow> sents k xs = []"
  by (simp add: sents_def)

lemma sents_latest:
  assumes "latest ss k i" and "us_key y = k" and "us_sent y = us_sent (ss ! i) @ ps"
  shows "sents k (ss[i := y]) = sents k ss @ ps"
    and "k' \<noteq> k \<Longrightarrow> sents k' (ss[i := y]) = sents k' ss"
proof -
  have i: "i < length ss" "us_key (ss ! i) = k" using assms(1) by (auto dest: latest_key)
  have "us_key (ss ! (Suc i + j)) \<noteq> k" if "j < length ss - Suc i" for j
  proof
    assume "us_key (ss ! (Suc i + j)) = k"
    with assms(1) that have "Suc i + j \<le> i" unfolding latest_def by auto
    then show False by simp
  qed
  then have "\<forall>x\<in>set (drop (Suc i) ss). us_key x \<noteq> k"
    by (metis i(1) in_set_conv_nth length_drop nth_drop Suc_leI)
  then have tl: "sents k (drop (Suc i) ss) = []" by (rule sents_none)
  have split: "sents k' ss = sents k' (take i ss) @ sents k' [ss ! i] @ sents k' (drop (Suc i) ss)" for k'
    using arg_cong [OF id_take_nth_drop [OF i(1)], of "sents k'"] by (simp flip: sents_append)
  have upd: "sents k' (ss[i := y]) = sents k' (take i ss) @ sents k' [y] @ sents k' (drop (Suc i) ss)" for k'
    using i(1) by (simp add: upd_conv_take_nth_drop flip: sents_append)
  have one: "sents k' [x] = (if us_key x = k' then us_sent x else [])" for k' x by (simp add: sents_def)
  show "sents k (ss[i := y]) = sents k ss @ ps"
    unfolding upd split [of k] using tl assms(2,3) i(2) by (simp add: one)
  show "sents k' (ss[i := y]) = sents k' ss" if "k' \<noteq> k"
    unfolding upd split [of k'] using that assms(2) i(2) by (simp add: one)
qed

lemma sents_same:
  assumes "us_key y = us_key (ss ! i)" and "us_sent y = us_sent (ss ! i)"
  shows "sents k (ss[i := y]) = sents k ss"
  using assms
proof (induction ss arbitrary: i)
  case (Cons x ss)
  then show ?case by (cases i) (auto simp: sents_def)
qed simp

lemma udp_ordered_frame:
  assumes "udp_ordered s" and "u_pending s' = u_pending s" and "u_received s' = u_received s"
    and "\<And>k. sents k (u_sess s') = sents k (u_sess s)"
  shows "udp_ordered s'"
proof -
  have "handled s' = handled s"
    using assms(2,3) by (cases "u_pending s") (simp_all add: handled_def)
  with assms show ?thesis by (simp add: udp_ordered_def)
qed

lemma subseq_extend: "subseq xs ys \<Longrightarrow> subseq (xs @ zs) (ys @ zs)" "subseq xs ys \<Longrightarrow> subseq xs (ys @ zs)"
  using list_emb_append_mono [of "(=)" xs ys zs zs] list_emb_append2 by auto

lemma udp_ordered_forward:
  assumes "udp_inv s" and "udp_ordered s"
  shows "udp_ordered (udp_forward ok now s)"
proof (cases "u_pending s")
  case (Some kpi)
  obtain k p io where kpi: "kpi = (k, p, io)" by (cases kpi) auto
  have rs: "u_received s = handled s @ [(k, p)]" and sub: "\<And>k'. subseq (sents k' (u_sess s)) (payloads k' (handled s))"
    using assms(2) Some by (simp_all add: udp_ordered_def kpi)
  have pl: "payloads k' (u_received s) = payloads k' (handled s) @ (if k' = k then [p] else [])" for k'
    by (simp add: rs payloads_def)
  have grow: "udp_ordered s'" if "u_pending s' = None" "u_received s' = u_received s"
    "\<And>k'. sents k' (u_sess s') = sents k' (u_sess s) @ (if k' = k then b else [])" "b = [] \<or> b = [p]" for s' b
    using that sub by (auto simp: udp_ordered_def handled_def pl subseq_extend)
  show ?thesis
  proof (cases io)
    case io: (Some i)
    have l: "latest (u_sess s) k i" using assms(1) Some by (simp add: udp_inv_def kpi io)
    let ?f = "\<lambda>x. x\<lparr>us_last := now, us_sent := us_sent x @ (if us_open x then [p] else [])\<rparr>"
    have k: "us_key (?f (u_sess s ! i)) = k" using l by (simp add: latest_def)
    have st: "us_sent (?f (u_sess s ! i)) = us_sent (u_sess s ! i) @ (if us_open (u_sess s ! i) then [p] else [])"
      by simp
    note e = sents_latest [OF l k st]
    show ?thesis
      by (rule grow [of _ "if us_open (u_sess s ! i) then [p] else []"])
        (use e in \<open>simp_all add: udp_forward_def Some kpi io udp_send_def\<close>)
  next
    case None
    show ?thesis
      by (rule grow [of _ "if ok then [p] else []"])
        (simp_all add: udp_forward_def Some kpi None udp_open_def sents_append, simp_all add: sents_def)
  qed
qed (use assms(2) in \<open>simp add: udp_forward_def\<close>)

lemma udp_ordered_step:
  assumes "udp_inv s" and "udp_ordered s"
  shows "udp_ordered (udp_step ev s)"
proof (cases ev)
  case (UPacket key p)
  with assms(2) show ?thesis
    by (auto simp: udp_packet_def udp_ordered_def handled_def split: option.split)
next
  case (UForward ok now)
  with udp_ordered_forward [OF assms] show ?thesis by simp
next
  case (UTick now)
  have "udp_ordered (udp_reap s ki)" if "udp_ordered s" for s ki
    by (rule udp_ordered_frame [OF that]) (simp_all add: udp_reap_def sents_same)
  with UTick udp_tick_induct [of s udp_ordered, OF assms] show ?thesis by simp
next
  case (UStart i now)
  have "udp_ordered (udp_begin i now s)"
    by (rule udp_ordered_frame [OF assms(2)]) (simp_all add: udp_begin_def sents_same)
  with UStart show ?thesis by simp
next
  case (UReply i p now)
  have "udp_ordered (udp_reply i p now s)"
    by (rule udp_ordered_frame [OF assms(2)]) (auto simp: udp_reply_def sents_same split: option.split)
  with UReply show ?thesis by simp
next
  case (UError i)
  have "udp_ordered (udp_error i s)"
    by (rule udp_ordered_frame [OF assms(2)]) (simp_all add: udp_error_def sents_same)
  with UError show ?thesis by simp
qed

section \<open>Runs in which every goroutine is prompt\<close>

text \<open>
  The clock of a session does not run backwards, a reader sets its first deadline within 30 seconds,
  and one whose deadline has passed has returned 30 seconds later.
\<close>

fun udp_prompt :: "udp_event \<Rightarrow> udp_state \<Rightarrow> bool" where
  "udp_prompt (UForward ok now) s =
     (case u_pending s of Some (k, p, Some i) \<Rightarrow> us_last (u_sess s ! i) \<le> now | _ \<Rightarrow> True)"
| "udp_prompt (UStart i now) s = (now \<le> us_last (u_sess s ! i) + 30)"
| "udp_prompt (UTick now) s =
     list_all (\<lambda>(k, i). case us_deadline (u_sess s ! i) of
                          None \<Rightarrow> now \<le> us_last (u_sess s ! i) + 180
                        | Some d \<Rightarrow> now \<le> d + 30) (u_map s)"
| "udp_prompt _ s = True"

fun udp_prompt_run :: "udp_event list \<Rightarrow> udp_state \<Rightarrow> bool" where
  "udp_prompt_run [] s = True"
| "udp_prompt_run (ev # evs) s = (udp_prompt ev s \<and> udp_prompt_run evs (udp_step ev s))"

definition deadlines_near :: "udp_state \<Rightarrow> bool" where
  "deadlines_near s \<longleftrightarrow> u_reaped s = 0 \<and>
     (\<forall>x\<in>set (u_sess s). \<forall>d. us_deadline x = Some d \<longrightarrow> d \<le> us_last x + 150)"

lemma set_update_cases: "x \<in> set (xs[i := y]) \<Longrightarrow> x \<in> set xs \<or> x = y"
  by (meson set_update_subset_insert subsetD insertE)

lemma deadlines_near_session:
  assumes "deadlines_near s" and "u_reaped s' = u_reaped s" and "u_sess s' = (u_sess s)[i := y]"
    and "\<And>d. us_deadline y = Some d \<Longrightarrow> d \<le> us_last y + 150"
  shows "deadlines_near s'"
  using assms by (auto simp: deadlines_near_def dest!: set_update_cases)

lemma deadlines_near_nth:
  "deadlines_near s \<Longrightarrow> i < length (u_sess s) \<Longrightarrow> us_deadline (u_sess s ! i) = Some d \<Longrightarrow>
     d \<le> us_last (u_sess s ! i) + 150"
  by (simp add: deadlines_near_def)

lemma prompt_tick: "udp_inv s \<Longrightarrow> deadlines_near s \<Longrightarrow> udp_prompt (UTick now) s \<Longrightarrow> udp_tick now s = s"
proof -
  assume inv: "udp_inv s" and near: "deadlines_near s" and pr: "udp_prompt (UTick now) s"
  have "\<not> udp_expired now s (k, i)" if "(k, i) \<in> set (u_map s)" for k i
  proof -
    have i: "i < length (u_sess s)" using inv that by (auto simp: udp_inv_def dest: latest_key)
    show ?thesis
      using pr that deadlines_near_nth [OF near i]
      by (auto simp: udp_expired_def list_all_iff split: option.splits)
  qed
  then have "filter (udp_expired now s) (u_map s) = []" by (auto simp: filter_empty_conv)
  then show ?thesis by (simp add: udp_tick_def)
qed

lemma deadlines_near_forward:
  assumes "udp_inv s" and "deadlines_near s" and "udp_prompt (UForward ok now) s"
  shows "deadlines_near (udp_forward ok now s)"
proof (cases "u_pending s")
  case (Some kpi)
  obtain k p io where kpi: "kpi = (k, p, io)" by (cases kpi) auto
  show ?thesis
  proof (cases io)
    case io: (Some i)
    then have i: "i < length (u_sess s)" and now: "us_last (u_sess s ! i) \<le> now"
      using assms Some by (auto simp: kpi udp_inv_def dest: latest_key)
    let ?y = "(u_sess s ! i)\<lparr>us_last := now, us_sent := us_sent (u_sess s ! i) @ (if us_open (u_sess s ! i) then [p] else [])\<rparr>"
    show ?thesis
    proof (rule deadlines_near_session [OF assms(2), of _ i ?y])
      show "d \<le> us_last ?y + 150" if "us_deadline ?y = Some d" for d
        using deadlines_near_nth [OF assms(2) i, of d] that now by simp
    qed (simp_all add: udp_forward_def Some kpi io udp_send_def)
  next
    case None
    with assms(2) Some show ?thesis
      by (auto simp: deadlines_near_def udp_forward_def kpi udp_open_def)
  qed
qed (use assms(2) in \<open>simp add: udp_forward_def\<close>)

lemma deadlines_near_step:
  assumes "udp_inv s" and "deadlines_near s" and "udp_prompt ev s"
  shows "deadlines_near (udp_step ev s)"
proof (cases ev)
  case (UTick now)
  with assms prompt_tick show ?thesis by simp
next
  case (UForward ok now)
  with deadlines_near_forward assms show ?thesis by simp
next
  case (UPacket key p)
  with assms(2) show ?thesis by (simp add: udp_packet_def deadlines_near_def split: option.split)
next
  case (UStart i now)
  with assms(3) have "now \<le> us_last (u_sess s ! i) + 30" by simp
  with assms(2) show ?thesis
    by (auto simp: UStart udp_begin_def intro!: deadlines_near_session
        [OF assms(2), of _ i "(u_sess s ! i)\<lparr>us_deadline := Some (now + 120)\<rparr>"])
next
  case (UReply i p now)
  with assms(2) show ?thesis
    by (auto simp: udp_reply_def split: option.split intro!: deadlines_near_session
        [OF assms(2), of _ i "(u_sess s ! i)\<lparr>us_last := now, us_deadline := Some (now + 120)\<rparr>"])
next
  case (UError i)
  show ?thesis
  proof (cases "i < length (u_sess s) \<and> us_reader (u_sess s ! i) \<and> us_deadline (u_sess s ! i) \<noteq> None")
    case True
    then show ?thesis
      using deadlines_near_nth [OF assms(2), of i]
      by (auto simp: UError udp_error_def intro!: deadlines_near_session
        [OF assms(2), of _ i "(u_sess s ! i)\<lparr>us_open := False, us_reader := False\<rparr>"])
  next
    case False
    then have "udp_error i s = s" unfolding udp_error_def by argo
    with assms(2) show ?thesis by (simp add: UError)
  qed
qed

lemma deadlines_near_run:
  "udp_inv s \<Longrightarrow> deadlines_near s \<Longrightarrow> udp_prompt_run evs s \<Longrightarrow> deadlines_near (udp_run evs s)"
  by (induction evs arbitrary: s) (simp_all add: udp_run_def udp_inv_step deadlines_near_step)

section \<open>Properties\<close>

text \<open>
  C32. In every interleaving: a key of the map refers to the latest session made for it, which is
  open and has a running reader; and the datagrams written to the targets of a client's sessions,
  in the order of the sessions, are a subsequence of those received from this client: none is
  duplicated, reordered or sent for another client.
\<close>

theorem udp_in_order:
  "((k, i) \<in> set (u_map (udp_run evs (udp_start srv))) \<longrightarrow>
      latest (u_sess (udp_run evs (udp_start srv))) k i \<and>
      us_open (u_sess (udp_run evs (udp_start srv)) ! i) \<and> us_reader (u_sess (udp_run evs (udp_start srv)) ! i)) \<and>
   subseq (sents k (u_sess (udp_run evs (udp_start srv)))) (payloads k (u_received (udp_run evs (udp_start srv))))"
proof -
  let ?s = "udp_run evs (udp_start srv)"
  have "udp_ordered (udp_start srv)"
    by (simp add: udp_ordered_def handled_def udp_start_def sents_def)
  from udp_run_invariant [of udp_ordered, OF this udp_ordered_step]
  have inv: "udp_inv ?s" and ord: "udp_ordered ?s" by blast+
  have "subseq (sents k (u_sess ?s)) (payloads k (u_received ?s))"
  proof (cases "u_pending ?s")
    case None
    with ord show ?thesis by (simp add: udp_ordered_def handled_def)
  next
    case (Some kpi)
    obtain k' p io where kpi: "kpi = (k', p, io)" by (cases kpi) auto
    with Some ord have "u_received ?s = handled ?s @ [(k', p)]" by (simp add: udp_ordered_def)
    then have "payloads k (u_received ?s) = payloads k (handled ?s) @ payloads k [(k', p)]"
      by (simp add: payloads_def)
    with ord show ?thesis by (simp add: udp_ordered_def subseq_extend)
  qed
  with inv show ?thesis by (simp add: udp_inv_def)
qed

theorem udp_in_order_witness:
  "latest (u_sess (udp_run [UPacket ''a'' [1], UForward True 0] (udp_start (NewServer ''x'' ''y'' 0)))) ''a'' 0"
  using udp_in_order [of "''a''" 0 "[UPacket ''a'' [1], UForward True 0]" "NewServer ''x'' ''y'' 0"]
  by (simp add: udp_run_def udp_start_def udp_packet_def udp_forward_def udp_open_def)

text \<open>
  What \<^verbatim>\<open>ConnsActive\<close> counts of the UDP side, in every interleaving: the readers that run, less
  every session that the reaper ever closed.  A reaped session is subtracted by the reaper and again
  by its reader.
\<close>

lemma udp_active_drift:
  "tn_conns_active (tn_stats (u_server (udp_run evs (udp_start srv)))) +
     of_nat (u_reaped (udp_run evs (udp_start srv))) =
   tn_conns_active (tn_stats srv) + of_nat (readers (udp_run evs (udp_start srv)))"
proof -
  have "udp_accounts (tn_conns_active (tn_stats srv)) (udp_start srv)"
    by (simp add: udp_accounts_def udp_start_def readers_def)
  from udp_run_invariant [of "udp_accounts (tn_conns_active (tn_stats srv))", OF this udp_accounts_step]
  show ?thesis unfolding udp_accounts_def by blast
qed

text \<open>
  C33. When the readers are prompt, the reaper never closes anything, since a reader gives up two minutes
  after its last reply and the reaper waits for three: then \<^verbatim>\<open>ConnsActive\<close> counts exactly the
  sessions whose reader runs.
\<close>

theorem udp_reaper_idle:
  assumes "udp_prompt_run evs (udp_start srv)"
  shows "u_reaped (udp_run evs (udp_start srv)) = 0 \<and>
    tn_conns_active (tn_stats (u_server (udp_run evs (udp_start srv)))) =
      tn_conns_active (tn_stats srv) + of_nat (readers (udp_run evs (udp_start srv)))"
proof -
  have "deadlines_near (udp_start srv)" by (simp add: deadlines_near_def udp_start_def)
  with assms have near: "deadlines_near (udp_run evs (udp_start srv))" by (simp add: deadlines_near_run)
  have "udp_accounts (tn_conns_active (tn_stats srv)) (udp_start srv)"
    by (simp add: udp_accounts_def udp_start_def readers_def)
  from udp_run_invariant [of "udp_accounts (tn_conns_active (tn_stats srv))", OF this udp_accounts_step]
  have "udp_accounts (tn_conns_active (tn_stats srv)) (udp_run evs (udp_start srv))" by blast
  with near show ?thesis by (simp add: deadlines_near_def udp_accounts_def)
qed

theorem udp_reaper_idle_witness:
  "u_reaped (udp_run [UPacket ''a'' [1], UForward True 0, UStart 0 5, UTick 140, UError 0, UTick 170]
     (udp_start (NewServer ''x'' ''y'' 0))) = 0"
proof -
  have "udp_prompt_run [UPacket ''a'' [1], UForward True 0, UStart 0 5, UTick 140, UError 0, UTick 170]
     (udp_start (NewServer ''x'' ''y'' 0))"
    by (simp add: udp_start_def udp_packet_def udp_forward_def udp_open_def udp_begin_def udp_tick_def
        udp_expired_def udp_error_def)
  then show ?thesis using udp_reaper_idle by blast
qed

lemma udp_deadline_step:
  assumes "udp_inv s" and "i < length (u_sess s)" and "us_deadline (u_sess s ! i) = Some d"
    and "\<forall>p now. ev \<noteq> UReply i p now"
  shows "i < length (u_sess (udp_step ev s)) \<and> us_deadline (u_sess (udp_step ev s) ! i) = Some d"
proof (cases ev)
  case (UTick now)
  have "i < length (u_sess (udp_reap s ki)) \<and> us_deadline (u_sess (udp_reap s ki) ! i) = Some d"
    if "i < length (u_sess s) \<and> us_deadline (u_sess s ! i) = Some d" for s ki
    using that by (cases "i = snd ki") (simp_all add: udp_reap_def)
  with UTick assms(2,3) udp_tick_induct [of s "\<lambda>s. i < length (u_sess s) \<and> us_deadline (u_sess s ! i) = Some d", OF assms(1)]
  show ?thesis by simp
next
  case (UForward ok now)
  with assms(2,3) show ?thesis
    by (auto simp: udp_forward_def udp_send_def udp_open_def nth_append nth_update_field [of us_deadline]
        split: option.split prod.split)
next
  case (UPacket key p)
  with assms(2,3) show ?thesis by (simp add: udp_packet_def split: option.split)
next
  case (UStart j now)
  with assms(2,3) show ?thesis by (auto simp: udp_begin_def nth_list_update)
next
  case (UReply j p now)
  with assms have "j \<noteq> i" by auto
  with UReply assms(2,3) show ?thesis by (auto simp: udp_reply_def split: option.split)
next
  case (UError j)
  with assms(2,3) show ?thesis by (auto simp: udp_error_def nth_list_update)
qed

text \<open>
  C34. What keeps a session alive are replies only: however many datagrams the client sends, the
  deadline of its session does not move, and once it has passed no reply is read any more.
\<close>

theorem udp_client_does_not_extend:
  assumes "udp_inv s" and "i < length (u_sess s)" and "us_deadline (u_sess s ! i) = Some d"
    and "\<forall>p now. UReply i p now \<notin> set evs" and "d < now"
  shows "us_deadline (u_sess (udp_run evs s) ! i) = Some d \<and>
    udp_step (UReply i p now) (udp_run evs s) = udp_run evs s"
proof -
  have "i < length (u_sess (udp_run evs s)) \<and> us_deadline (u_sess (udp_run evs s) ! i) = Some d"
    using assms(1-4)
  proof (induction evs arbitrary: s)
    case (Cons ev evs)
    have ev: "\<forall>p now. ev \<noteq> UReply i p now" using Cons.prems(4) by auto
    from Cons.IH [OF udp_inv_step [OF Cons.prems(1), of ev]] udp_deadline_step [OF Cons.prems(1-3) ev] Cons.prems(4)
    show ?case by (simp add: udp_run_def)
  qed (simp add: udp_run_def)
  with assms(5) show ?thesis by (simp add: udp_reply_def)
qed

theorem udp_client_does_not_extend_witness:
  "us_deadline (u_sess (udp_run [UPacket ''a'' [2], UForward True 100]
     (udp_run [UPacket ''a'' [1], UForward True 0, UStart 0 0] (udp_start (NewServer ''x'' ''y'' 0)))) ! 0) = Some 120"
proof -
  let ?s = "udp_run [UPacket ''a'' [1], UForward True 0, UStart 0 0] (udp_start (NewServer ''x'' ''y'' 0))"
  have "udp_inv ?s" using udp_run_invariant [of "\<lambda>_. True"] by blast
  moreover have "0 < length (u_sess ?s)" "us_deadline (u_sess ?s ! 0) = Some 120"
    by (simp_all add: udp_run_def udp_start_def udp_packet_def udp_forward_def udp_open_def udp_begin_def)
  ultimately show ?thesis
    using udp_client_does_not_extend [of ?s 0 120 "[UPacket ''a'' [2], UForward True 100]" 121] by simp
qed

end
