(* ===== verification/Tunnel_Start.thy ===== *)
theory Tunnel_Start
  imports Accept_Loop Udp_Tunnel
begin

text \<open>
  \<^verbatim>\<open>Start\<close> and \<^verbatim>\<open>Stop\<close> of the tunnel (\<^verbatim>\<open>internal/tunnel/tunnel.go\<close>): the TCP loop, the UDP loop with its
  ticker, the channel of their errors, and the context they share.  Both sides count in the one
  server, so that the state of the UDP side borrows the server from the TCP side for each step.
  \<^verbatim>\<open>Start\<close> is called once; its argument, the outer context, is done or not at each step.
\<close>

section \<open>The UDP loop\<close>

datatype udp_pc =
    UUnstarted
  | UBinding                    \<comment> \<open>in \<open>ListenPacket\<close>\<close>
  | UTop                        \<comment> \<open>the head of the loop\<close>
  | UReading                    \<comment> \<open>in \<open>ReadFrom\<close>, with a deadline of one second\<close>
  | UBroken                     \<comment> \<open>\<open>ReadFrom\<close> has returned an error that is no timeout\<close>
  | UServing                    \<comment> \<open>a datagram has been read and its session looked up\<close>
  | UQuit "string option"

datatype udp_outcome =
    UFine                          \<comment> \<open>\<open>ListenPacket\<close> or \<open>DialUDP\<close> succeeds; \<open>ReadFrom\<close> goes on waiting\<close>
  | UDatagram string "byte list"   \<comment> \<open>\<open>ReadFrom\<close> returns a datagram and its sender\<close>
  | UExpires                       \<comment> \<open>the deadline\<close>
  | UFails string                  \<comment> \<open>an error of the call at hand\<close>

record udp_loop =
  ul_pc :: udp_pc
  ul_sock :: listener
  ul_ticker :: bool                \<comment> \<open>the goroutine with the ticker has not returned\<close>
  ul_state :: udp_state

datatype udp_loop_event =
    ULoop udp_outcome int          \<comment> \<open>the main loop runs to its next point, at this time\<close>
  | UCloser
  | USession udp_event             \<comment> \<open>the reader of a session\<close>
  | UTicks int
  | UTickerEnds

definition udp_idle :: "tun_server \<Rightarrow> udp_loop" where
  "udp_idle s = \<lparr>ul_pc = UUnstarted, ul_sock = Unbound, ul_ticker = False, ul_state = udp_start s\<rparr>"

fun udp_main :: "bool \<Rightarrow> udp_outcome \<Rightarrow> int \<Rightarrow> udp_loop \<Rightarrow> udp_loop" where
  "udp_main done x now u =
     (case ul_pc u of
        UUnstarted \<Rightarrow> u
      | UBinding \<Rightarrow>
          (case x of
             UFails e \<Rightarrow> u\<lparr>ul_pc := UQuit (Some e)\<rparr>
           | _ \<Rightarrow> u\<lparr>ul_pc := UTop, ul_sock := Bound, ul_ticker := True\<rparr>)
      | UTop \<Rightarrow> u\<lparr>ul_pc := (if done then UQuit None else UReading)\<rparr>
      | UReading \<Rightarrow>
          if ul_sock u = Shut then u\<lparr>ul_pc := UBroken\<rparr>
          else (case x of
                  UDatagram key p \<Rightarrow> u\<lparr>ul_pc := UServing, ul_state := udp_step (UPacket key p) (ul_state u)\<rparr>
                | UExpires \<Rightarrow> u\<lparr>ul_pc := UTop\<rparr>
                | UFails _ \<Rightarrow> u\<lparr>ul_pc := UBroken\<rparr>
                | _ \<Rightarrow> u)
      | UBroken \<Rightarrow> u\<lparr>ul_pc := (if done then UQuit None else UTop)\<rparr>
      | UServing \<Rightarrow>
          u\<lparr>ul_pc := UTop,
            ul_state := udp_step (UForward (case x of UFails _ \<Rightarrow> False | _ \<Rightarrow> True) now) (ul_state u)\<rparr>
      | UQuit _ \<Rightarrow> u)"

declare udp_main.simps [simp del]

text \<open>
  A reader's reply goes out through the socket of the tunnel: once that is closed the write fails, and
  the failure is ignored.
\<close>

definition udp_reader_step :: "udp_event \<Rightarrow> udp_loop \<Rightarrow> udp_loop" where
  "udp_reader_step ev u =
     (let s = udp_step ev (ul_state u) in
      u\<lparr>ul_state := (if ul_sock u = Bound then s else s\<lparr>u_replies := u_replies (ul_state u)\<rparr>)\<rparr>)"

fun udp_loop_step :: "bool \<Rightarrow> udp_loop_event \<Rightarrow> udp_loop \<Rightarrow> udp_loop" where
  "udp_loop_step done (ULoop x now) u = udp_main done x now u"
| "udp_loop_step done UCloser u = (if done then u\<lparr>ul_sock := shut (ul_sock u)\<rparr> else u)"
| "udp_loop_step done (USession (UStart i now)) u = udp_reader_step (UStart i now) u"
| "udp_loop_step done (USession (UReply i p now)) u = udp_reader_step (UReply i p now) u"
| "udp_loop_step done (USession (UError i)) u = udp_reader_step (UError i) u"
| "udp_loop_step done (USession _) u = u"
| "udp_loop_step done (UTicks now) u =
     (if ul_ticker u then u\<lparr>ul_state := udp_step (UTick now) (ul_state u)\<rparr> else u)"
| "udp_loop_step done UTickerEnds u = (if done then u\<lparr>ul_ticker := False\<rparr> else u)"

section \<open>Start and Stop\<close>

datatype start_pc = NotCalled | Awaiting | Returned string

record tun_proc =
  tp_ctx :: "bool option"          \<comment> \<open>\<^verbatim>\<open>s.cancel\<close>: nil, or whether it has been called\<close>
  tp_start :: start_pc
  tp_errs :: "string list"         \<comment> \<open>\<^verbatim>\<open>errCh\<close>\<close>
  tp_tcp :: "(tun_server, tun_effect, tun_env \<times> conn) acceptor"
  tp_udp :: udp_loop

datatype tun_event =
    TunStart                       \<comment> \<open>\<open>Start\<close> runs up to its receive\<close>
  | TunTcp "(tun_env \<times> conn) accept_event"
  | TunUdp udp_loop_event
  | TunReturn                      \<comment> \<open>\<open>Start\<close> receives an error and returns it\<close>

definition tun_proc_init :: "tun_server \<Rightarrow> tun_proc" where
  "tun_proc_init s = \<lparr>tp_ctx = None, tp_start = NotCalled, tp_errs = [],
     tp_tcp = accept_idle s, tp_udp = udp_idle s\<rparr>"

text \<open>The context that both loops watch is \<^verbatim>\<open>s.ctx\<close>, a child of the outer one.\<close>

definition tun_done :: "bool \<Rightarrow> tun_proc \<Rightarrow> bool" where
  "tun_done outer p \<longleftrightarrow> outer \<or> tp_ctx p = Some True"

abbreviation tun_sys ::
  "(tun_env \<times> conn) event \<Rightarrow> (tun_server, tun_effect, tun_env \<times> conn) system \<Rightarrow>
   (tun_server, tun_effect, tun_env \<times> conn) system" where
  "tun_sys \<equiv> sys_step tun_admit tun_release tun_act tun_effects"

text \<open>The server of the tunnel, which both sides share.\<close>

definition tun_srv :: "tun_proc \<Rightarrow> tun_server" where
  "tun_srv p = server (ac_sys (tp_tcp p))"

definition set_srv :: "tun_server \<Rightarrow> tun_proc \<Rightarrow> tun_proc" where
  "set_srv s p = p\<lparr>tp_tcp := (tp_tcp p)\<lparr>ac_sys := (ac_sys (tp_tcp p))\<lparr>server := s\<rparr>\<rparr>\<rparr>"

definition on_udp :: "(udp_loop \<Rightarrow> udp_loop) \<Rightarrow> tun_proc \<Rightarrow> tun_proc" where
  "on_udp f p =
     (let u = f ((tp_udp p)\<lparr>ul_state := (ul_state (tp_udp p))\<lparr>u_server := tun_srv p\<rparr>\<rparr>)
      in set_srv (u_server (ul_state u)) (p\<lparr>tp_udp := u\<rparr>))"

text \<open>A loop that could not listen sends its error to \<^verbatim>\<open>errCh\<close>, which has room for both.\<close>

definition tcp_error :: "tun_proc \<Rightarrow> tun_proc \<Rightarrow> string list" where
  "tcp_error p q =
     (case (ac_pc (tp_tcp p), ac_pc (tp_tcp q)) of (Binding, Finished (Some e)) \<Rightarrow> [''TCP: '' @ e] | _ \<Rightarrow> [])"

definition udp_bind_error :: "tun_proc \<Rightarrow> tun_proc \<Rightarrow> string list" where
  "udp_bind_error p q =
     (case (ul_pc (tp_udp p), ul_pc (tp_udp q)) of (UBinding, UQuit (Some e)) \<Rightarrow> [''UDP: '' @ e] | _ \<Rightarrow> [])"

fun tun_step :: "bool \<Rightarrow> tun_event \<Rightarrow> tun_proc \<Rightarrow> tun_proc" where
  "tun_step outer TunStart p =
     (if tp_start p = NotCalled then
        p\<lparr>tp_ctx := Some False, tp_start := Awaiting,
          tp_tcp := (tp_tcp p)\<lparr>ac_pc := Binding\<rparr>, tp_udp := (tp_udp p)\<lparr>ul_pc := UBinding\<rparr>\<rparr>
      else p)"
| "tun_step outer (TunTcp ev) p =
     (let q = p\<lparr>tp_tcp := accept_step tun_sys (tun_done outer p) ev (tp_tcp p)\<rparr>
      in q\<lparr>tp_errs := tp_errs q @ tcp_error p q\<rparr>)"
| "tun_step outer (TunUdp ev) p =
     (let q = on_udp (udp_loop_step (tun_done outer p) ev) p
      in q\<lparr>tp_errs := tp_errs q @ udp_bind_error p q\<rparr>)"
| "tun_step outer TunReturn p =
     (case (tp_start p, tp_errs p) of
        (Awaiting, e # es) \<Rightarrow> p\<lparr>tp_start := Returned e, tp_errs := es\<rparr>
      | _ \<Rightarrow> p)"

definition tun_Stop :: "tun_proc \<Rightarrow> tun_proc" where
  "tun_Stop p =
     p\<lparr>tp_ctx := (case tp_ctx p of None \<Rightarrow> None | Some _ \<Rightarrow> Some True),
       tp_tcp := (tp_tcp p)\<lparr>ac_listener := shut (ac_listener (tp_tcp p))\<rparr>,
       tp_udp := (tp_udp p)\<lparr>ul_sock := shut (ul_sock (tp_udp p))\<rparr>\<rparr>"

section \<open>The UDP loop ends\<close>

fun udp_pc_rank :: "udp_pc \<Rightarrow> listener \<Rightarrow> nat" where
  "udp_pc_rank UUnstarted _ = 7"
| "udp_pc_rank UBinding _ = 6"
| "udp_pc_rank UReading Bound = 5"
| "udp_pc_rank UReading _ = 4"
| "udp_pc_rank UServing _ = 3"
| "udp_pc_rank UTop _ = 2"
| "udp_pc_rank UBroken _ = 2"
| "udp_pc_rank (UQuit _) Bound = 1"
| "udp_pc_rank (UQuit _) _ = 0"

definition udp_rank :: "udp_loop \<Rightarrow> nat" where
  "udp_rank u = udp_pc_rank (ul_pc u) (ul_sock u)"

definition udp_unbound_at :: "udp_pc \<Rightarrow> bool" where
  "udp_unbound_at pc \<longleftrightarrow> pc = UUnstarted \<or> pc = UBinding \<or> (\<exists>e. pc = UQuit (Some e))"

definition udp_wf :: "udp_loop \<Rightarrow> bool" where
  "udp_wf u \<longleftrightarrow> udp_inv (ul_state u) \<and> (u_pending (ul_state u) \<noteq> None \<longleftrightarrow> ul_pc u = UServing) \<and>
     (ul_sock u = Unbound \<longleftrightarrow> udp_unbound_at (ul_pc u))"

lemma udp_pending_step:
  "u_pending (udp_step (UForward ok now) s) = None"
  "u_pending s = None \<Longrightarrow> u_pending (udp_step (UPacket key p) s) = Some (key, p, map_of (u_map s) key)"
  "u_pending (udp_step (UStart i now) s) = u_pending s"
  "u_pending (udp_step (UReply i p now) s) = u_pending s"
  "u_pending (udp_step (UError i) s) = u_pending s"
proof -
  show "u_pending (udp_step (UForward ok now) s) = None"
    by (simp add: udp_forward_def split: option.split prod.split)
  show "u_pending s = None \<Longrightarrow> u_pending (udp_step (UPacket key p) s) = Some (key, p, map_of (u_map s) key)"
    by (simp add: udp_packet_def split: option.split)
qed (simp_all add: udp_begin_def udp_reply_def udp_error_def split: option.split)

lemma udp_pending_tick: "udp_inv s \<Longrightarrow> u_pending (udp_step (UTick now) s) = u_pending s"
  using udp_tick_induct [of s "\<lambda>t. u_pending t = u_pending s"] by (simp add: udp_reap_def)

lemma udp_inv_replies [simp]: "udp_inv (s\<lparr>u_replies := r\<rparr>) = udp_inv s"
  by (simp add: udp_inv_def)

lemma udp_inv_server [simp]: "udp_inv (s\<lparr>u_server := r\<rparr>) = udp_inv s"
  by (simp add: udp_inv_def)

lemma udp_session_frame [simp]:
  "ul_pc (udp_reader_step ev u) = ul_pc u" "ul_sock (udp_reader_step ev u) = ul_sock u"
  "u_pending (ul_state (udp_reader_step ev u)) = u_pending (udp_step ev (ul_state u))"
  "udp_inv (ul_state (udp_reader_step ev u)) = udp_inv (udp_step ev (ul_state u))"
  by (simp_all add: udp_reader_step_def Let_def)

lemma udp_wf_step: "udp_wf u \<Longrightarrow> udp_wf (udp_loop_step done ev u)"
proof (cases ev)
  case (ULoop x now)
  assume u: "udp_wf u"
  then have "udp_inv (udp_step e (ul_state u))" for e by (simp add: udp_wf_def udp_unbound_at_def udp_inv_step)
  with u ULoop show ?thesis
    by (cases "ul_pc u") (auto simp: udp_wf_def udp_unbound_at_def udp_main.simps udp_pending_step split: udp_outcome.splits option.splits
      simp del: udp_step.simps not_None_eq not_Some_eq)
next
  case (USession e)
  then show "udp_wf u \<Longrightarrow> ?thesis"
    by (cases e) (simp_all add: udp_wf_def udp_unbound_at_def udp_pending_step udp_inv_step del: udp_step.simps)
next
  case (UTicks now)
  then show "udp_wf u \<Longrightarrow> ?thesis"
    by (simp add: udp_wf_def udp_unbound_at_def udp_pending_tick udp_inv_step del: udp_step.simps)
qed (auto simp: udp_wf_def udp_unbound_at_def shut_def split: udp_pc.splits option.splits)

lemma udp_wf_idle [simp]: "udp_wf (udp_idle s)"
  by (simp add: udp_wf_def udp_unbound_at_def udp_idle_def) (simp add: udp_start_def)

lemma udp_rank_step: "udp_wf u \<Longrightarrow> udp_rank (udp_loop_step True ev u) \<le> udp_rank u"
proof (cases ev)
  case (ULoop x now)
  then show "udp_wf u \<Longrightarrow> ?thesis"
    by (cases "ul_pc u"; cases "ul_sock u")
      (auto simp: udp_rank_def udp_wf_def udp_unbound_at_def udp_main.simps split: udp_outcome.splits option.splits simp del: udp_step.simps)
next
  case (USession e)
  then show ?thesis by (cases e) (simp_all add: udp_rank_def)
next
  case UCloser
  then show ?thesis by (cases "ul_pc u"; cases "ul_sock u") (simp_all add: udp_rank_def shut_def)
qed (simp_all add: udp_rank_def)

lemma udp_rank_closer: "udp_rank u \<in> {1, 5} \<Longrightarrow> udp_rank (udp_loop_step True UCloser u) < udp_rank u"
  by (cases "ul_pc u"; cases "ul_sock u") (auto simp: udp_rank_def shut_def)

lemma udp_rank_loop:
  "udp_wf u \<Longrightarrow> udp_rank u \<in> {2, 3, 4, 6} \<Longrightarrow> udp_rank (udp_loop_step True (ULoop x now) u) < udp_rank u"
  by (cases "ul_pc u"; cases "ul_sock u"; cases x)
    (auto simp: udp_rank_def udp_wf_def udp_unbound_at_def udp_main.simps split: option.splits simp del: udp_step.simps)

lemma udp_rank_le: "udp_rank u \<le> 7"
  by (cases "(ul_pc u, ul_sock u)" rule: udp_pc_rank.cases) (simp_all add: udp_rank_def)

lemma udp_rank_zero: "udp_rank u = 0 \<longleftrightarrow> (\<exists>r. ul_pc u = UQuit r) \<and> ul_sock u \<noteq> Bound"
  by (cases "ul_pc u"; cases "ul_sock u") (auto simp: udp_rank_def)

section \<open>The two sides together\<close>

lemma set_srv_frame [simp]:
  "tp_ctx (set_srv s p) = tp_ctx p" "tp_start (set_srv s p) = tp_start p" "tp_errs (set_srv s p) = tp_errs p"
  "tp_udp (set_srv s p) = tp_udp p" "ac_pc (tp_tcp (set_srv s p)) = ac_pc (tp_tcp p)"
  "ac_listener (tp_tcp (set_srv s p)) = ac_listener (tp_tcp p)"
  "running (ac_sys (tp_tcp (set_srv s p))) = running (ac_sys (tp_tcp p))"
  "served (ac_sys (tp_tcp (set_srv s p))) = served (ac_sys (tp_tcp p))"
  "server (ac_sys (tp_tcp (set_srv s p))) = s" "tun_srv (set_srv s p) = s"
  "accept_wf (tp_tcp (set_srv s p)) = accept_wf (tp_tcp p)"
  "accept_rank (tp_tcp (set_srv s p)) = accept_rank (tp_tcp p)"
  by (simp_all add: set_srv_def tun_srv_def accept_wf_def accept_rank_def)

text \<open>The state of the UDP side with the server lent to it.\<close>

definition lent :: "tun_proc \<Rightarrow> udp_loop" where
  "lent p = (tp_udp p)\<lparr>ul_state := (ul_state (tp_udp p))\<lparr>u_server := tun_srv p\<rparr>\<rparr>"

lemma lent_frame [simp]:
  "ul_pc (lent p) = ul_pc (tp_udp p)" "ul_sock (lent p) = ul_sock (tp_udp p)"
  "udp_wf (lent p) = udp_wf (tp_udp p)" "udp_rank (lent p) = udp_rank (tp_udp p)"
  "u_server (ul_state (lent p)) = tun_srv p" "readers (ul_state (lent p)) = readers (ul_state (tp_udp p))"
  "u_reaped (ul_state (lent p)) = u_reaped (ul_state (tp_udp p))"
  "u_sess (ul_state (lent p)) = u_sess (ul_state (tp_udp p))"
  by (simp_all add: lent_def udp_wf_def udp_unbound_at_def udp_rank_def readers_def)

lemma on_udp_lent: "on_udp f p = set_srv (u_server (ul_state (f (lent p)))) (p\<lparr>tp_udp := f (lent p)\<rparr>)"
  by (simp add: on_udp_def lent_def Let_def)

lemma tun_step_tcp [simp]:
  "tp_tcp (tun_step outer (TunTcp ev) p) = accept_step tun_sys (tun_done outer p) ev (tp_tcp p)"
  "tp_udp (tun_step outer (TunTcp ev) p) = tp_udp p"
  "tp_ctx (tun_step outer (TunTcp ev) p) = tp_ctx p" "tp_start (tun_step outer (TunTcp ev) p) = tp_start p"
  by (simp_all add: Let_def)

lemma tun_step_udp [simp]:
  "tp_udp (tun_step outer (TunUdp ev) p) = udp_loop_step (tun_done outer p) ev (lent p)"
  "ac_pc (tp_tcp (tun_step outer (TunUdp ev) p)) = ac_pc (tp_tcp p)"
  "ac_listener (tp_tcp (tun_step outer (TunUdp ev) p)) = ac_listener (tp_tcp p)"
  "running (ac_sys (tp_tcp (tun_step outer (TunUdp ev) p))) = running (ac_sys (tp_tcp p))"
  "served (ac_sys (tp_tcp (tun_step outer (TunUdp ev) p))) = served (ac_sys (tp_tcp p))"
  "server (ac_sys (tp_tcp (tun_step outer (TunUdp ev) p))) = u_server (ul_state (udp_loop_step (tun_done outer p) ev (lent p)))"
  "tp_ctx (tun_step outer (TunUdp ev) p) = tp_ctx p" "tp_start (tun_step outer (TunUdp ev) p) = tp_start p"
  "accept_wf (tp_tcp (tun_step outer (TunUdp ev) p)) = accept_wf (tp_tcp p)"
  "accept_rank (tp_tcp (tun_step outer (TunUdp ev) p)) = accept_rank (tp_tcp p)"
  by (simp_all add: on_udp_lent Let_def accept_wf_def accept_rank_def)

declare tun_step.simps(2,3) [simp del]

lemma tun_step_return [simp]:
  "tp_tcp (tun_step outer TunReturn p) = tp_tcp p" "tp_udp (tun_step outer TunReturn p) = tp_udp p"
  "tp_ctx (tun_step outer TunReturn p) = tp_ctx p"
  by (simp_all split: start_pc.split list.split)

text \<open>
  The two loops are started together, and of the loops that could not listen each has sent one
  error, which is in the channel or was returned.
\<close>

fun tcp_failed :: "'c accept_pc \<Rightarrow> nat" where
  "tcp_failed (Finished (Some _)) = 1"
| "tcp_failed _ = 0"

fun udp_failed :: "udp_pc \<Rightarrow> nat" where
  "udp_failed (UQuit (Some _)) = 1"
| "udp_failed _ = 0"

fun start_returned :: "start_pc \<Rightarrow> nat" where
  "start_returned (Returned _) = 1"
| "start_returned _ = 0"

definition tun_wf :: "tun_proc \<Rightarrow> bool" where
  "tun_wf p \<longleftrightarrow> accept_wf (tp_tcp p) \<and> udp_wf (tp_udp p) \<and>
     (ac_pc (tp_tcp p) = Unstarted \<longleftrightarrow> tp_start p = NotCalled) \<and>
     (ul_pc (tp_udp p) = UUnstarted \<longleftrightarrow> tp_start p = NotCalled) \<and>
     (tp_ctx p = None \<longleftrightarrow> tp_start p = NotCalled) \<and>
     length (tp_errs p) + start_returned (tp_start p) = tcp_failed (ac_pc (tp_tcp p)) + udp_failed (ul_pc (tp_udp p))"

text \<open>A step of a loop starts nothing, and ends it with an error only where it listens.\<close>

lemma accept_step_pc:
  "ac_pc (accept_step step done ev a) = Unstarted \<longleftrightarrow> ac_pc a = Unstarted"
  "ac_pc a \<noteq> Binding \<Longrightarrow> tcp_failed (ac_pc (accept_step step done ev a)) = tcp_failed (ac_pc a)"
proof -
  have "(ac_pc (accept_step step done ev a) = Unstarted \<longleftrightarrow> ac_pc a = Unstarted) \<and>
    (ac_pc a \<noteq> Binding \<longrightarrow> tcp_failed (ac_pc (accept_step step done ev a)) = tcp_failed (ac_pc a))"
    by (cases "(step, done, ev, a)" rule: accept_step.cases)
      (auto simp: accept_defs split: accept_pc.splits outcome.splits)
  then show "ac_pc (accept_step step done ev a) = Unstarted \<longleftrightarrow> ac_pc a = Unstarted"
    "ac_pc a \<noteq> Binding \<Longrightarrow> tcp_failed (ac_pc (accept_step step done ev a)) = tcp_failed (ac_pc a)"
    by simp_all
qed

lemma udp_loop_step_pc:
  "ul_pc (udp_loop_step done ev u) = UUnstarted \<longleftrightarrow> ul_pc u = UUnstarted"
  "ul_pc u \<noteq> UBinding \<Longrightarrow> udp_failed (ul_pc (udp_loop_step done ev u)) = udp_failed (ul_pc u)"
proof -
  have "(ul_pc (udp_loop_step done ev u) = UUnstarted \<longleftrightarrow> ul_pc u = UUnstarted) \<and>
    (ul_pc u \<noteq> UBinding \<longrightarrow> udp_failed (ul_pc (udp_loop_step done ev u)) = udp_failed (ul_pc u))"
    by (cases "(done, ev, u)" rule: udp_loop_step.cases)
      (auto simp: udp_main.simps simp del: udp_step.simps split: udp_pc.splits udp_outcome.splits)
  then show "ul_pc (udp_loop_step done ev u) = UUnstarted \<longleftrightarrow> ul_pc u = UUnstarted"
    "ul_pc u \<noteq> UBinding \<Longrightarrow> udp_failed (ul_pc (udp_loop_step done ev u)) = udp_failed (ul_pc u)"
    by simp_all
qed

lemma tcp_error_length:
  assumes "ac_pc (tp_tcp q) = ac_pc (accept_step step done ev (tp_tcp p))"
  shows "tcp_failed (ac_pc (tp_tcp q)) = tcp_failed (ac_pc (tp_tcp p)) + length (tcp_error p q)"
  using accept_step_pc(2) [of "tp_tcp p" step "done" ev] unfolding assms [symmetric]
  by (cases "ac_pc (tp_tcp p)"; cases "ac_pc (tp_tcp q)" rule: tcp_failed.cases)
    (simp_all add: tcp_error_def split: accept_pc.split option.split)

lemma udp_error_length:
  assumes "ul_pc (tp_udp q) = ul_pc (udp_loop_step done ev u)" and "ul_pc u = ul_pc (tp_udp p)"
  shows "udp_failed (ul_pc (tp_udp q)) = udp_failed (ul_pc (tp_udp p)) + length (udp_bind_error p q)"
  using udp_loop_step_pc(2) [of u "done" ev] unfolding assms(1) [symmetric] assms(2)
  by (cases "ul_pc (tp_udp p)"; cases "ul_pc (tp_udp q)" rule: udp_failed.cases)
    (simp_all add: udp_bind_error_def split: udp_pc.split option.split)

lemma tun_wf_step:
  assumes "tun_wf p"
  shows "tun_wf (tun_step outer ev p)"
proof (cases ev)
  case TunStart
  with assms show ?thesis
    by (auto simp: tun_wf_def accept_wf_def unbound_at_def udp_wf_def udp_unbound_at_def)
next
  case (TunTcp e)
  let ?q = "p\<lparr>tp_tcp := accept_step tun_sys (tun_done outer p) e (tp_tcp p)\<rparr>"
  have "tcp_failed (ac_pc (tp_tcp ?q)) = tcp_failed (ac_pc (tp_tcp p)) + length (tcp_error p ?q)"
    by (rule tcp_error_length) simp
  with assms TunTcp show ?thesis
    by (simp add: tun_step.simps tun_wf_def accept_wf_step accept_step_pc(1) Let_def del: accept_step.simps)
next
  case (TunUdp e)
  let ?q = "on_udp (udp_loop_step (tun_done outer p) e) p"
  have "udp_failed (ul_pc (tp_udp ?q)) = udp_failed (ul_pc (tp_udp p)) + length (udp_bind_error p ?q)"
    by (rule udp_error_length [where u = "lent p"]) (simp_all add: on_udp_lent)
  with assms TunUdp show ?thesis
    by (simp add: tun_step.simps tun_wf_def on_udp_lent udp_wf_step udp_loop_step_pc(1) Let_def del: udp_loop_step.simps)
next
  case TunReturn
  with assms show ?thesis by (auto simp: tun_wf_def split: start_pc.split list.split)
qed

lemma tun_wf_stop: "tun_wf p \<Longrightarrow> tun_wf (tun_Stop p)"
  by (auto simp: tun_wf_def tun_Stop_def accept_wf_def udp_wf_def shut_def split: option.split)

lemma tun_wf_srv [simp]: "tun_wf (set_srv s p) = tun_wf p"
  by (simp add: tun_wf_def)

lemma tun_wf_init [simp]: "tun_wf (tun_proc_init s)"
  by (simp add: tun_wf_def tun_proc_init_def) (simp add: accept_idle_def udp_idle_def)

section \<open>The counters both sides share\<close>

text \<open>
  TCP connections take a slot and UDP sessions do not; both count in \<^verbatim>\<open>ConnsActive\<close> and
  \<^verbatim>\<open>ConnsTotal\<close>, only the former in \<^verbatim>\<open>TCPAccepts\<close>.
\<close>

definition tun_counts :: "tun_server \<Rightarrow> tun_proc \<Rightarrow> bool" where
  "tun_counts s0 p \<longleftrightarrow>
     (let S = ac_sys (tp_tcp p); u = ul_state (tp_udp p); st = tn_stats (server S) in
      tn_sem (server S) = length (running S) \<and> length (running S) \<le> tn_slots s0 \<and>
      tn_slots (server S) = tn_slots s0 \<and>
      tn_conns_active st + of_nat (u_reaped u) =
        tn_conns_active (tn_stats s0) + of_nat (length (running S)) + of_nat (readers u) \<and>
      tn_conns_total st = tn_conns_total (tn_stats s0) + of_nat (length (served S)) + of_nat (length (u_sess u)) \<and>
      tn_tcp_accepts st = tn_tcp_accepts (tn_stats s0) + of_nat (length (served S)))"

lemma tun_counts_tcp:
  assumes "tun_counts s0 p" and "tp_udp q = tp_udp p" and "ac_sys (tp_tcp q) = tun_sys ev (ac_sys (tp_tcp p))"
  shows "tun_counts s0 q"
proof -
  let ?S = "ac_sys (tp_tcp p)" and ?T = "tun_sys ev (ac_sys (tp_tcp p))"
  have w: "tn_sem (server ?S) = length (running ?S)" "length (running ?S) \<le> tn_slots (server ?S)"
    using assms(1) by (simp_all add: tun_counts_def Let_def)
  note g = tgate.gate_step [OF w, of tun_effects ev]
  have a: "tn_conns_active (tn_stats (server ?T)) =
      tn_conns_active (tn_stats (server ?S)) + of_nat (length (running ?T)) - of_nat (length (running ?S))"
    using g by (simp add: eq_diff_eq)
  have t: "tn_conns_total (tn_stats (server ?T)) =
      tn_conns_total (tn_stats (server ?S)) + of_nat (length (served ?T)) - of_nat (length (served ?S))"
    using g by (simp add: eq_diff_eq)
  have "tn_tcp_accepts (tn_stats (server ?T)) - tn_conns_total (tn_stats (server ?T)) =
      tn_tcp_accepts (tn_stats (server ?S)) - tn_conns_total (tn_stats (server ?S))"
    by (rule tun_accepts_step)
  then have c: "tn_tcp_accepts (tn_stats (server ?T)) =
      tn_tcp_accepts (tn_stats (server ?S)) + of_nat (length (served ?T)) - of_nat (length (served ?S))"
    using t by (simp add: algebra_simps)
  show ?thesis
    using assms(1) g unfolding tun_counts_def Let_def assms(2,3) a t c
    by (simp add: algebra_simps)
qed

text \<open>A step of the UDP side: the semaphore is not touched, and the counters move with readers and sessions.\<close>

lemma udp_total_step:
  assumes "udp_inv s"
  shows "tn_sem (u_server (udp_step ev s)) = tn_sem (u_server s) \<and> tn_slots (u_server (udp_step ev s)) = tn_slots (u_server s) \<and>
    tn_tcp_accepts (tn_stats (u_server (udp_step ev s))) = tn_tcp_accepts (tn_stats (u_server s)) \<and>
    tn_conns_total (tn_stats (u_server (udp_step ev s))) + of_nat (length (u_sess s)) =
      tn_conns_total (tn_stats (u_server s)) + of_nat (length (u_sess (udp_step ev s)))"
proof (cases ev)
  case (UTick now)
  let ?P = "\<lambda>t. tn_tcp_accepts (tn_stats (u_server t)) = tn_tcp_accepts (tn_stats (u_server s)) \<and>
    tn_sem (u_server t) = tn_sem (u_server s) \<and> tn_slots (u_server t) = tn_slots (u_server s) \<and>
    tn_conns_total (tn_stats (u_server t)) = tn_conns_total (tn_stats (u_server s)) \<and> length (u_sess t) = length (u_sess s)"
  have "udp_inv (udp_tick now s) \<and> ?P (udp_tick now s)"
    by (rule udp_tick_induct [OF assms]) (simp_all add: udp_reap_def on_stats_def on_session_def add_active_def)
  then show ?thesis by (simp add: UTick)
qed (auto simp: udp_defs on_stats_def on_session_def add_active_def add_out_def split: option.split)

lemma udp_session_counts:
  "u_server (ul_state (udp_reader_step ev u)) = u_server (udp_step ev (ul_state u))"
  "u_sess (ul_state (udp_reader_step ev u)) = u_sess (udp_step ev (ul_state u))"
  "u_reaped (ul_state (udp_reader_step ev u)) = u_reaped (udp_step ev (ul_state u))"
  "readers (ul_state (udp_reader_step ev u)) = readers (udp_step ev (ul_state u))"
  by (simp_all add: udp_reader_step_def readers_def Let_def)

lemma udp_loop_step_state:
  obtains "ul_state (udp_loop_step done ev u) = ul_state u"
  | e where "ul_state (udp_loop_step done ev u) = udp_step e (ul_state u)"
  | e where "udp_loop_step done ev u = udp_reader_step e u"
proof (cases ev)
  case (ULoop x now)
  with that(1,2) show thesis
    by (cases "ul_pc u"; cases x; cases "ul_sock u = Shut") (simp_all add: udp_main.simps del: udp_step.simps)
next
  case (USession e)
  with that(1,3) show thesis by (cases e) simp_all
next
  case (UTicks now)
  with that(1,2) show thesis by (cases "ul_ticker u") (simp_all del: udp_step.simps)
qed (use that(1) in \<open>cases "done"; simp\<close>)+

lemma tun_counts_udp:
  assumes "tun_counts s0 p" and "tun_wf p"
  shows "tun_counts s0 (tun_step outer (TunUdp ev) p)"
proof -
  let ?s = "ul_state (lent p)" and ?u = "ul_state (udp_loop_step (tun_done outer p) ev (lent p))"
  have inv: "udp_inv ?s" using assms(2) by (simp add: tun_wf_def udp_wf_def lent_def)
  have acc: "udp_accounts (tn_conns_active (tn_stats s0) + of_nat (length (running (ac_sys (tp_tcp p))))) ?s"
    using assms(1) by (simp add: udp_accounts_def tun_counts_def Let_def tun_srv_def)
  have "udp_accounts (tn_conns_active (tn_stats s0) + of_nat (length (running (ac_sys (tp_tcp p))))) ?u \<and>
    tn_sem (u_server ?u) = tn_sem (u_server ?s) \<and> tn_slots (u_server ?u) = tn_slots (u_server ?s) \<and>
    tn_tcp_accepts (tn_stats (u_server ?u)) = tn_tcp_accepts (tn_stats (u_server ?s)) \<and>
    tn_conns_total (tn_stats (u_server ?u)) + of_nat (length (u_sess ?s)) =
      tn_conns_total (tn_stats (u_server ?s)) + of_nat (length (u_sess ?u))"
    by (rule udp_loop_step_state [of "tun_done outer p" ev "lent p"])
      (use acc udp_accounts_step [OF inv acc] udp_total_step [OF inv] in
        \<open>simp_all add: udp_accounts_def udp_session_counts del: udp_step.simps\<close>)
  with assms(1) show ?thesis
    unfolding tun_counts_def Let_def tun_step_udp
    by (simp add: udp_accounts_def tun_srv_def add.assoc)
qed

lemma tun_counts_step:
  assumes "tun_counts s0 p" and "tun_wf p"
  shows "tun_counts s0 (tun_step outer ev p)"
proof (cases ev)
  case (TunTcp e)
  show ?thesis
  proof (rule accept_step_sys [of tun_sys "tun_done outer p" e "tp_tcp p"])
    assume "ac_sys (accept_step tun_sys (tun_done outer p) e (tp_tcp p)) = ac_sys (tp_tcp p)"
    with assms(1) show ?thesis unfolding TunTcp tun_counts_def tun_step_tcp by simp
  next
    fix e' assume "ac_sys (accept_step tun_sys (tun_done outer p) e (tp_tcp p)) = tun_sys e' (ac_sys (tp_tcp p))"
    then show ?thesis unfolding TunTcp by (intro tun_counts_tcp [OF assms(1)]) simp_all
  qed
next
  case (TunUdp e)
  with tun_counts_udp [OF assms] show ?thesis by simp
qed (use assms(1) in \<open>auto simp: tun_counts_def Let_def split: start_pc.split list.split\<close>)

lemma tun_counts_stop: "tun_counts s0 (tun_Stop p) = tun_counts s0 p"
  by (simp add: tun_counts_def tun_Stop_def Let_def)

lemma tun_counts_init: "tn_sem s = 0 \<Longrightarrow> tun_counts s (tun_proc_init s)"
  by (simp add: tun_counts_def tun_proc_init_def accept_idle_def udp_idle_def udp_start_def sys_start_def readers_def)

section \<open>Rounds\<close>

definition stopping :: "bool \<Rightarrow> tun_proc \<Rightarrow> bool" where
  "stopping outer p \<longleftrightarrow> tun_wf p \<and> tun_done outer p"

lemma tun_ctx_step: "tp_ctx p = Some True \<Longrightarrow> tun_wf p \<Longrightarrow> tp_ctx (tun_step outer ev p) = Some True"
  by (cases ev) (auto simp: tun_wf_def split: start_pc.split list.split)

lemma stopping_step: "stopping outer p \<Longrightarrow> stopping outer (tun_step outer ev p)"
  using tun_ctx_step [of p outer ev] tun_wf_step [of p outer ev] by (auto simp: stopping_def tun_done_def)

lemma accept_rank_eq:
  "accept_wf a \<Longrightarrow> accept_rank a = 7 \<longleftrightarrow> ac_pc a = Unstarted"
  by (cases "ac_pc a"; cases "ac_listener a") (auto simp: accept_rank_def accept_wf_def unbound_at_def)

lemma udp_rank_eq: "udp_rank u = 7 \<longleftrightarrow> ul_pc u = UUnstarted"
  by (cases "ul_pc u"; cases "ul_sock u") (auto simp: udp_rank_def)

text \<open>Which event helps at which rank: the call of \<open>Start\<close> at 7, the closing goroutine at 5 and 1, else the loop.\<close>

definition tcp_help :: "nat \<Rightarrow> tun_event set" where
  "tcp_help n = (if n = 7 then {TunStart} else if n \<in> {1, 5} then {TunTcp Closer} else range (\<lambda>x. TunTcp (Loop x)))"

definition udp_help :: "nat \<Rightarrow> tun_event set" where
  "udp_help n =
     (if n = 7 then {TunStart} else if n \<in> {1, 5} then {TunUdp UCloser} else {e. \<exists>x now. e = TunUdp (ULoop x now)})"

lemma other_ranks: "n \<le> 7 \<Longrightarrow> n \<noteq> 0 \<Longrightarrow> n \<noteq> 7 \<Longrightarrow> n \<notin> {1, 5} \<Longrightarrow> n \<in> {2, 3, 4, 6 :: nat}"
  by auto

interpretation tcp_rounds: fair_rounds "tun_step outer" "stopping outer" "\<lambda>p. accept_rank (tp_tcp p)" tcp_help
  for outer :: bool
proof unfold_locales
  fix p ev
  assume s: "stopping outer p"
  then show "stopping outer (tun_step outer ev p)" by (rule stopping_step)
  have w: "accept_wf (tp_tcp p)" "tun_done outer p" using s by (simp_all add: stopping_def tun_wf_def)
  show "accept_rank (tp_tcp (tun_step outer ev p)) \<le> accept_rank (tp_tcp p)"
  proof (cases ev)
    case TunStart
    with s show ?thesis
      by (auto simp: stopping_def tun_wf_def accept_rank_def)
  qed (use w in \<open>simp_all add: accept_rank_step del: accept_step.simps tun_step.simps(4)\<close>)
  assume n: "accept_rank (tp_tcp p) \<noteq> 0" and ev: "ev \<in> tcp_help (accept_rank (tp_tcp p))"
  note o = other_ranks [OF accept_rank_le n]
  show "accept_rank (tp_tcp (tun_step outer ev p)) < accept_rank (tp_tcp p)"
    using ev s w accept_rank_eq [OF w(1)] accept_rank_closer [OF w(1)] accept_rank_loop [OF w(1)] o
    by (auto simp: tcp_help_def stopping_def tun_wf_def accept_rank_def simp del: accept_step.simps split: if_splits)
qed

interpretation udp_rounds: fair_rounds "tun_step outer" "stopping outer" "\<lambda>p. udp_rank (tp_udp p)" udp_help
  for outer :: bool
proof unfold_locales
  fix p ev
  assume s: "stopping outer p"
  then show "stopping outer (tun_step outer ev p)" by (rule stopping_step)
  have w: "udp_wf (lent p)" "tun_done outer p" using s by (simp_all add: stopping_def tun_wf_def)
  show "udp_rank (tp_udp (tun_step outer ev p)) \<le> udp_rank (tp_udp p)"
  proof (cases ev)
    case TunStart
    with s show ?thesis
      by (auto simp: stopping_def tun_wf_def udp_rank_def)
  next
    case (TunUdp e)
    with w udp_rank_step [OF w(1), of e] show ?thesis by (simp del: udp_loop_step.simps)
  qed (simp_all del: tun_step.simps(4))
  assume n: "udp_rank (tp_udp p) \<noteq> 0" and ev: "ev \<in> udp_help (udp_rank (tp_udp p))"
  note o = other_ranks [OF udp_rank_le n]
  show "udp_rank (tp_udp (tun_step outer ev p)) < udp_rank (tp_udp p)"
    using ev s w udp_rank_eq [of "tp_udp p"] udp_rank_closer [of "lent p"] udp_rank_loop [OF w(1)] o
    by (auto simp: udp_help_def stopping_def tun_wf_def udp_rank_def simp del: udp_loop_step.simps split: if_splits)
qed

section \<open>Properties\<close>

text \<open>A loop that listens, or has listened, never fails to listen.\<close>

definition both_listened :: "tun_proc \<Rightarrow> bool" where
  "both_listened p \<longleftrightarrow> tun_wf p \<and> ac_listener (tp_tcp p) \<noteq> Unbound \<and> ul_sock (tp_udp p) \<noteq> Unbound"

lemma listener_step:
  "accept_wf a \<Longrightarrow> ac_listener a \<noteq> Unbound \<Longrightarrow> ac_listener (accept_step step done ev a) \<noteq> Unbound"
  "udp_wf u \<Longrightarrow> ul_sock u \<noteq> Unbound \<Longrightarrow> ul_sock (udp_loop_step done uev u) \<noteq> Unbound"
proof -
  show "accept_wf a \<Longrightarrow> ac_listener a \<noteq> Unbound \<Longrightarrow> ac_listener (accept_step step done ev a) \<noteq> Unbound"
    by (cases "(step, done, ev, a)" rule: accept_step.cases)
      (auto simp: accept_wf_def unbound_at_def accept_defs split: accept_pc.splits outcome.splits)
  show "udp_wf u \<Longrightarrow> ul_sock u \<noteq> Unbound \<Longrightarrow> ul_sock (udp_loop_step done uev u) \<noteq> Unbound"
    by (cases "(done, uev, u)" rule: udp_loop_step.cases)
      (auto simp: udp_wf_def udp_unbound_at_def udp_main.simps shut_def simp del: udp_step.simps split: udp_pc.splits udp_outcome.splits)
qed

lemma both_listened_step: "both_listened p \<Longrightarrow> both_listened (tun_step outer ev p)"
proof (cases ev)
  case TunStart
  then show "both_listened p \<Longrightarrow> ?thesis"
    using tun_wf_step [of p outer ev] by (simp add: both_listened_def)
qed (use tun_wf_step [of p outer ev] listener_step in
    \<open>auto simp: both_listened_def tun_wf_def simp del: accept_step.simps udp_loop_step.simps tun_step.simps(4)\<close>)

interpretation listened: step_invariant "tun_step outer" both_listened for outer
  by unfold_locales (rule both_listened_step)

interpretation tun_inv: step_invariant "tun_step outer" tun_wf for outer
  by unfold_locales (rule tun_wf_step)

text \<open>Then no error was sent, and \<open>Start\<close> waits for one.\<close>

lemma both_listened_waits:
  assumes "both_listened p"
  shows "tp_start p = Awaiting"
proof -
  have "\<not> unbound_at (ac_pc (tp_tcp p))" "\<not> udp_unbound_at (ul_pc (tp_udp p))" "tun_wf p"
    using assms by (auto simp: both_listened_def tun_wf_def accept_wf_def udp_wf_def)
  moreover from this have "tcp_failed (ac_pc (tp_tcp p)) = 0" "udp_failed (ul_pc (tp_udp p)) = 0"
    by (cases "ac_pc (tp_tcp p)" rule: tcp_failed.cases; simp add: unbound_at_def)
      (cases "ul_pc (tp_udp p)" rule: udp_failed.cases; use calculation in \<open>simp add: udp_unbound_at_def\<close>)
  ultimately show ?thesis
    by (cases "tp_start p") (auto simp: tun_wf_def unbound_at_def)
qed

definition tun_fair :: "tun_event list \<Rightarrow> bool" where
  "tun_fair es \<longleftrightarrow> {TunStart, TunTcp Closer, TunUdp UCloser, TunReturn} \<subseteq> set es \<and>
     (\<exists>x. TunTcp (Loop x) \<in> set es) \<and> (\<exists>x now. TunUdp (ULoop x now) \<in> set es)"

lemma tun_fairD:
  assumes "tun_fair es"
  shows "tcp_rounds.fair es" "udp_rounds.fair es"
proof -
  show "tcp_rounds.fair es" using assms unfolding tcp_rounds.fair_def unfolding tcp_help_def tun_fair_def by auto
  show "udp_rounds.fair es" using assms unfolding udp_rounds.fair_def unfolding udp_help_def tun_fair_def by auto
qed

lemma stop_stopping: "tun_wf p \<Longrightarrow> tp_start p \<noteq> NotCalled \<Longrightarrow> stopping outer (tun_Stop p)"
  using tun_wf_stop [of p] by (auto simp: stopping_def tun_done_def tun_Stop_def tun_wf_def)

text \<open>
  C28. \<^verbatim>\<open>Stop\<close> of the tunnel ends both its loops and closes both sockets, in seven rounds in which each
  loop and each closing goroutine gets a turn. But \<^verbatim>\<open>Start\<close>, which both loops served, does not return: a
  loop that ends because its context is done sends nothing on the channel, and \<^verbatim>\<open>Start\<close> waits for
  an error that never comes.
\<close>

theorem tunnel_stop_strands_start:
  assumes "p = fold (tun_step outer) evs (tun_proc_init srv)"
    and "ac_listener (tp_tcp p) \<noteq> Unbound" and "ul_sock (tp_udp p) \<noteq> Unbound"
    and "\<forall>es\<in>set rounds. tun_fair es" and "7 \<le> length rounds"
  shows "let q = fold (tun_step outer) (concat rounds) (tun_Stop p) in
    ac_pc (tp_tcp q) = Finished None \<and> ac_listener (tp_tcp q) = Shut \<and>
    ul_pc (tp_udp q) = UQuit None \<and> ul_sock (tp_udp q) = Shut \<and> tp_start q = Awaiting"
proof -
  let ?q = "fold (tun_step outer) (concat rounds) (tun_Stop p)"
  have "tun_wf p" unfolding assms(1) by (rule tun_inv.run_inv) simp
  with assms(2,3) have b: "both_listened p" by (simp add: both_listened_def)
  then have "both_listened (tun_Stop p)"
    using tun_wf_stop [of p] by (simp add: both_listened_def) (simp add: tun_Stop_def shut_def)
  then have q: "both_listened ?q" by (rule listened.run_inv)
  have s: "stopping outer (tun_Stop p)"
    using stop_stopping [of p outer] both_listened_waits [OF b] \<open>tun_wf p\<close> by simp
  note fair = tun_fairD [OF bspec [OF assms(4)]]
  have "accept_rank (tp_tcp ?q) = 0" "udp_rank (tp_udp ?q) = 0"
    using tcp_rounds.descent_ends(2) [OF s ballI [OF fair(1)]] udp_rounds.descent_ends(2) [OF s ballI [OF fair(2)]]
      accept_rank_le [of "tp_tcp (tun_Stop p)"] udp_rank_le [of "tp_udp (tun_Stop p)"] assms(5) by simp_all
  moreover have "accept_wf (tp_tcp ?q)" "udp_wf (tp_udp ?q)" using q by (simp_all add: both_listened_def tun_wf_def)
  moreover have "ac_listener (tp_tcp ?q) \<noteq> Unbound" "ul_sock (tp_udp ?q) \<noteq> Unbound" using q by (simp_all add: both_listened_def)
  ultimately obtain r u where e: "ac_pc (tp_tcp ?q) = Finished r" "ac_listener (tp_tcp ?q) = Shut"
      "ul_pc (tp_udp ?q) = UQuit u" "ul_sock (tp_udp ?q) = Shut" "accept_wf (tp_tcp ?q)" "udp_wf (tp_udp ?q)"
    by (cases "ac_listener (tp_tcp ?q)"; cases "ul_sock (tp_udp ?q)") (auto simp: accept_rank_zero udp_rank_zero)
  then have "r = None" "u = None"
    by (cases r; cases u; simp add: accept_wf_def unbound_at_def udp_wf_def udp_unbound_at_def)+
  with e both_listened_waits [OF q] show ?thesis by (simp add: Let_def)
qed

definition tun_opening :: "tun_event list" where
  "tun_opening = [TunStart, TunTcp (Loop Fine), TunUdp (ULoop UFine 0)]"

definition tun_turns :: "tun_event list" where
  "tun_turns = [TunStart, TunTcp Closer, TunTcp (Loop Fine), TunUdp UCloser, TunUdp (ULoop UFine 0), TunReturn]"

theorem tunnel_stop_strands_start_witness:
  "tp_start (fold (tun_step False) (concat (replicate 7 tun_turns))
    (tun_Stop (fold (tun_step False) tun_opening (tun_proc_init (NewServer ''a'' ''b'' 0))))) = Awaiting"
proof -
  let ?p = "fold (tun_step False) tun_opening (tun_proc_init (NewServer ''a'' ''b'' 0))"
  have "ac_listener (tp_tcp ?p) \<noteq> Unbound" "ul_sock (tp_udp ?p) \<noteq> Unbound"
    by (simp_all add: tun_opening_def tun_proc_init_def accept_idle_def udp_idle_def accept_loop.simps lent_def udp_main.simps)
  moreover have "tun_fair tun_turns" by (auto simp: tun_fair_def tun_turns_def)
  ultimately show ?thesis
    using tunnel_stop_strands_start [OF refl, of False tun_opening "NewServer ''a'' ''b'' 0" "replicate 7 tun_turns"]
    by (simp add: Let_def)
qed

end
