(* ===== verification/Go_Bufio.thy ===== *)
theory Go_Bufio
  imports Conn_Relay
begin

text \<open>
  What the program uses of Go's package \<^verbatim>\<open>bufio\<close>: \<^verbatim>\<open>Peek(1)\<close> and \<^verbatim>\<open>ReadString('\n')\<close> on a reader with a
  buffer of \<open>n\<close> bytes over a connection.  The reader takes whole segments (as far as they fit), so
  after a line it may hold bytes that came with it; whoever reads on from the connection and not from
  the reader misses them.
\<close>

definition newline :: byte where
  "newline = 10"

definition peek_byte :: "conn \<Rightarrow> byte option" where
  "peek_byte c = (case stream c of [] \<Rightarrow> None | b # _ \<Rightarrow> Some b)"

text \<open>
  \<^verbatim>\<open>ReadString\<close>: the line with its line feed, the bytes left in the reader's buffer, and the
  connection; \<^const>\<open>None\<close> when the input ends before a line feed.  \<open>acc\<close> are full buffers already taken,
  \<open>buf\<close> is the buffer.
\<close>

function bufio_line ::
  "nat \<Rightarrow> byte list \<Rightarrow> byte list \<Rightarrow> conn \<Rightarrow> (byte list \<times> byte list \<times> conn) option" where
  "bufio_line n acc buf c =
     (if newline \<in> set buf then
        Some (acc @ takeWhile (\<lambda>b. b \<noteq> newline) buf @ [newline],
              drop 1 (dropWhile (\<lambda>b. b \<noteq> newline) buf), c)
      else if n = 0 then None
      else if n \<le> length buf then bufio_line n (acc @ buf) [] c
      else case conn_read (n - length buf) c of
             None \<Rightarrow> None
           | Some (b, c') \<Rightarrow> bufio_line n acc (buf @ b) c')"
  by pat_completeness auto
termination
  by (relation "measures [\<lambda>(n, acc, buf, c). pending c, \<lambda>(n, acc, buf, c). length buf]")
    (auto intro: conn_read_pending [rotated])

declare bufio_line.simps [simp del]

text \<open>\<open>upto_newline s\<close> and \<open>after_newline s\<close> cut a stream after its first line feed.\<close>

definition upto_newline :: "byte list \<Rightarrow> byte list" where
  "upto_newline s = takeWhile (\<lambda>b. b \<noteq> newline) s @ [newline]"

definition after_newline :: "byte list \<Rightarrow> byte list" where
  "after_newline s = drop 1 (dropWhile (\<lambda>b. b \<noteq> newline) s)"

lemma newline_cut [simp]:
  "newline \<notin> set s \<Longrightarrow> upto_newline (s @ newline # t) = s @ [newline]"
  "newline \<notin> set s \<Longrightarrow> after_newline (s @ newline # t) = t"
  by (auto simp: upto_newline_def after_newline_def takeWhile_append dropWhile_append)

lemma newline_prefix:
  "newline \<in> set s \<Longrightarrow> upto_newline (s @ t) = upto_newline s"
  "newline \<in> set s \<Longrightarrow> after_newline (s @ t) = after_newline s @ t"
proof -
  assume "newline \<in> set s"
  then obtain u v where "s = u @ newline # v" and "newline \<notin> set u" by (meson split_list_first)
  then show "upto_newline (s @ t) = upto_newline s" "after_newline (s @ t) = after_newline s @ t" by simp_all
qed

lemma newline_skip:
  "newline \<notin> set s \<Longrightarrow> upto_newline (s @ t) = s @ upto_newline t"
  "newline \<notin> set s \<Longrightarrow> after_newline (s @ t) = after_newline t"
  by (auto simp: upto_newline_def after_newline_def takeWhile_append dropWhile_append)

text \<open>
  The line read is the first line of the input, however it is segmented; the bytes in the buffer
  and the input left are what follows it.
\<close>

lemma bufio_line_spec:
  assumes "0 < n"
  shows "case bufio_line n acc buf c of
      None \<Rightarrow> newline \<notin> set (buf @ stream c)
    | Some (l, rest, c') \<Rightarrow> newline \<in> set (buf @ stream c) \<and> l = acc @ upto_newline (buf @ stream c) \<and>
        rest @ stream c' = after_newline (buf @ stream c) \<and> (\<exists>q. c' = c\<lparr>inq := q\<rparr>)"
  using assms
proof (induction n acc buf c rule: bufio_line.induct)
  case (1 n acc buf c)
  show ?case
  proof (cases "newline \<in> set buf")
    case True
    then show ?thesis
      by (subst bufio_line.simps)
        (auto simp: newline_prefix intro!: exI [of _ "inq c"] simp flip: upto_newline_def after_newline_def One_nat_def)
  next
    case nl: False
    show ?thesis
    proof (cases "n \<le> length buf")
      case True
      have "bufio_line n acc buf c = bufio_line n (acc @ buf) [] c"
        using nl True 1(3) by (subst bufio_line.simps) simp
      with 1(1) [OF nl _ True] 1(3) nl show ?thesis
        by (auto simp: newline_skip split: option.splits)
    next
      case False
      show ?thesis
      proof (cases "conn_read (n - length buf) c")
        case None
        then have "bufio_line n acc buf c = None" using nl False by (subst bufio_line.simps) simp
        with conn_read_None_stream [OF None] nl show ?thesis by simp
      next
        case (Some x)
        obtain b c' where x: "x = (b, c')" by fastforce
        have e: "bufio_line n acc buf c = bufio_line n acc (buf @ b) c'"
          using nl False 1(3) by (subst bufio_line.simps) (simp add: Some x)
        note rd = conn_read_Some [OF Some [unfolded x]]
        have "\<exists>q. c' = c\<lparr>inq := q\<rparr>" using rd(2) by metis
        then have upd: "\<exists>q. c'' = c\<lparr>inq := q\<rparr>" if "\<exists>q. c'' = c'\<lparr>inq := q\<rparr>" for c''
          using that by auto
        have "buf @ stream c = (buf @ b) @ stream c'" using rd(1) by simp
        with 1(2) [OF nl _ False Some x [symmetric] 1(3)] 1(3) upd show ?thesis
          unfolding e by (auto split: option.splits)
      qed
    qed
  qed
qed

lemma bufio_line_first:
  assumes "0 < n" and "stream c = l @ newline # t" and "newline \<notin> set l"
  obtains rest q where "bufio_line n [] [] c = Some (l @ [newline], rest, c\<lparr>inq := q\<rparr>)"
    and "rest @ stream (c\<lparr>inq := q\<rparr>) = t"
  using bufio_line_spec [OF assms(1), where acc = "[]" and buf = "[]" and c = c] assms(2,3) that
  by (auto split: option.splits)

text \<open>A line in a segment of its own leaves nothing behind in the buffer.\<close>

lemma bufio_line_alone:
  assumes "\<not> closed c" and "inq c = (l @ newline # t) # q" and "newline \<notin> set l"
    and "length (l @ newline # t) \<le> n"
  shows "bufio_line n [] [] c = Some (l @ [newline], t, c\<lparr>inq := q\<rparr>)"
proof -
  have "conn_read n c = Some (l @ newline # t, c\<lparr>inq := q\<rparr>)"
    using assms by (simp add: conn_read_def)
  moreover have "n \<noteq> 0" using assms(4) by auto
  ultimately have "bufio_line n [] [] c = bufio_line n [] (l @ newline # t) (c\<lparr>inq := q\<rparr>)"
    by (subst bufio_line.simps) simp
  also have "\<dots> = Some (l @ [newline], t, c\<lparr>inq := q\<rparr>)"
    using assms(3) by (subst bufio_line.simps) (simp add: takeWhile_append dropWhile_append)
  finally show ?thesis .
qed

end
