(* ===== verification/Relay_Server.thy ===== *)
theory Relay_Server
  imports Socks_Protocol Go_Bufio
begin

text \<open>
  \<^verbatim>\<open>cmd/relay/main.go\<close>: the relay server, which phones register with and through which clients
  reach them. Its goroutines, one for each accepted connection, share two maps under two mutexes,
  write to each other's connections and hand connections over through channels. So connections
  live in a store and are referred to by number; the goroutine that handles connection \<open>i\<close> is
  thread \<open>i\<close>. A thread runs from one point where another can intervene (a mutex, a channel, the
  end of a read on the control connection) to the next in one step, and a run is any interleaving
  of such steps. A pipe runs to its end in one step, which \<^verbatim>\<open>Pipe_Rounds\<close> justifies. Ids are
  counted by Go's \<^verbatim>\<open>int\<close>, taken as unbounded.
\<close>

section \<open>The SOCKS5 front\<close>

text \<open>
  Lines 168 to 212.  Reads through the \<^verbatim>\<open>bufio\<close> reader are reads from the connection here, since the
  same reader is used for the pipe; failed writes are ignored.  The result is the target address, or
  a return from the handler.
\<close>

definition readAddr :: "byte \<Rightarrow> 'e hstate \<Rightarrow> (string \<times> 'e hstate) option" where
  "readAddr atyp h =
     (if atyp = 1 then (case recv 4 4 h of RGot b h \<Rightarrow> Some (ip_string b, h) | _ \<Rightarrow> None)
      else if atyp = 3 then
        (case recv 1 1 h of
           RGot b h \<Rightarrow>
             (let n = unat (b ! 0) in
              case recv n n h of RGot d h \<Rightarrow> Some (str_of d, h) | _ \<Rightarrow> None)
         | _ \<Rightarrow> None)
      else if atyp = 4 then (case recv 16 16 h of RGot b h \<Rightarrow> Some (ip_string b, h) | _ \<Rightarrow> None)
      else None)"

definition readPort :: "'e hstate \<Rightarrow> (nat \<times> 'e hstate) option" where
  "readPort h = (case recv 2 2 h of RGot b h \<Rightarrow> Some (be16 (b ! 0) (b ! 1), h) | _ \<Rightarrow> None)"

definition reject :: "byte \<Rightarrow> 'e hstate \<Rightarrow> 'e hstate" where
  "reject rep h = snd (send (reply_code rep) h)"

definition relay_greet :: "'e hstate \<Rightarrow> 'e hstate + 'e hstate" where
  "relay_greet h =
     (case recv 2 2 h of
        RGot hdr h \<Rightarrow>
          (let n = unat (hdr ! 1) in
           if 255 < n then Inl h
           else case recv n n h of RGot _ h \<Rightarrow> Inr (snd (send no_auth h)) | _ \<Rightarrow> Inl h)
      | _ \<Rightarrow> Inl h)"

definition relay_request :: "'e hstate \<Rightarrow> 'e hstate + (string \<times> 'e hstate)" where
  "relay_request h =
     (case recv 4 4 h of
        RGot q h \<Rightarrow>
          if q ! 1 \<noteq> 1 then Inl (reject 7 h)
          else (case readAddr (q ! 3) h of
                  None \<Rightarrow> Inl (reject 8 h)
                | Some (target, h) \<Rightarrow>
                    (case readPort h of
                       None \<Rightarrow> Inl (reject 8 h)
                     | Some (port, h) \<Rightarrow> Inr (join_host_port target (show_nat port), h)))
      | _ \<Rightarrow> Inl h)"

definition relay_front :: "conn \<Rightarrow> conn + (string \<times> conn)" where
  "relay_front c =
     (case and_then (relay_greet (start_handler (set_deadline (Some 15) c) :: unit hstate)) relay_request of
        Inl h \<Rightarrow> Inl (client h)
      | Inr (target, h) \<Rightarrow> Inr (target, set_deadline None (client h)))"

section \<open>State\<close>

datatype pc =
    Fresh                         \<comment> \<open>accepted, nothing read\<close>
  | Announce string               \<comment> \<open>registered, the id not yet written\<close>
  | Listening string              \<comment> \<open>reading the control connection until it ends\<close>
  | Knocking string nat           \<comment> \<open>\<open>connect:\<close>, waiting on this channel; the phone not yet told\<close>
  | AwaitData nat                 \<comment> \<open>\<open>connect:\<close>, waiting on this channel\<close>
  | HandOver nat                  \<comment> \<open>\<open>data:\<close>, entry taken, about to send its connection\<close>
  | Targeted string               \<comment> \<open>SOCKS5, request read\<close>
  | Chosen string string          \<comment> \<open>phone chosen\<close>
  | Noted string nat string string \<comment> \<open>waiting entry made: id, channel, phone, target\<close>
  | Telling string nat nat string \<comment> \<open>control connection found\<close>
  | AwaitSocks string nat         \<comment> \<open>waiting for the data connection\<close>
  | Piping nat                    \<comment> \<open>the data connection is here\<close>
  | Returning                     \<comment> \<open>\<open>handle\<close> has returned, the deferred close is next\<close>
  | Ended

record thread =
  th_pc :: pc
  th_buf :: "byte list"           \<comment> \<open>what its reader has buffered\<close>

record relay_state =
  rl_conns :: "conn list"
  rl_threads :: "thread list"
  rl_ctrl :: "(string \<times> nat) list"
  rl_last :: string
  rl_wait :: "(string \<times> nat) list"   \<comment> \<open>the channel of each entry; its client is the thread that waits\<close>
  rl_chans :: "nat option list"
  rl_next :: nat
  rl_cid :: nat

definition relay_init :: relay_state where
  "relay_init = \<lparr>rl_conns = [], rl_threads = [], rl_ctrl = [], rl_last = [], rl_wait = [],
     rl_chans = [], rl_next = 0, rl_cid = 0\<rparr>"

definition on_conn :: "nat \<Rightarrow> (conn \<Rightarrow> conn) \<Rightarrow> relay_state \<Rightarrow> relay_state" where
  "on_conn i f s = s\<lparr>rl_conns := (rl_conns s)[i := f (rl_conns s ! i)]\<rparr>"

definition goto :: "nat \<Rightarrow> pc \<Rightarrow> relay_state \<Rightarrow> relay_state" where
  "goto i p s = s\<lparr>rl_threads := (rl_threads s)[i := (rl_threads s ! i)\<lparr>th_pc := p\<rparr>]\<rparr>"

definition write_to :: "byte list \<Rightarrow> conn \<Rightarrow> conn" where
  "write_to b c = snd (conn_write b c)"

definition remove_key :: "string \<Rightarrow> (string \<times> nat) list \<Rightarrow> (string \<times> nat) list" where
  "remove_key k m = filter (\<lambda>(x, _). x \<noteq> k) m"

definition new_chan :: "string \<Rightarrow> relay_state \<Rightarrow> relay_state" where
  "new_chan k s = s\<lparr>rl_wait := (k, length (rl_chans s)) # remove_key k (rl_wait s),
     rl_chans := rl_chans s @ [None]\<rparr>"

section \<open>The pipe\<close>

definition halfClose :: "conn \<Rightarrow> conn" where
  "halfClose c = (if is_tcp c then c\<lparr>wclosed := True\<rparr> else conn_close c)"

definition pipe_half :: "byte list \<Rightarrow> conn \<Rightarrow> conn \<Rightarrow> conn \<times> conn" where
  "pipe_half buf src dst =
     (let (ok, dst) = (if buf = [] then (True, dst) else conn_write buf dst) in
      if ok then (let (src, dst, _) = copy_loop 65536 src dst 0 in (src, halfClose dst))
      else (src, halfClose dst))"

definition pipe :: "byte list \<Rightarrow> conn \<Rightarrow> conn \<Rightarrow> conn \<times> conn" where
  "pipe abuf a b =
     (let (a, b) = pipe_half abuf a b;
          (b, a) = pipe_half [] b a
      in (a, b))"

section \<open>The protocol of lines\<close>

definition line_id :: "string \<Rightarrow> byte list" where
  "line_id pid = bytes_of (''id:'' @ pid @ [CHR 0x0A])"

definition line_conn :: "byte list" where
  "line_conn = bytes_of (''conn'' @ [CHR 0x0A])"

definition line_ready :: "byte list" where
  "line_ready = bytes_of (''ready'' @ [CHR 0x0A])"

definition ctrl_message :: "string \<Rightarrow> string \<Rightarrow> byte list" where
  "ctrl_message cid target = bytes_of (''conn:'' @ cid @ '':'' @ target @ [CHR 0x0A])"

section \<open>The steps of a thread\<close>

text \<open>\<^verbatim>\<open>fmt.Sprintf("p%d", n)\<close> and \<^verbatim>\<open>fmt.Sprintf("c%d", n)\<close>\<close>

definition phone_id :: "nat \<Rightarrow> string" where
  "phone_id n = CHR ''p'' # show_nat n"

definition client_id :: "nat \<Rightarrow> string" where
  "client_id n = CHR ''c'' # show_nat n"

text \<open>Lines 91 to 164, up to the first point where another goroutine can intervene.\<close>

definition relay_line :: "nat \<Rightarrow> string \<Rightarrow> byte list \<Rightarrow> relay_state \<Rightarrow> relay_state" where
  "relay_line i line rest s =
     (if line = ''register'' then
        (let pid = phone_id (rl_next s + 1) in
         goto i (Announce pid) (on_conn i (set_deadline None)
           (s\<lparr>rl_next := rl_next s + 1, rl_ctrl := (pid, i) # remove_key pid (rl_ctrl s), rl_last := pid\<rparr>)))
      else if has_prefix line ''connect:'' then
        (let wid = drop 8 line in
         if wid = [] then goto i Returning s
         else
           (let s = on_conn i (\<lambda>c. set_deadline None (write_to line_ready c)) s;
                ch = length (rl_chans s);
                s = new_chan wid s
            in s\<lparr>rl_threads := (rl_threads s)[i := \<lparr>th_pc = Knocking wid ch, th_buf = rest\<rparr>]\<rparr>))
      else if has_prefix line ''data:'' then
        (let wid = drop 5 line;
             s = on_conn i (\<lambda>c. set_deadline None (write_to line_ready c)) s
         in case map_of (rl_wait s) wid of
              None \<Rightarrow> goto i Returning s
            | Some ch \<Rightarrow> goto i (HandOver ch) (s\<lparr>rl_wait := remove_key wid (rl_wait s)\<rparr>))
      else if line = ''ping'' then
        goto i Returning (on_conn i (write_to (bytes_of (''pong'' @ [CHR 0x0A]))) s)
      else goto i Returning (on_conn i (write_to (bytes_of (''relay'' @ [CHR 0x0A]))) s))"

text \<open>Lines 71 to 89: the first byte tells a SOCKS5 client from a line.\<close>

definition relay_fresh :: "nat \<Rightarrow> relay_state \<Rightarrow> relay_state" where
  "relay_fresh i s =
     (let c = set_deadline (Some 15) (rl_conns s ! i) in
      case peek_byte c of
        None \<Rightarrow> goto i Returning (on_conn i (\<lambda>_. c) s)
      | Some b \<Rightarrow>
          if b = 5 then
            (case relay_front c of
               Inl c \<Rightarrow> goto i Returning (on_conn i (\<lambda>_. c) s)
             | Inr (target, c) \<Rightarrow> goto i (Targeted target) (on_conn i (\<lambda>_. c) s))
          else
            (case bufio_line 65536 [] [] c of
               None \<Rightarrow> goto i Returning (on_conn i (\<lambda>_. c) s)
             | Some (l, rest, c) \<Rightarrow>
                 relay_line i (trim_right (str_of l) [CHR 0x0D, CHR 0x0A]) rest (on_conn i (\<lambda>_. c) s)))"

text \<open>Lines 102 to 115: the control connection has ended.\<close>

definition relay_leave :: "nat \<Rightarrow> string \<Rightarrow> relay_state \<Rightarrow> relay_state" where
  "relay_leave i pid s =
     goto i Returning (on_conn i (\<lambda>c. c\<lparr>inq := []\<rparr>)
       (s\<lparr>rl_ctrl := remove_key pid (rl_ctrl s),
          rl_last := (if rl_last s = pid then [] else rl_last s)\<rparr>))"

text \<open>Lines 235 to 241 and 244 to 250.\<close>

definition relay_refuse :: "nat \<Rightarrow> string \<Rightarrow> byte \<Rightarrow> relay_state \<Rightarrow> relay_state" where
  "relay_refuse i cid rep s =
     goto i Returning (on_conn i (write_to (reply_code rep)) (s\<lparr>rl_wait := remove_key cid (rl_wait s)\<rparr>))"

text \<open>Receiving from a channel.\<close>

definition take_chan :: "nat \<Rightarrow> relay_state \<Rightarrow> relay_state" where
  "take_chan ch s = s\<lparr>rl_chans := (rl_chans s)[ch := None]\<rparr>"

fun relay_pc :: "nat \<Rightarrow> pc \<Rightarrow> relay_state \<Rightarrow> relay_state" where
  "relay_pc i Fresh s = relay_fresh i s"
| "relay_pc i (Announce pid) s = goto i (Listening pid) (on_conn i (write_to (line_id pid)) s)"
| "relay_pc i (Listening pid) s = relay_leave i pid s"
| "relay_pc i (Knocking wid ch) s =
     goto i (AwaitData ch)
       (case map_of (rl_ctrl s) wid of None \<Rightarrow> s | Some sc \<Rightarrow> on_conn sc (write_to line_conn) s)"
| "relay_pc i (AwaitData ch) s =
     (case rl_chans s ! ch of None \<Rightarrow> s | Some d \<Rightarrow> goto i (Piping d) (take_chan ch s))"
| "relay_pc i (HandOver ch) s = goto i Returning (s\<lparr>rl_chans := (rl_chans s)[ch := Some i]\<rparr>)"
| "relay_pc i (Targeted target) s =
     (if rl_last s = [] then goto i Returning (on_conn i (write_to (reply_code 1)) s)
      else goto i (Chosen (rl_last s) target) s)"
| "relay_pc i (Chosen phone target) s =
     (let cid = client_id (rl_cid s + 1); ch = length (rl_chans s) in
      goto i (Noted cid ch phone target) (new_chan cid (s\<lparr>rl_cid := rl_cid s + 1\<rparr>)))"
| "relay_pc i (Noted cid ch phone target) s =
     (case map_of (rl_ctrl s) phone of
        None \<Rightarrow> relay_refuse i cid 1 s
      | Some sc \<Rightarrow> goto i (Telling cid ch sc target) s)"
| "relay_pc i (Telling cid ch sc target) s =
     (let (ok, c) = conn_write (ctrl_message cid target) (rl_conns s ! sc);
          s = on_conn sc (\<lambda>_. c) s
      in if ok then goto i (AwaitSocks cid ch) s else relay_refuse i cid 1 s)"
| "relay_pc i (AwaitSocks cid ch) s =
     (case rl_chans s ! ch of
        None \<Rightarrow> s
      | Some d \<Rightarrow> goto i (Piping d) (on_conn i (write_to (reply_code 0)) (take_chan ch s)))"
| "relay_pc i (Piping d) s =
     (let (a, b) = pipe (th_buf (rl_threads s ! i)) (rl_conns s ! i) (rl_conns s ! d)
      in goto i Returning (on_conn i (\<lambda>_. a) (on_conn d (\<lambda>_. b) s)))"
| "relay_pc i Returning s = goto i Ended (on_conn i conn_close s)"
| "relay_pc i Ended s = s"

datatype relay_event =
    RAccept conn     \<comment> \<open>a connection is accepted\<close>
  | RRun nat         \<comment> \<open>this thread runs to its next point\<close>
  | RTimeout nat     \<comment> \<open>60 seconds of waiting have passed for this thread\<close>

fun relay_step :: "relay_event \<Rightarrow> relay_state \<Rightarrow> relay_state" where
  "relay_step (RAccept c) s =
     s\<lparr>rl_conns := rl_conns s @ [c], rl_threads := rl_threads s @ [\<lparr>th_pc = Fresh, th_buf = []\<rparr>]\<rparr>"
| "relay_step (RRun i) s =
     (if i < length (rl_threads s) then relay_pc i (th_pc (rl_threads s ! i)) s else s)"
| "relay_step (RTimeout i) s =
     (if i < length (rl_threads s) then
        (case th_pc (rl_threads s ! i) of
           AwaitData ch \<Rightarrow> goto i Returning s
         | AwaitSocks cid ch \<Rightarrow> relay_refuse i cid 3 s
         | _ \<Rightarrow> s)
      else s)"

definition relay_run :: "relay_event list \<Rightarrow> relay_state \<Rightarrow> relay_state" where
  "relay_run evs s = fold relay_step evs s"

text \<open>The first line of a connection, when it comes in a segment of its own.\<close>

definition line_of :: "string \<Rightarrow> byte list" where
  "line_of l = bytes_of (l @ [CHR 0x0A])"

lemma relay_fresh_line:
  assumes c: "rl_conns s ! i = fresh_conn (line_of l # q) ws"
    and l: "l \<noteq> []" "hd l \<noteq> CHR 0x05" "CHR 0x0A \<notin> set l" "CHR 0x0D \<notin> set l" "length l < 65536"
  shows "relay_fresh i s = relay_line i l [] (on_conn i (\<lambda>_. set_deadline (Some 15) (fresh_conn q ws)) s)"
proof -
  let ?c = "set_deadline (Some 15) (rl_conns s ! i)"
  have nl: "line_of l = bytes_of l @ newline # []" by (simp add: line_of_def newline_def byte_of_def)
  have nin: "newline \<notin> set (bytes_of l)"
  proof
    assume "newline \<in> set (bytes_of l)"
    then obtain x where "x \<in> set l" "byte_of x = newline" by (auto simp: bytes_of_def)
    moreover have "chr newline = CHR 0x0A" by code_simp
    ultimately have "CHR 0x0A \<in> set l" by (metis chr_byte_of)
    with l show False by simp
  qed
  have b: "bufio_line 65536 [] [] ?c = Some (bytes_of l @ [newline], [], ?c\<lparr>inq := q\<rparr>)"
    using l nin by (intro bufio_line_alone) (simp_all add: c fresh_conn_def set_deadline_def nl)
  have cc: "?c\<lparr>inq := q\<rparr> = set_deadline (Some 15) (fresh_conn q ws)"
    by (simp add: c fresh_conn_def set_deadline_def)
  obtain x xs where x: "l = x # xs" using l(1) by (cases l) auto
  have "chr 5 = CHR 0x05" by code_simp
  then have "byte_of x \<noteq> 5" using l(2) x by (metis chr_byte_of list.sel(1))
  moreover have "peek_byte ?c = Some (byte_of x)" by (simp add: peek_byte_def c stream_def fresh_conn_def x line_of_def)
  moreover have "trim_right (str_of (bytes_of l @ [newline])) [CHR 0x0D, CHR 0x0A] = l"
  proof -
    have "rev l = [] \<or> hd (rev l) \<notin> {CHR 0x0D, CHR 0x0A}" using l by (metis hd_in_set insertE set_rev singletonD)
    then have "dropWhile (\<lambda>c. c \<in> set [CHR 0x0D, CHR 0x0A]) (rev l) = rev l"
      by (cases "rev l") auto
    moreover have "chr newline = CHR 0x0A" by code_simp
    ultimately show ?thesis by (simp add: trim_right_def)
  qed
  ultimately show ?thesis using b cc by (simp add: relay_fresh_def Let_def)
qed

end
