(* ===== verification/Relay_Invariants.thy ===== *)
theory Relay_Invariants
  imports Relay_Server
begin

text \<open>
  What every run of the relay server keeps: the invariant of the channels over which data connections
  are handed to the threads that wait for them, and the invariant of the registry of phones.  Both are
  stated over what the threads' points mean for them, proved for each kind of change on its own, and
  then lifted to the steps and runs of the server.
\<close>

section \<open>Hand-over through channels\<close>

text \<open>
  What a thread's point means for the channels: it waits on one, is about to send on one, pipes a
  connection, or has returned.
\<close>

datatype role = Waits nat | Sends nat | Pipes nat | Over | Elsewhere

fun role_of :: "pc \<Rightarrow> role" where
  "role_of (Knocking _ ch) = Waits ch"
| "role_of (AwaitData ch) = Waits ch"
| "role_of (Noted _ ch _ _) = Waits ch"
| "role_of (Telling _ ch _ _) = Waits ch"
| "role_of (AwaitSocks _ ch) = Waits ch"
| "role_of (HandOver ch) = Sends ch"
| "role_of (Piping d) = Pipes d"
| "role_of Returning = Over"
| "role_of Ended = Over"
| "role_of _ = Elsewhere"

text \<open>
  The invariant of the channels, over the threads' roles \<open>rs\<close>, the waiting entries \<open>w\<close> and the
  channels \<open>cs\<close>: a channel has one entry, or one thread about to send, or a value, or is used up;
  a connection is handed over once, to one channel or one pipe, by a thread that has returned.
\<close>

definition free_chan :: "role list \<Rightarrow> nat option list \<Rightarrow> nat \<Rightarrow> bool" where
  "free_chan rs cs ch \<longleftrightarrow> ch < length cs \<and> cs ! ch = None \<and> Sends ch \<notin> set rs"

definition entries_ok :: "role list \<Rightarrow> (string \<times> nat) list \<Rightarrow> nat option list \<Rightarrow> bool" where
  "entries_ok rs w cs \<longleftrightarrow> distinct (map snd w) \<and> (\<forall>ch\<in>snd ` set w. free_chan rs cs ch)"

definition waits_ok :: "role list \<Rightarrow> nat option list \<Rightarrow> bool" where
  "waits_ok rs cs \<longleftrightarrow> (\<forall>ch. Waits ch \<in> set rs \<longrightarrow> ch < length cs)"

definition sends_ok :: "role list \<Rightarrow> nat option list \<Rightarrow> bool" where
  "sends_ok rs cs \<longleftrightarrow>
     (\<forall>ch. Sends ch \<in> set rs \<longrightarrow> ch < length cs \<and> cs ! ch = None \<and> count_list rs (Sends ch) \<le> 1)"

definition values_ok :: "role list \<Rightarrow> nat option list \<Rightarrow> bool" where
  "values_ok rs cs \<longleftrightarrow>
     (\<forall>ch<length cs. \<forall>d. cs ! ch = Some d \<longrightarrow>
        d < length rs \<and> rs ! d = Over \<and> Pipes d \<notin> set rs \<and> (\<forall>ch'<length cs. cs ! ch' = Some d \<longrightarrow> ch' = ch))"

definition pipes_ok :: "role list \<Rightarrow> bool" where
  "pipes_ok rs \<longleftrightarrow>
     (\<forall>d. Pipes d \<in> set rs \<longrightarrow> d < length rs \<and> rs ! d = Over \<and> count_list rs (Pipes d) \<le> 1)"

definition chan_ok :: "role list \<Rightarrow> (string \<times> nat) list \<Rightarrow> nat option list \<Rightarrow> bool" where
  "chan_ok rs w cs \<longleftrightarrow> entries_ok rs w cs \<and> waits_ok rs cs \<and> sends_ok rs cs \<and> values_ok rs cs \<and> pipes_ok rs"

lemma chan_okD:
  assumes "chan_ok rs w cs"
  shows "distinct (map snd w)" "ch \<in> snd ` set w \<Longrightarrow> free_chan rs cs ch"
    "Waits ch \<in> set rs \<Longrightarrow> ch < length cs"
    "Sends ch \<in> set rs \<Longrightarrow> ch < length cs \<and> cs ! ch = None \<and> count_list rs (Sends ch) \<le> 1"
    "ch < length cs \<Longrightarrow> cs ! ch = Some d \<Longrightarrow> d < length rs \<and> rs ! d = Over \<and> Pipes d \<notin> set rs"
    "ch < length cs \<Longrightarrow> cs ! ch = Some d \<Longrightarrow> ch' < length cs \<Longrightarrow> cs ! ch' = Some d \<Longrightarrow> ch' = ch"
    "Pipes d \<in> set rs \<Longrightarrow> d < length rs \<and> rs ! d = Over \<and> count_list rs (Pipes d) \<le> 1"
proof -
  note P = assms [unfolded chan_ok_def]
  show "distinct (map snd w)" "ch \<in> snd ` set w \<Longrightarrow> free_chan rs cs ch"
    using P unfolding entries_ok_def by blast+
  show "Waits ch \<in> set rs \<Longrightarrow> ch < length cs" using P unfolding waits_ok_def by blast
  show "Sends ch \<in> set rs \<Longrightarrow> ch < length cs \<and> cs ! ch = None \<and> count_list rs (Sends ch) \<le> 1"
    using P unfolding sends_ok_def by blast
  show "ch < length cs \<Longrightarrow> cs ! ch = Some d \<Longrightarrow> d < length rs \<and> rs ! d = Over \<and> Pipes d \<notin> set rs"
    "ch < length cs \<Longrightarrow> cs ! ch = Some d \<Longrightarrow> ch' < length cs \<Longrightarrow> cs ! ch' = Some d \<Longrightarrow> ch' = ch"
    using P unfolding values_ok_def by blast+
  show "Pipes d \<in> set rs \<Longrightarrow> d < length rs \<and> rs ! d = Over \<and> count_list rs (Pipes d) \<le> 1"
    using P unfolding pipes_ok_def by blast
qed

lemma in_remove_key: "x \<in> set (remove_key k w) \<Longrightarrow> x \<in> set w"
  by (simp add: remove_key_def)

lemma distinct_remove_key: "distinct (map f w) \<Longrightarrow> distinct (map f (remove_key k w))"
  unfolding remove_key_def by (induction w) auto

lemma in_set_update: "x \<in> set (xs[i := y]) \<Longrightarrow> x \<noteq> y \<Longrightarrow> x \<in> set xs"
  by (meson set_update_subset_insert subsetD insertE)

lemma count_update:
  "i < length xs \<Longrightarrow> count_list (xs[i := y]) x + (if xs ! i = x then 1 else 0) = count_list xs x + (if y = x then 1 else 0)"
proof (induction xs arbitrary: i)
  case (Cons a xs)
  show ?case
  proof (cases i)
    case (Suc j)
    with Cons.IH [of j] Cons.prems show ?thesis by (simp split: if_splits)
  qed simp
qed simp

lemma count_update_other: "i < length xs \<Longrightarrow> y \<noteq> x \<Longrightarrow> count_list (xs[i := y]) x \<le> count_list xs x"
  using count_update [of i xs y x] by (simp split: if_splits)

lemma count_update_new: "i < length xs \<Longrightarrow> y \<notin> set xs \<Longrightarrow> count_list (xs[i := y]) y \<le> 1"
  using count_update [of i xs y y] by (auto simp: count_notin split: if_splits)

lemma count_list_once:
  assumes "count_list xs x \<le> 1" and "i < length xs" "j < length xs" "xs ! i = x" "xs ! j = x"
  shows "i = j"
proof -
  let ?I = "{k. k < length xs \<and> x = xs ! k}"
  have "card ?I \<le> Suc 0"
    using assms(1) by (simp add: count_list_eq_length_filter length_filter_conv_card)
  then have "\<forall>k\<in>?I. \<forall>l\<in>?I. k = l" by (subst (asm) card_le_Suc0_iff_eq) auto
  with assms show ?thesis by auto
qed

lemma over_update: "rs ! d = Over \<Longrightarrow> rs ! i \<noteq> Over \<or> r = Over \<Longrightarrow> rs[i := r] ! d = Over"
  by (metis list_update_beyond not_le_imp_less nth_list_update_eq nth_list_update_neq)

text \<open>
  What one thread's change of role leaves alone: the parts of the invariant that do not concern
  its new role, for channels and entries that stay.
\<close>

lemma free_chan_update:
  "free_chan rs cs ch \<Longrightarrow> r \<noteq> Sends ch \<Longrightarrow> length cs \<le> length cs' \<Longrightarrow> cs' ! ch = None \<Longrightarrow> free_chan (rs[i := r]) cs' ch"
  by (auto simp: free_chan_def dest: in_set_update)

lemma pipes_ok_update:
  assumes "pipes_ok rs" and "i < length rs" and "\<And>d. r \<noteq> Pipes d" and "rs ! i \<noteq> Over \<or> r = Over"
  shows "pipes_ok (rs[i := r])"
  unfolding pipes_ok_def
proof (intro allI impI)
  fix d
  assume "Pipes d \<in> set (rs[i := r])"
  then have "Pipes d \<in> set rs" using assms(3) by (metis in_set_update)
  with assms(1) have "d < length rs" "rs ! d = Over" "count_list rs (Pipes d) \<le> 1"
    unfolding pipes_ok_def by blast+
  with over_update [OF _ assms(4)] count_update_other [OF assms(2) assms(3)]
  show "d < length (rs[i := r]) \<and> rs[i := r] ! d = Over \<and> count_list (rs[i := r]) (Pipes d) \<le> 1"
    by (metis length_list_update order.trans)
qed

lemma sends_ok_update:
  assumes "sends_ok rs cs" and "i < length rs" and "\<And>ch. r \<noteq> Sends ch"
    and "\<And>ch. Sends ch \<in> set (rs[i := r]) \<Longrightarrow> ch < length cs \<Longrightarrow> cs ! ch = None \<Longrightarrow> ch < length cs' \<and> cs' ! ch = None"
  shows "sends_ok (rs[i := r]) cs'"
  unfolding sends_ok_def
proof (intro allI impI)
  fix ch
  assume s: "Sends ch \<in> set (rs[i := r])"
  then have "Sends ch \<in> set rs" using assms(3) by (metis in_set_update)
  with assms(1) have "ch < length cs" "cs ! ch = None" "count_list rs (Sends ch) \<le> 1"
    unfolding sends_ok_def by blast+
  with assms(4) [OF s] count_update_other [OF assms(2) assms(3)]
  show "ch < length cs' \<and> cs' ! ch = None \<and> count_list (rs[i := r]) (Sends ch) \<le> 1"
    by (metis order.trans)
qed

lemma values_ok_update:
  assumes "values_ok rs cs" and "\<And>ch d. ch < length cs' \<Longrightarrow> cs' ! ch = Some d \<Longrightarrow> ch < length cs \<and> cs ! ch = Some d \<and> r \<noteq> Pipes d"
    and "rs ! i \<noteq> Over \<or> r = Over"
  shows "values_ok (rs[i := r]) cs'"
  unfolding values_ok_def
proof (intro allI impI conjI)
  fix ch d
  assume ch: "ch < length cs'" "cs' ! ch = Some d"
  note old = assms(2) [OF this]
  with assms(1) have d: "d < length rs" "rs ! d = Over" "Pipes d \<notin> set rs" unfolding values_ok_def by blast+
  show "d < length (rs[i := r])" "rs[i := r] ! d = Over" "Pipes d \<notin> set (rs[i := r])"
    using d over_update [OF d(2) assms(3)] old by (auto dest: in_set_update)
  show "ch' = ch" if "ch' < length cs'" "cs' ! ch' = Some d" for ch'
    using assms(1) old assms(2) [OF that] unfolding values_ok_def by blast
qed

text \<open>A thread moves on without touching channels; entries may be removed.\<close>

lemma chan_ok_quiet:
  assumes ok: "chan_ok rs w cs" and i: "i < length rs"
    and r: "r = Elsewhere \<or> r = Over \<or> r = Waits ch \<and> rs ! i = Waits ch" and ov: "rs ! i \<noteq> Over \<or> r = Over"
    and w': "set w' \<subseteq> set w" "distinct (map snd w')"
  shows "chan_ok (rs[i := r]) w' cs"
proof -
  have np: "\<And>d. r \<noteq> Pipes d" and ns: "\<And>c. r \<noteq> Sends c" using r by auto
  note P = ok [unfolded chan_ok_def]
  have "free_chan (rs[i := r]) cs c" if "c \<in> snd ` set w'" for c
  proof -
    have "free_chan rs cs c" using chan_okD(2) [OF ok] that w'(1) by blast
    with ns show ?thesis by (intro free_chan_update) (auto simp: free_chan_def)
  qed
  with w'(2) have 1: "entries_ok (rs[i := r]) w' cs" by (simp add: entries_ok_def)
  have "Waits c \<in> set rs" if "Waits c \<in> set (rs[i := r])" for c
    using that r nth_mem [OF i] by (cases "Waits c = r") (auto dest: in_set_update)
  with P have 2: "waits_ok (rs[i := r]) cs" unfolding waits_ok_def by blast
  have 3: "sends_ok (rs[i := r]) cs" using P i ns by (intro sends_ok_update) auto
  have 4: "values_ok (rs[i := r]) cs" using P np ov by (intro values_ok_update [of rs cs]) auto
  have 5: "pipes_ok (rs[i := r])" using P i np ov by (intro pipes_ok_update) auto
  from 1 2 3 4 5 show ?thesis by (simp add: chan_ok_def)
qed

text \<open>A new entry with a new channel.\<close>

lemma chan_ok_new:
  assumes ok: "chan_ok rs w cs" and i: "i < length rs" and ov: "rs ! i \<noteq> Over"
  shows "chan_ok (rs[i := Waits (length cs)]) ((k, length cs) # remove_key k w) (cs @ [None])"
proof -
  note P = ok [unfolded chan_ok_def] and D = chan_okD [OF ok]
  let ?r = "rs[i := Waits (length cs)]"
  have "Sends (length cs) \<notin> set rs" using D(4) [of "length cs"] by auto
  then have new: "free_chan ?r (cs @ [None]) (length cs)" by (auto simp: free_chan_def dest: in_set_update)
  have old: "free_chan ?r (cs @ [None]) c \<and> c < length cs" if "c \<in> snd ` set w" for c
  proof -
    have f: "free_chan rs cs c" by (rule D(2) [OF that])
    then have "c < length cs" "(cs @ [None]) ! c = None" by (auto simp: free_chan_def nth_append)
    then show ?thesis using f by (auto intro!: free_chan_update)
  qed
  have sub: "snd ` set (remove_key k w) \<subseteq> snd ` set w" by (auto dest: in_remove_key)
  have "length cs \<notin> snd ` set (remove_key k w)" using old sub by blast
  with old sub new D(1) have 1: "entries_ok ?r ((k, length cs) # remove_key k w) (cs @ [None])"
    by (simp add: entries_ok_def distinct_remove_key subset_iff)
  have 2: "waits_ok ?r (cs @ [None])"
    unfolding waits_ok_def
  proof (intro allI impI)
    fix c
    assume "Waits c \<in> set ?r"
    then have "c = length cs \<or> Waits c \<in> set rs" by (auto dest: in_set_update)
    with D(3) [of c] show "c < length (cs @ [None])" by auto
  qed
  have 3: "sends_ok ?r (cs @ [None])" using P i by (intro sends_ok_update [of rs cs]) (auto simp: nth_append)
  have 4: "values_ok ?r (cs @ [None])"
    using P ov by (intro values_ok_update [of rs cs]) (auto simp: nth_append split: if_splits)
  have 5: "pipes_ok ?r" using P i ov by (intro pipes_ok_update) auto
  from 1 2 3 4 5 show ?thesis by (simp add: chan_ok_def)
qed

text \<open>An entry is taken by a \<^verbatim>\<open>data:\<close> thread.\<close>

lemma distinct_snd_key:
  assumes d: "distinct (map snd w)" and k: "(k, ch) \<in> set w"
  shows "ch \<notin> snd ` set (remove_key k w)"
proof
  assume "ch \<in> snd ` set (remove_key k w)"
  then obtain k' where k': "(k', ch) \<in> set w" "k' \<noteq> k" by (auto simp: remove_key_def)
  have "inj_on snd (set w)" using d by (simp add: distinct_map)
  from inj_onD [OF this _ k k'(1)] k'(2) show False by simp
qed

lemma chan_ok_take_entry:
  assumes ok: "chan_ok rs w cs" and i: "i < length rs" and ov: "rs ! i \<noteq> Over" and k: "(k, ch) \<in> set w"
  shows "chan_ok (rs[i := Sends ch]) (remove_key k w) cs"
proof -
  note P = ok [unfolded chan_ok_def] and D = chan_okD [OF ok]
  let ?r = "rs[i := Sends ch]"
  have fr: "free_chan rs cs ch" using D(2) k by force
  have "free_chan ?r cs c" if c: "c \<in> snd ` set (remove_key k w)" for c
  proof -
    have "c \<noteq> ch" using distinct_snd_key [OF D(1) k] c by blast
    moreover have "free_chan rs cs c" using D(2) c by (auto dest: in_remove_key)
    ultimately show ?thesis by (auto simp: free_chan_def dest: in_set_update)
  qed
  with D(1) have 1: "entries_ok ?r (remove_key k w) cs" by (simp add: entries_ok_def distinct_remove_key)
  have 2: "waits_ok ?r cs" using P unfolding waits_ok_def by (auto dest: in_set_update)
  have 3: "sends_ok ?r cs"
    unfolding sends_ok_def
  proof (intro allI impI)
    fix c
    assume c: "Sends c \<in> set ?r"
    show "c < length cs \<and> cs ! c = None \<and> count_list ?r (Sends c) \<le> 1"
    proof (cases "c = ch")
      case True
      with fr count_update_new [OF i, of "Sends ch"] show ?thesis by (simp add: free_chan_def)
    next
      case False
      with c have "Sends c \<in> set rs" by (auto dest: in_set_update)
      from D(4) [OF this] count_update_other [OF i, of "Sends ch" "Sends c"] False show ?thesis by simp
    qed
  qed
  have 4: "values_ok ?r cs" using P ov by (intro values_ok_update [of rs cs]) auto
  have 5: "pipes_ok ?r" using P i ov by (intro pipes_ok_update) auto
  from 1 2 3 4 5 show ?thesis by (simp add: chan_ok_def)
qed

text \<open>A \<^verbatim>\<open>data:\<close> thread sends its connection, and returns.\<close>

lemma chan_ok_send:
  assumes ok: "chan_ok rs w cs" and i: "i < length rs" and p: "rs ! i = Sends ch"
  shows "chan_ok (rs[i := Over]) w (cs[ch := Some i])"
proof -
  note P = ok [unfolded chan_ok_def] and D = chan_okD [OF ok]
  let ?r = "rs[i := Over]" and ?c = "cs[ch := Some i]"
  have mem: "Sends ch \<in> set rs" using i p by (metis nth_mem)
  note ch = D(4) [OF mem]
  have "free_chan ?r ?c c" if "c \<in> snd ` set w" for c
  proof -
    have f: "free_chan rs cs c" by (rule D(2) [OF that])
    with mem have "c \<noteq> ch" by (auto simp: free_chan_def)
    with f show ?thesis by (intro free_chan_update) (auto simp: free_chan_def)
  qed
  with D(1) have 1: "entries_ok ?r w ?c" by (simp add: entries_ok_def)
  have 2: "waits_ok ?r ?c" using P unfolding waits_ok_def by (auto dest: in_set_update)
  have "count_list ?r (Sends ch) = 0" using count_update [OF i, of Over "Sends ch"] p ch by simp
  then have gone: "Sends ch \<notin> set ?r" by (simp add: count_list_0_iff)
  have 3: "sends_ok ?r ?c"
    using P i gone ch by (intro sends_ok_update [of rs cs]) (auto simp: nth_list_update)
  have np: "Pipes i \<notin> set rs" and nv: "\<And>c. c < length cs \<Longrightarrow> cs ! c \<noteq> Some i"
    using D(5,7) p by force+
  have 4: "values_ok ?r ?c"
    unfolding values_ok_def
  proof (intro allI impI)
    fix c d
    assume c: "c < length ?c" "?c ! c = Some d"
    show "d < length ?r \<and> ?r ! d = Over \<and> Pipes d \<notin> set ?r \<and> (\<forall>ch'<length ?c. ?c ! ch' = Some d \<longrightarrow> ch' = c)"
    proof (cases "c = ch")
      case True
      with c i np nv show ?thesis by (auto simp: nth_list_update split: if_splits dest: in_set_update)
    next
      case False
      with c have v: "c < length cs" "cs ! c = Some d" by simp_all
      then have "d \<noteq> i" using nv by blast
      with D(5,6) [OF v] ch show ?thesis by (auto simp: nth_list_update split: if_splits dest: in_set_update)
    qed
  qed
  have 5: "pipes_ok ?r" using P i by (intro pipes_ok_update) auto
  from 1 2 3 4 5 show ?thesis by (simp add: chan_ok_def)
qed

text \<open>A waiting thread receives a connection.\<close>

lemma chan_ok_receive:
  assumes ok: "chan_ok rs w cs" and i: "i < length rs" and p: "rs ! i = Waits ch" and v: "cs ! ch = Some d"
  shows "chan_ok (rs[i := Pipes d]) w (cs[ch := None])"
proof -
  note P = ok [unfolded chan_ok_def] and D = chan_okD [OF ok]
  let ?r = "rs[i := Pipes d]" and ?c = "cs[ch := None]"
  have "Waits ch \<in> set rs" using i p by (metis nth_mem)
  then have ch: "ch < length cs" by (rule D(3))
  note d = D(5) [OF ch v]
  have ov: "rs ! i \<noteq> Over \<or> Pipes d = Over" using p by simp
  have "free_chan ?r ?c c" if "c \<in> snd ` set w" for c
  proof -
    have f: "free_chan rs cs c" by (rule D(2) [OF that])
    with v have "c \<noteq> ch" by (auto simp: free_chan_def)
    with f show ?thesis by (intro free_chan_update) (auto simp: free_chan_def)
  qed
  with D(1) have 1: "entries_ok ?r w ?c" by (simp add: entries_ok_def)
  have 2: "waits_ok ?r ?c" using P unfolding waits_ok_def by (auto dest: in_set_update)
  have 3: "sends_ok ?r ?c"
    using P i ch by (intro sends_ok_update [of rs cs]) (auto simp: nth_list_update)
  have 4: "values_ok ?r ?c"
  proof (rule values_ok_update [of rs cs])
    show "c < length cs \<and> cs ! c = Some e \<and> Pipes d \<noteq> Pipes e" if "c < length ?c" "?c ! c = Some e" for c e
    proof -
      have "c \<noteq> ch" using that ch by auto
      with that have "c < length cs" "cs ! c = Some e" by simp_all
      then show ?thesis using D(6) [OF ch v, of c] \<open>c \<noteq> ch\<close> by auto
    qed
  qed (use P ov in auto)
  have 5: "pipes_ok ?r"
    unfolding pipes_ok_def
  proof (intro allI impI)
    fix e
    assume e: "Pipes e \<in> set ?r"
    show "e < length ?r \<and> ?r ! e = Over \<and> count_list ?r (Pipes e) \<le> 1"
    proof (cases "e = d")
      case True
      with d count_update_new [OF i, of "Pipes d"] over_update [OF _ ov, of d] show ?thesis by simp
    next
      case False
      with e have "Pipes e \<in> set rs" by (auto dest: in_set_update)
      from D(7) [OF this] over_update [OF _ ov, of e] count_update_other [OF i, of "Pipes d" "Pipes e"] False
      show ?thesis by simp
    qed
  qed
  from 1 2 3 4 5 show ?thesis by (simp add: chan_ok_def)
qed

lemma chan_ok_accept:
  assumes ok: "chan_ok rs w cs"
  shows "chan_ok (rs @ [Elsewhere]) w cs"
proof -
  note D = chan_okD [OF ok]
  have ov: "(rs @ [Elsewhere]) ! d = Over" if "d < length rs" "rs ! d = Over" for d
    using that by (simp add: nth_append)
  have 1: "entries_ok (rs @ [Elsewhere]) w cs" using D(1,2) by (simp add: entries_ok_def free_chan_def)
  have 2: "waits_ok (rs @ [Elsewhere]) cs" using D(3) by (simp add: waits_ok_def)
  have 3: "sends_ok (rs @ [Elsewhere]) cs" using D(4) by (simp add: sends_ok_def)
  have 4: "values_ok (rs @ [Elsewhere]) cs"
    unfolding values_ok_def using D(5,6) ov by (metis length_append_singleton less_SucI in_set_conv_decomp
        insert_iff list.set(2) role.distinct(17) rotate1.simps(2) set_rotate1)
  have 5: "pipes_ok (rs @ [Elsewhere])" using D(7) ov by (auto simp: pipes_ok_def less_SucI)
  from 1 2 3 4 5 show ?thesis by (simp add: chan_ok_def)
qed

section \<open>The registry of phones\<close>

text \<open>The id under which a thread is registered.\<close>

fun pid_of :: "pc \<Rightarrow> string option" where
  "pid_of (Announce pid) = Some pid"
| "pid_of (Listening pid) = Some pid"
| "pid_of _ = None"

text \<open>
  The invariant of the registry, over the threads' ids \<open>ds\<close>: the map holds exactly the registered
  threads, under ids that were given out; and \<open>lastPhone\<close> is empty or registered.
\<close>

definition registry_ok :: "string option list \<Rightarrow> (string \<times> nat) list \<Rightarrow> string \<Rightarrow> nat \<Rightarrow> bool" where
  "registry_ok ds m lst n \<longleftrightarrow>
     distinct (map fst m) \<and> set m = {(k, i). i < length ds \<and> ds ! i = Some k} \<and>
     (\<forall>k\<in>fst ` set m. \<exists>j. 1 \<le> j \<and> j \<le> n \<and> k = phone_id j) \<and> (lst = [] \<or> lst \<in> fst ` set m)"

lemma phone_id_inject [simp]: "phone_id a = phone_id b \<longleftrightarrow> a = b"
  by (simp add: phone_id_def show_nat_inject)

lemma phone_id_nonempty [simp]: "phone_id n \<noteq> []"
  by (simp add: phone_id_def)

lemma registry_ok_same: "registry_ok ds m lst n \<Longrightarrow> d = ds ! i \<Longrightarrow> registry_ok (ds[i := d]) m lst n"
  by simp

lemma registry_ok_accept: "registry_ok ds m lst n \<Longrightarrow> registry_ok (ds @ [None]) m lst n"
  unfolding registry_ok_def by (auto simp: nth_append less_Suc_eq split: if_splits)

lemma registry_ok_register:
  assumes ok: "registry_ok ds m lst n" and i: "i < length ds" and none: "ds ! i = None"
  shows "registry_ok (ds[i := Some (phone_id (n + 1))]) ((phone_id (n + 1), i) # remove_key (phone_id (n + 1)) m)
    (phone_id (n + 1)) (n + 1)"
proof -
  let ?p = "phone_id (n + 1)"
  have new: "?p \<notin> fst ` set m"
  proof
    assume "?p \<in> fst ` set m"
    then obtain j where "j \<le> n" "?p = phone_id j" using ok unfolding registry_ok_def by blast
    then show False by simp
  qed
  then have rm: "remove_key ?p m = m" by (force simp: remove_key_def intro: filter_True)
  have st: "set m = {(k, i). i < length ds \<and> ds ! i = Some k}" using ok by (simp add: registry_ok_def)
  have 1: "set ((?p, i) # m) = {(k, j). j < length (ds[i := Some ?p]) \<and> ds[i := Some ?p] ! j = Some k}"
    using i none by (auto simp: st nth_list_update split: if_splits)
  have 2: "\<exists>j. 1 \<le> j \<and> j \<le> n + 1 \<and> k = phone_id j" if k: "k \<in> fst ` set ((?p, i) # m)" for k
  proof (cases "k = ?p")
    case False
    with k have "k \<in> fst ` set m" by auto
    then obtain j where "1 \<le> j" "j \<le> n" "k = phone_id j" using ok unfolding registry_ok_def by blast
    then have "1 \<le> j \<and> j \<le> n + 1 \<and> k = phone_id j" by simp
    then show ?thesis by blast
  qed (auto intro: exI [of _ "n + 1"])
  have 3: "distinct (map fst ((?p, i) # m))" using ok new by (simp add: registry_ok_def)
  have 4: "?p = [] \<or> ?p \<in> fst ` set ((?p, i) # m)" by simp
  show ?thesis
    unfolding rm registry_ok_def using 1 2 3 4 by blast
qed

lemma registry_ok_leave:
  assumes ok: "registry_ok ds m lst n" and i: "i < length ds" and k: "ds ! i = Some k"
  shows "registry_ok (ds[i := None]) (remove_key k m) (if lst = k then [] else lst) n"
proof -
  have st: "set m = {(k, i). i < length ds \<and> ds ! i = Some k}" and dis: "distinct (map fst m)"
    using ok by (simp_all add: registry_ok_def)
  have uni: "j = i" if "j < length ds" "ds ! j = Some k" for j
  proof -
    have "(k, i) \<in> set m" "(k, j) \<in> set m" using st i k that by auto
    with dis show ?thesis by (metis eq_key_imp_eq_value)
  qed
  have 1: "set (remove_key k m) = {(k, j). j < length (ds[i := None]) \<and> ds[i := None] ! j = Some k}"
  proof (rule set_eqI, clarify)
    fix x j
    show "(x, j) \<in> set (remove_key k m) \<longleftrightarrow>
      (x, j) \<in> {(k, j). j < length (ds[i := None]) \<and> ds[i := None] ! j = Some k}"
      using uni k by (cases "j = i") (auto simp: remove_key_def st i)
  qed
  have 2: "lst \<noteq> k \<Longrightarrow> lst \<in> fst ` set m \<Longrightarrow> lst \<in> fst ` set (remove_key k m)"
    by (force simp: remove_key_def)
  have 3: "distinct (map fst (remove_key k m))" using dis by (rule distinct_remove_key)
  have 4: "\<exists>j. 1 \<le> j \<and> j \<le> n \<and> x = phone_id j" if "x \<in> fst ` set (remove_key k m)" for x
    using ok that in_remove_key unfolding registry_ok_def by blast
  have 5: "lst = [] \<or> lst \<in> fst ` set m" using ok unfolding registry_ok_def by blast
  show ?thesis
    unfolding registry_ok_def using 1 2 3 4 5 by (metis (no_types, lifting))
qed

section \<open>The steps of the server\<close>

definition roles :: "relay_state \<Rightarrow> role list" where
  "roles s = map (role_of \<circ> th_pc) (rl_threads s)"

definition pids :: "relay_state \<Rightarrow> string option list" where
  "pids s = map (pid_of \<circ> th_pc) (rl_threads s)"

definition relay_ok :: "relay_state \<Rightarrow> bool" where
  "relay_ok s \<longleftrightarrow> length (rl_conns s) = length (rl_threads s) \<and>
     chan_ok (roles s) (rl_wait s) (rl_chans s) \<and> registry_ok (pids s) (rl_ctrl s) (rl_last s) (rl_next s)"

lemma on_conn_simps [simp]:
  "rl_threads (on_conn i f s) = rl_threads s" "rl_ctrl (on_conn i f s) = rl_ctrl s"
  "rl_last (on_conn i f s) = rl_last s" "rl_wait (on_conn i f s) = rl_wait s"
  "rl_chans (on_conn i f s) = rl_chans s" "rl_next (on_conn i f s) = rl_next s"
  "rl_cid (on_conn i f s) = rl_cid s" "rl_conns (on_conn i f s) = (rl_conns s)[i := f (rl_conns s ! i)]"
  "roles (on_conn i f s) = roles s" "pids (on_conn i f s) = pids s"
  by (simp_all add: on_conn_def roles_def pids_def)

lemma goto_simps [simp]:
  "rl_conns (goto i p s) = rl_conns s" "rl_ctrl (goto i p s) = rl_ctrl s"
  "rl_last (goto i p s) = rl_last s" "rl_wait (goto i p s) = rl_wait s"
  "rl_chans (goto i p s) = rl_chans s" "rl_next (goto i p s) = rl_next s"
  "rl_cid (goto i p s) = rl_cid s" "length (rl_threads (goto i p s)) = length (rl_threads s)"
  "roles (goto i p s) = (roles s)[i := role_of p]" "pids (goto i p s) = (pids s)[i := pid_of p]"
  by (simp_all add: goto_def roles_def pids_def map_update)

lemma view_simps [simp]:
  "roles (s\<lparr>rl_wait := w\<rparr>) = roles s" "pids (s\<lparr>rl_wait := w\<rparr>) = pids s"
  "roles (s\<lparr>rl_chans := cs\<rparr>) = roles s" "pids (s\<lparr>rl_chans := cs\<rparr>) = pids s"
  "roles (s\<lparr>rl_cid := n\<rparr>) = roles s" "pids (s\<lparr>rl_cid := n\<rparr>) = pids s"
  "roles (s\<lparr>rl_ctrl := m\<rparr>) = roles s" "pids (s\<lparr>rl_ctrl := m\<rparr>) = pids s"
  "roles (s\<lparr>rl_last := l\<rparr>) = roles s" "pids (s\<lparr>rl_last := l\<rparr>) = pids s"
  "roles (s\<lparr>rl_next := n\<rparr>) = roles s" "pids (s\<lparr>rl_next := n\<rparr>) = pids s"
  "roles (s\<lparr>rl_threads := ts\<rparr>) = map (role_of \<circ> th_pc) ts" "pids (s\<lparr>rl_threads := ts\<rparr>) = map (pid_of \<circ> th_pc) ts"
  "length (roles s) = length (rl_threads s)" "length (pids s) = length (rl_threads s)"
  by (simp_all add: roles_def pids_def)

lemma chan_simps [simp]:
  "roles (new_chan k s) = roles s" "pids (new_chan k s) = pids s" "rl_threads (new_chan k s) = rl_threads s"
  "rl_wait (new_chan k s) = (k, length (rl_chans s)) # remove_key k (rl_wait s)"
  "rl_chans (new_chan k s) = rl_chans s @ [None]" "rl_ctrl (new_chan k s) = rl_ctrl s"
  "rl_last (new_chan k s) = rl_last s" "rl_next (new_chan k s) = rl_next s" "rl_conns (new_chan k s) = rl_conns s"
  "roles (take_chan ch s) = roles s" "pids (take_chan ch s) = pids s" "rl_threads (take_chan ch s) = rl_threads s"
  "rl_wait (take_chan ch s) = rl_wait s" "rl_chans (take_chan ch s) = (rl_chans s)[ch := None]"
  "rl_ctrl (take_chan ch s) = rl_ctrl s" "rl_last (take_chan ch s) = rl_last s"
  "rl_next (take_chan ch s) = rl_next s" "rl_conns (take_chan ch s) = rl_conns s"
  by (simp_all add: new_chan_def take_chan_def)

lemma relay_ok_init: "relay_ok relay_init"
  by (simp add: relay_ok_def relay_init_def roles_def pids_def chan_ok_def entries_ok_def waits_ok_def
      sends_ok_def values_ok_def pipes_ok_def registry_ok_def)

lemma relay_ok_on_conn [simp]: "relay_ok (on_conn i f s) = relay_ok s"
  by (simp add: relay_ok_def)

text \<open>What is known of thread \<open>i\<close> at the point \<open>p\<close>.\<close>

definition at_pc :: "nat \<Rightarrow> pc \<Rightarrow> relay_state \<Rightarrow> bool" where
  "at_pc i p s \<longleftrightarrow> i < length (rl_threads s) \<and> th_pc (rl_threads s ! i) = p"

lemma at_pcD:
  assumes "at_pc i p s"
  shows "i < length (rl_threads s)" "roles s ! i = role_of p" "pids s ! i = pid_of p"
  using assms by (simp_all add: at_pc_def roles_def pids_def)

lemma at_pc_on_conn [simp]: "at_pc i p (on_conn j f s) = at_pc i p s"
  by (simp add: at_pc_def)

text \<open>A thread that is not registered moves on; entries may be removed.\<close>

lemma relay_ok_goto:
  assumes "relay_ok s" and p: "at_pc i p s" and "pid_of p' = pid_of p"
    and "role_of p' = Elsewhere \<or> role_of p' = Over \<or> role_of p' = role_of p \<and> (\<exists>ch. role_of p = Waits ch)"
    and "role_of p \<noteq> Over \<or> role_of p' = Over"
  shows "relay_ok (goto i p' s)" "relay_ok (goto i p' (s\<lparr>rl_wait := remove_key k (rl_wait s)\<rparr>))"
proof -
  note D = at_pcD [OF p]
  have c: "chan_ok (roles s) (rl_wait s) (rl_chans s)" and l: "length (rl_conns s) = length (rl_threads s)"
    and r: "registry_ok (pids s) (rl_ctrl s) (rl_last s) (rl_next s)"
    using assms(1) by (simp_all add: relay_ok_def)
  have r': "registry_ok ((pids s)[i := pid_of p']) (rl_ctrl s) (rl_last s) (rl_next s)"
    using r D(3) assms(3) by (intro registry_ok_same) simp_all
  have "chan_ok ((roles s)[i := role_of p']) w (rl_chans s)"
    if "set w \<subseteq> set (rl_wait s)" "distinct (map snd w)" for w
  proof -
    have "role_of p' = Elsewhere \<or> role_of p' = Over \<or> (\<exists>ch. role_of p' = Waits ch \<and> roles s ! i = Waits ch)"
      using assms(4) D(2) by auto
    moreover have "roles s ! i \<noteq> Over \<or> role_of p' = Over" using assms(5) D(2) by simp
    moreover have "i < length (roles s)" using D(1) by simp
    ultimately show ?thesis using chan_ok_quiet [OF c, of i "role_of p'"] that by metis
  qed
  note this [of "rl_wait s"] this [of "remove_key k (rl_wait s)"]
  moreover have "distinct (map snd (rl_wait s))" using chan_okD(1) [OF c] .
  moreover have "set (remove_key k (rl_wait s)) \<subseteq> set (rl_wait s)" using in_remove_key by auto
  ultimately show "relay_ok (goto i p' s)" "relay_ok (goto i p' (s\<lparr>rl_wait := remove_key k (rl_wait s)\<rparr>))"
    using l r' by (simp_all add: relay_ok_def distinct_remove_key)
qed

text \<open>A thread that waits on no channel makes an entry.\<close>

lemma relay_ok_new_chan:
  assumes "relay_ok s" and p: "at_pc i p s" and "pid_of p = None" "pid_of p' = None"
    and "role_of p = Elsewhere" and "role_of p' = Waits (length (rl_chans s))"
  shows "relay_ok (goto i p' (new_chan k s))"
proof -
  note D = at_pcD [OF p]
  have c: "chan_ok (roles s) (rl_wait s) (rl_chans s)" and r: "registry_ok (pids s) (rl_ctrl s) (rl_last s) (rl_next s)"
    using assms(1) by (simp_all add: relay_ok_def)
  have "registry_ok ((pids s)[i := pid_of p']) (rl_ctrl s) (rl_last s) (rl_next s)"
    using r D(3) assms(3,4) by (intro registry_ok_same) simp_all
  moreover have "chan_ok ((roles s)[i := Waits (length (rl_chans s))])
    ((k, length (rl_chans s)) # remove_key k (rl_wait s)) (rl_chans s @ [None])"
    using D assms(5) by (intro chan_ok_new [OF c]) simp_all
  ultimately show ?thesis using assms(1,6) by (simp add: relay_ok_def)
qed

lemma relay_ok_line:
  assumes "relay_ok s" and p: "at_pc i Fresh s"
  shows "relay_ok (relay_line i line rest s)"
proof -
  note D = at_pcD [OF p, simplified]
  have c: "chan_ok (roles s) (rl_wait s) (rl_chans s)" and r: "registry_ok (pids s) (rl_ctrl s) (rl_last s) (rl_next s)"
    and l: "length (rl_conns s) = length (rl_threads s)"
    using assms(1) by (simp_all add: relay_ok_def)
  have reg: "relay_ok (goto i (Announce (phone_id (rl_next s + 1))) (on_conn i f
      (s\<lparr>rl_next := rl_next s + 1, rl_ctrl := (phone_id (rl_next s + 1), i) # remove_key (phone_id (rl_next s + 1)) (rl_ctrl s),
        rl_last := phone_id (rl_next s + 1)\<rparr>)))" (is "relay_ok ?t") for f
  proof -
    have "registry_ok (pids ?t) (rl_ctrl ?t) (rl_last ?t) (rl_next ?t)"
      using registry_ok_register [OF r, of i] D by simp
    moreover have "chan_ok (roles ?t) (rl_wait ?t) (rl_chans ?t)"
      using chan_ok_quiet [OF c, where i = i and r = Elsewhere and w' = "rl_wait s"] D chan_okD(1) [OF c] by simp
    ultimately show ?thesis using l by (simp add: relay_ok_def)
  qed
  have ret: "relay_ok (goto i Returning (on_conn i f s))" for f
    using relay_ok_goto(1) [of "on_conn i f s" i Fresh Returning] assms by simp
  have con: "relay_ok (t\<lparr>rl_threads := (rl_threads t)[i := \<lparr>th_pc = Knocking w (length (rl_chans s)), th_buf = rest\<rparr>]\<rparr>)"
    if t: "t = new_chan w (on_conn i f s)" for w f t
  proof -
    have "relay_ok (goto i (Knocking w (length (rl_chans s))) t)"
      unfolding t using assms by (intro relay_ok_new_chan [of _ i Fresh]) simp_all
    then show ?thesis by (simp add: relay_ok_def roles_def [symmetric] pids_def [symmetric] map_update)
  qed
  have dat: "relay_ok (goto i (HandOver ch) ((on_conn i f s)\<lparr>rl_wait := remove_key w (rl_wait s)\<rparr>))"
    if "map_of (rl_wait s) w = Some ch" for w f ch
  proof -
    have "chan_ok ((roles s)[i := Sends ch]) (remove_key w (rl_wait s)) (rl_chans s)"
      using D map_of_SomeD [OF that] by (intro chan_ok_take_entry [OF c]) simp_all
    moreover have "registry_ok ((pids s)[i := None]) (rl_ctrl s) (rl_last s) (rl_next s)"
      using r D by (intro registry_ok_same) simp_all
    ultimately show ?thesis using l by (simp add: relay_ok_def)
  qed
  have ret0: "relay_ok (goto i Returning s)" using relay_ok_goto(1) [OF assms] by simp
  show ?thesis
    using reg ret ret0 con dat by (simp add: relay_line_def Let_def split: option.split)
qed

lemma relay_ok_fresh:
  assumes "relay_ok s" and p: "at_pc i Fresh s"
  shows "relay_ok (relay_fresh i s)"
proof -
  have g: "relay_ok (goto i p' (on_conn i f s))" if "p' = Returning \<or> (\<exists>t. p' = Targeted t)" for p' f
    using relay_ok_goto(1) [of "on_conn i f s" i Fresh p'] that assms by auto
  have l: "relay_ok (relay_line i line rest (on_conn i f s))" for line rest f
    using assms by (intro relay_ok_line) simp_all
  show ?thesis
    unfolding relay_fresh_def Let_def by (auto intro: g l split: option.split sum.split)
qed

lemma relay_ok_leave:
  assumes "relay_ok s" and p: "at_pc i (Listening pid) s"
  shows "relay_ok (relay_leave i pid s)"
proof -
  note D = at_pcD [OF p, simplified]
  have c: "chan_ok (roles s) (rl_wait s) (rl_chans s)" and r: "registry_ok (pids s) (rl_ctrl s) (rl_last s) (rl_next s)"
    using assms(1) by (simp_all add: relay_ok_def)
  have "chan_ok ((roles s)[i := Over]) (rl_wait s) (rl_chans s)"
    using D chan_okD(1) [OF c] by (intro chan_ok_quiet [OF c]) simp_all
  moreover have "registry_ok ((pids s)[i := None]) (remove_key pid (rl_ctrl s))
      (if rl_last s = pid then [] else rl_last s) (rl_next s)"
    using D by (intro registry_ok_leave [OF r]) simp_all
  ultimately show ?thesis using assms(1) by (simp add: relay_ok_def relay_leave_def)
qed

lemma relay_ok_refuse:
  assumes "relay_ok s" and p: "at_pc i p s" and "pid_of p = None"
  shows "relay_ok (relay_refuse i cid rep s)"
proof -
  have "relay_ok (goto i Returning (s\<lparr>rl_wait := remove_key cid (rl_wait s)\<rparr>))"
    using assms by (intro relay_ok_goto(2) [OF _ p]) simp_all
  then show ?thesis by (simp add: relay_refuse_def relay_ok_def)
qed

text \<open>The waiting thread takes the connection that is in its channel.\<close>

lemma relay_ok_receive:
  assumes "relay_ok s" and p: "at_pc i p s" and "pid_of p = None" and "role_of p = Waits ch"
    and "rl_chans s ! ch = Some d"
  shows "relay_ok (goto i (Piping d) (on_conn i f (take_chan ch s)))" "relay_ok (goto i (Piping d) (take_chan ch s))"
proof -
  note D = at_pcD [OF p]
  have c: "chan_ok (roles s) (rl_wait s) (rl_chans s)" and r: "registry_ok (pids s) (rl_ctrl s) (rl_last s) (rl_next s)"
    using assms(1) by (simp_all add: relay_ok_def)
  have "chan_ok ((roles s)[i := Pipes d]) (rl_wait s) ((rl_chans s)[ch := None])"
    using D assms(4,5) by (intro chan_ok_receive [OF c]) simp_all
  moreover have "registry_ok ((pids s)[i := None]) (rl_ctrl s) (rl_last s) (rl_next s)"
    using r D assms(3) by (intro registry_ok_same) simp_all
  ultimately show "relay_ok (goto i (Piping d) (on_conn i f (take_chan ch s)))"
    "relay_ok (goto i (Piping d) (take_chan ch s))"
    using assms(1) by (simp_all add: relay_ok_def)
qed

lemma relay_ok_send:
  assumes "relay_ok s" and p: "at_pc i (HandOver ch) s"
  shows "relay_ok (goto i Returning (s\<lparr>rl_chans := (rl_chans s)[ch := Some i]\<rparr>))"
proof -
  note D = at_pcD [OF p, simplified]
  have c: "chan_ok (roles s) (rl_wait s) (rl_chans s)" and r: "registry_ok (pids s) (rl_ctrl s) (rl_last s) (rl_next s)"
    using assms(1) by (simp_all add: relay_ok_def)
  have "chan_ok ((roles s)[i := Over]) (rl_wait s) ((rl_chans s)[ch := Some i])"
    using D by (intro chan_ok_send [OF c]) simp_all
  moreover have "registry_ok ((pids s)[i := None]) (rl_ctrl s) (rl_last s) (rl_next s)"
    using r D by (intro registry_ok_same) simp_all
  ultimately show ?thesis using assms(1) by (simp add: relay_ok_def)
qed

lemma relay_ok_pc:
  assumes "relay_ok s" and p: "at_pc i p s"
  shows "relay_ok (relay_pc i p s)"
proof (cases p)
  case Fresh
  with assms relay_ok_fresh show ?thesis by simp
next
  case (Announce pid)
  have "relay_ok (goto i (Listening pid) (on_conn i (write_to (line_id pid)) s))"
    using assms by (intro relay_ok_goto(1) [of _ i p]) (simp_all add: Announce)
  then show ?thesis by (simp add: Announce)
next
  case (Listening pid)
  with assms relay_ok_leave show ?thesis by simp
next
  case (Knocking w ch)
  have "relay_ok (goto i (AwaitData ch) s')" if "s' = s \<or> (\<exists>sc f. s' = on_conn sc f s)" for s'
    using that assms by (intro relay_ok_goto(1) [of _ i p]) (auto simp: Knocking)
  then show ?thesis by (auto simp: Knocking split: option.split)
next
  case (AwaitData ch)
  show ?thesis
    using assms relay_ok_receive(2) [OF assms, of ch] by (simp add: AwaitData split: option.split)
next
  case (HandOver ch)
  with assms relay_ok_send show ?thesis by simp
next
  case (Targeted target)
  have "relay_ok (goto i p' s')" if "p' = Returning \<or> (\<exists>l. p' = Chosen l target)" "s' = s \<or> (\<exists>f. s' = on_conn i f s)"
    for p' s' using that assms by (intro relay_ok_goto(1) [of _ i p]) (auto simp: Targeted)
  then show ?thesis by (auto simp: Targeted)
next
  case (Chosen phone target)
  let ?s = "s\<lparr>rl_cid := rl_cid s + 1\<rparr>"
  have "relay_ok ?s" "at_pc i p ?s" using assms by (simp_all add: relay_ok_def at_pc_def)
  then have "relay_ok (goto i (Noted k (length (rl_chans ?s)) phone target) (new_chan k ?s))" for k
    by (intro relay_ok_new_chan [of _ i p]) (simp_all add: Chosen)
  then show ?thesis by (simp add: Chosen Let_def)
next
  case (Noted cid ch phone target)
  have "relay_ok (goto i (Telling cid ch sc target) s)" for sc
    using assms by (intro relay_ok_goto(1) [of _ i p]) (auto simp: Noted)
  moreover have "relay_ok (relay_refuse i cid 1 s)" using assms by (intro relay_ok_refuse) (auto simp: Noted)
  ultimately show ?thesis by (simp add: Noted split: option.split)
next
  case (Telling cid ch sc target)
  have "relay_ok (goto i (AwaitSocks cid ch) (on_conn sc f s))" for f
    using assms by (intro relay_ok_goto(1) [of _ i p]) (auto simp: Telling)
  moreover have "relay_ok (relay_refuse i cid 1 (on_conn sc f s))" for f
    using assms by (intro relay_ok_refuse [of _ i p]) (auto simp: Telling)
  ultimately show ?thesis by (simp add: Telling Let_def split: prod.split)
next
  case (AwaitSocks cid ch)
  show ?thesis
    using assms relay_ok_receive(1) [OF assms, of ch] by (simp add: AwaitSocks split: option.split)
next
  case (Piping d)
  have "relay_ok (goto i Returning (on_conn i f (on_conn d g s)))" for f g
    using assms by (intro relay_ok_goto(1) [of _ i p]) (auto simp: Piping)
  then show ?thesis by (simp add: Piping split: prod.split)
next
  case Returning
  have "relay_ok (goto i Ended (on_conn i conn_close s))"
    using assms by (intro relay_ok_goto(1) [of _ i p]) (auto simp: Returning)
  then show ?thesis by (simp add: Returning)
next
  case Ended
  with assms show ?thesis by simp
qed

lemma relay_ok_step: "relay_ok s \<Longrightarrow> relay_ok (relay_step e s)"
proof (cases e)
  case (RAccept c)
  assume "relay_ok s"
  then show ?thesis
    using chan_ok_accept registry_ok_accept by (simp add: RAccept relay_ok_def roles_def pids_def)
next
  case (RRun i)
  assume "relay_ok s"
  then show ?thesis using relay_ok_pc [of s i "th_pc (rl_threads s ! i)"] by (simp add: RRun at_pc_def)
next
  case (RTimeout i)
  assume ok: "relay_ok s"
  have "relay_ok (goto i Returning s)" if "i < length (rl_threads s)" "th_pc (rl_threads s ! i) = AwaitData ch" for ch
    using ok that by (intro relay_ok_goto(1) [of _ i "AwaitData ch"]) (simp_all add: at_pc_def)
  moreover have "relay_ok (relay_refuse i cid 3 s)"
    if "i < length (rl_threads s)" "th_pc (rl_threads s ! i) = AwaitSocks cid ch" for cid ch
    using ok that by (intro relay_ok_refuse [of _ i "AwaitSocks cid ch"]) (simp_all add: at_pc_def)
  ultimately show ?thesis using ok by (simp add: RTimeout split: pc.split)
qed

interpretation relay_inv: step_invariant relay_step relay_ok
  by unfold_locales (rule relay_ok_step)

lemma relay_ok_run: "relay_ok s \<Longrightarrow> relay_ok (relay_run evs s)"
  unfolding relay_run_def by (rule relay_inv.run_inv)

lemma relay_run_simps [simp]:
  "relay_run [] s = s" "relay_run (e # es) s = relay_run es (relay_step e s)"
  by (simp_all add: relay_run_def)

section \<open>Properties\<close>

lemma relay_reachable_ok: "relay_ok (relay_run evs relay_init)"
  by (rule relay_ok_run [OF relay_ok_init])

text \<open>
  C11. The registry is exact in every run of the relay server: a phone id is in the map exactly when
  the thread of its connection is between registering and the end of its control connection, no id
  is given out twice, and \<^verbatim>\<open>lastPhone\<close>, through which SOCKS5 clients are sent, is empty or the id
  of a phone that is registered, so that a client is never sent to a phone known to be gone.
\<close>

theorem relay_registry:
  "let s = relay_run evs relay_init in
   distinct (map fst (rl_ctrl s)) \<and>
   (\<forall>pid i. map_of (rl_ctrl s) pid = Some i \<longleftrightarrow>
      i < length (rl_threads s) \<and> pid_of (th_pc (rl_threads s ! i)) = Some pid) \<and>
   (rl_last s = [] \<or> rl_last s \<in> fst ` set (rl_ctrl s))"
proof -
  define s where "s = relay_run evs relay_init"
  have "registry_ok (pids s) (rl_ctrl s) (rl_last s) (rl_next s)"
    using relay_reachable_ok unfolding s_def relay_ok_def by blast
  then have d: "distinct (map fst (rl_ctrl s))"
    and m: "set (rl_ctrl s) = {(k, i). i < length (pids s) \<and> pids s ! i = Some k}"
    and l: "rl_last s = [] \<or> rl_last s \<in> fst ` set (rl_ctrl s)"
    unfolding registry_ok_def by blast+
  have "map_of (rl_ctrl s) pid = Some i \<longleftrightarrow> (pid, i) \<in> set (rl_ctrl s)" for pid i
    using d by (auto simp: map_of_eq_Some_iff)
  also have "(pid, i) \<in> set (rl_ctrl s) \<longleftrightarrow>
      i < length (rl_threads s) \<and> pid_of (th_pc (rl_threads s ! i)) = Some pid" for pid i
    unfolding m by (auto simp: pids_def)
  finally have "map_of (rl_ctrl s) pid = Some i \<longleftrightarrow>
      i < length (rl_threads s) \<and> pid_of (th_pc (rl_threads s ! i)) = Some pid" for pid i .
  with d l show ?thesis by (simp add: s_def [symmetric] Let_def)
qed

text \<open>
  C9. In every run of the relay server: a thread that is about to send its connection finds its
  channel empty and is the only one to send on it, so that \<^verbatim>\<open>entry.dataCh <- conn\<close> never blocks
  although the channel holds one value; and a data connection is piped by one thread at most,
  after the thread that handled it has let go of it, so that two clients are never joined to the
  same phone connection.
\<close>

theorem relay_handover:
  "let s = relay_run evs relay_init; pc = (\<lambda>i. th_pc (rl_threads s ! i)); n = length (rl_threads s) in
   (\<forall>i ch. i < n \<longrightarrow> pc i = HandOver ch \<longrightarrow> rl_chans s ! ch = None \<and> (\<forall>j. j < n \<longrightarrow> pc j = HandOver ch \<longrightarrow> j = i)) \<and>
   (\<forall>i d. i < n \<longrightarrow> pc i = Piping d \<longrightarrow>
      d < n \<and> d \<noteq> i \<and> pc d \<in> {Returning, Ended} \<and> (\<forall>j. j < n \<longrightarrow> pc j = Piping d \<longrightarrow> j = i))"
proof -
  define s where "s = relay_run evs relay_init"
  have ok: "chan_ok (roles s) (rl_wait s) (rl_chans s)"
    using relay_reachable_ok unfolding s_def relay_ok_def by blast
  have role: "role_of (th_pc (rl_threads s ! i)) = roles s ! i" if "i < length (rl_threads s)" for i
    using that by (simp add: roles_def)
  have once: "j = i" if "i < length (rl_threads s)" "j < length (rl_threads s)" "roles s ! i = r" "roles s ! j = r"
    "count_list (roles s) r \<le> 1" for i j r
    using that count_list_once [of "roles s" r i j] by simp
  have over: "p \<in> {Returning, Ended}" if "role_of p = Over" for p
    using that by (cases p) simp_all
  have a: "rl_chans s ! ch = None \<and> (\<forall>j. j < length (rl_threads s) \<longrightarrow> th_pc (rl_threads s ! j) = HandOver ch \<longrightarrow> j = i)"
    if "i < length (rl_threads s)" "th_pc (rl_threads s ! i) = HandOver ch" for i ch
  proof -
    have r: "roles s ! i = Sends ch" using role [OF that(1)] that(2) by simp
    then have "Sends ch \<in> set (roles s)" using that(1) nth_mem [of i "roles s"] by simp
    note D = chan_okD(4) [OF ok this]
    have "j = i" if "j < length (rl_threads s)" "th_pc (rl_threads s ! j) = HandOver ch" for j
      using once [OF \<open>i < _\<close> that(1) r] role [OF that(1)] that(2) D by simp
    with D show ?thesis by blast
  qed
  have b: "d < length (rl_threads s) \<and> d \<noteq> i \<and> th_pc (rl_threads s ! d) \<in> {Returning, Ended} \<and>
      (\<forall>j. j < length (rl_threads s) \<longrightarrow> th_pc (rl_threads s ! j) = Piping d \<longrightarrow> j = i)"
    if "i < length (rl_threads s)" "th_pc (rl_threads s ! i) = Piping d" for i d
  proof -
    have r: "roles s ! i = Pipes d" using role [OF that(1)] that(2) by simp
    then have "Pipes d \<in> set (roles s)" using that(1) nth_mem [of i "roles s"] by simp
    note D = chan_okD(7) [OF ok this]
    have d: "d < length (rl_threads s)" "role_of (th_pc (rl_threads s ! d)) = Over" using D role by simp_all
    have "j = i" if "j < length (rl_threads s)" "th_pc (rl_threads s ! j) = Piping d" for j
      using once [OF \<open>i < _\<close> that(1) r] role [OF that(1)] that(2) D by simp
    moreover have "d \<noteq> i" using D r by auto
    ultimately show ?thesis using d over by blast
  qed
  show ?thesis unfolding Let_def s_def [symmetric] using a b by blast
qed

definition sample_handover :: "relay_event list" where
  "sample_handover = [RAccept (fresh_conn [line_of ''connect:a''] []), RRun 0, RRun 0,
     RAccept (fresh_conn [line_of ''data:a''] []), RRun 1]"

theorem relay_handover_witness:
  "let s = relay_run sample_handover relay_init in
   th_pc (rl_threads s ! 1) = HandOver 0 \<and> rl_chans s ! 0 = None"
proof -
  have "let s = relay_run sample_handover relay_init in
      length (rl_threads s) = 2 \<and> th_pc (rl_threads s ! 1) = HandOver 0"
    by (simp add: sample_handover_def relay_init_def relay_fresh_line relay_line_def on_conn_def goto_def new_chan_def has_prefix_def Let_def)
  with relay_handover [of sample_handover, unfolded Let_def, THEN conjunct1, rule_format, of 1 0]
  show ?thesis by (simp add: Let_def)
qed

end
