(* ===== verification/Relay_Sessions.thy ===== *)
theory Relay_Sessions
  imports Relay_Invariants
begin

text \<open>
  What the relay server does for one client: the SOCKS5 front as a function of the client's whole
  input, the pipe between a client and a data connection, and the hand-over of a data connection from
  the thread that accepted it to the thread of the client, in the orders the scheduler may choose.
\<close>

section \<open>The SOCKS5 front\<close>

text \<open>What the front makes of a client's input: what it writes before it gives up, or the target and the input left.\<close>

definition front_request :: "byte list \<Rightarrow> byte list + (string \<times> byte list)" where
  "front_request s =
     (if length s < 4 then Inl []
      else if s ! 1 \<noteq> 1 then Inl (reply_code 7)
      else case parse_dst (s ! 3) (drop 4 s) of
             DGot host port rest \<Rightarrow> Inr (join_host_port host (show_nat port), rest)
           | _ \<Rightarrow> Inl (reply_code 8))"

definition front_spec :: "byte list \<Rightarrow> byte list + (string \<times> byte list)" where
  "front_spec s =
     (if length s < 2 \<or> length s < 2 + unat (s ! 1) then Inl []
      else case front_request (drop (2 + unat (s ! 1)) s) of
             Inl out \<Rightarrow> Inl (no_auth @ out)
           | Inr r \<Rightarrow> Inr r)"

lemma readPort_at:
  assumes "hs_at out s h"
  shows "if length s < 2 then readPort h = None
    else \<exists>h'. readPort h = Some (be16 (s ! 0) (s ! 1), h') \<and> hs_at out (drop 2 s) h'"
proof (cases "length s < 2")
  case True
  then show ?thesis using recv_at_short [OF assms, of 2 2] by (simp add: readPort_def)
next
  case False
  then obtain h' where "recv 2 2 h = RGot (take 2 s) h'" "hs_at out (drop 2 s) h'"
    using recv_at [OF assms, of 2 2] by auto
  with False show ?thesis by (simp add: readPort_def)
qed

text \<open>Reading an address of a fixed number of bytes, or of the number given by its first byte.\<close>

lemma readAddr_at:
  assumes "hs_at out s h"
  shows "a = 1 \<Longrightarrow> if length s < 4 then readAddr a h = None
      else \<exists>h'. readAddr a h = Some (ip_string (take 4 s), h') \<and> hs_at out (drop 4 s) h'"
    and "a = 4 \<Longrightarrow> if length s < 16 then readAddr a h = None
      else \<exists>h'. readAddr a h = Some (ip_string (take 16 s), h') \<and> hs_at out (drop 16 s) h'"
    and "a = 3 \<Longrightarrow> if length s < 1 \<or> length s < 1 + unat (s ! 0) then readAddr a h = None
      else \<exists>h'. readAddr a h = Some (str_of (take (unat (s ! 0)) (drop 1 s)), h') \<and> hs_at out (drop (1 + unat (s ! 0)) s) h'"
    and "a \<noteq> 1 \<Longrightarrow> a \<noteq> 3 \<Longrightarrow> a \<noteq> 4 \<Longrightarrow> readAddr a h = None"
proof -
  have full: "if length s < n then recv n n h = RErr
      else \<exists>h'. recv n n h = RGot (take n s) h' \<and> hs_at out (drop n s) h'" for n
  proof (cases "length s < n")
    case True
    then show ?thesis using recv_at_short [OF assms, where n = n and cap = n] by simp
  next
    case False
    then obtain h' where "recv n n h = RGot (take n s) h'" "hs_at out (drop n s) h'"
      using recv_at [OF assms, where n = n and cap = n] by auto
    with False show ?thesis by simp
  qed
  show "a = 1 \<Longrightarrow> if length s < 4 then readAddr a h = None
      else \<exists>h'. readAddr a h = Some (ip_string (take 4 s), h') \<and> hs_at out (drop 4 s) h'"
    using full [of 4] by (auto simp: readAddr_def split: if_splits)
  show "a = 4 \<Longrightarrow> if length s < 16 then readAddr a h = None
      else \<exists>h'. readAddr a h = Some (ip_string (take 16 s), h') \<and> hs_at out (drop 16 s) h'"
    using full [of 16] by (auto simp: readAddr_def split: if_splits)
  show "a \<noteq> 1 \<Longrightarrow> a \<noteq> 3 \<Longrightarrow> a \<noteq> 4 \<Longrightarrow> readAddr a h = None" by (simp add: readAddr_def)
  assume a: "a = 3"
  show "if length s < 1 \<or> length s < 1 + unat (s ! 0) then readAddr a h = None
      else \<exists>h'. readAddr a h = Some (str_of (take (unat (s ! 0)) (drop 1 s)), h') \<and> hs_at out (drop (1 + unat (s ! 0)) s) h'"
  proof (cases "length s < 1")
    case True
    then show ?thesis using full [of 1] a by (simp add: readAddr_def)
  next
    case False
    then obtain h1 where r: "recv 1 1 h = RGot (take 1 s) h1" and h1: "hs_at out (drop 1 s) h1"
      using full [of 1] by auto
    let ?n = "unat (s ! 0)"
    show ?thesis
    proof (cases "length s < 1 + ?n")
      case True
      then have "length (drop 1 s) < ?n" using False by (cases s) simp_all
      then have "recv ?n ?n h1 = RErr" by (intro recv_at_short [OF h1]) simp_all
      with r a True False show ?thesis by (simp add: readAddr_def)
    next
      case ge: False
      then have "?n \<le> length (drop 1 s)" using False by (cases s) simp_all
      then obtain h2 where "recv ?n ?n h1 = RGot (take ?n (drop 1 s)) h2" "hs_at out (drop ?n (drop 1 s)) h2"
        by (rule recv_at [OF h1 order_refl])
      with r a ge False show ?thesis by (simp add: readAddr_def add.commute)
    qed
  qed
qed

text \<open>Address and port together are what the parse of the whole input gives.\<close>

lemma readAddr_readPort:
  assumes h: "hs_at out s h"
  shows "case parse_dst a s of
      DGot host port rest \<Rightarrow> \<exists>h1 h2. readAddr a h = Some (host, h1) \<and> readPort h1 = Some (port, h2) \<and> hs_at out rest h2
    | _ \<Rightarrow> readAddr a h = None \<or> (\<exists>host h1 s'. readAddr a h = Some (host, h1) \<and> readPort h1 = None \<and> hs_at out s' h1)"
proof -
  have port: "case parse_port host r of
      DGot host port rest \<Rightarrow> \<exists>h1 h2. readAddr a h = Some (host, h1) \<and> readPort h1 = Some (port, h2) \<and> hs_at out rest h2
    | _ \<Rightarrow> \<exists>host h1 s'. readAddr a h = Some (host, h1) \<and> readPort h1 = None \<and> hs_at out s' h1"
    if "\<exists>h1. readAddr a h = Some (host, h1) \<and> hs_at out r h1" for host r
  proof -
    from that obtain h1 where ra: "readAddr a h = Some (host, h1)" and h1: "hs_at out r h1" by blast
    from readPort_at [OF h1] ra h1 show ?thesis by (cases "length r < 2") (auto simp: parse_port_def)
  qed
  note addr = readAddr_at [OF h, of a]
  consider "a = 1" | "a = 3" | "a = 4" | "a \<noteq> 1" "a \<noteq> 3" "a \<noteq> 4" by blast
  then show ?thesis
  proof cases
    case 1
    with addr(1) port [of "ip_string (take 4 s)" "drop 4 s"] show ?thesis
      by (auto simp: parse_dst_def split: if_splits dst_result.splits)
  next
    case 2
    with addr(3) port [of "str_of (take (unat (s ! 0)) (drop 1 s))" "drop (1 + unat (s ! 0)) s"] show ?thesis
      by (auto simp: parse_dst_def split: if_splits dst_result.splits)
  next
    case 3
    with addr(2) port [of "ip_string (take 16 s)" "drop 16 s"] show ?thesis
      by (auto simp: parse_dst_def split: if_splits dst_result.splits)
  next
    case 4
    with addr(4) show ?thesis by (simp add: parse_dst_def)
  qed
qed

lemma relay_request_at:
  assumes h: "hs_at out s h"
  shows "case relay_request h of
      Inl h' \<Rightarrow> \<exists>w s'. front_request s = Inl w \<and> hs_at (out @ w) s' h'
    | Inr (t, h') \<Rightarrow> \<exists>rest. front_request s = Inr (t, rest) \<and> hs_at out rest h'"
proof (cases "length s < 4")
  case True
  then show ?thesis
    using h recv_at_short [OF h, of 4 4] by (auto simp: relay_request_def front_request_def)
next
  case False
  then obtain h1 where r: "recv 4 4 h = RGot (take 4 s) h1" and h1: "hs_at out (drop 4 s) h1"
    using recv_at [OF h, of 4 4] by auto
  have rej: "hs_at (out @ reply_code c) s' (reject c h')" if "hs_at out s' h'" for c s' and h' :: "'a hstate"
    using send_at [OF that, of "reply_code c"] by (metis reject_def snd_conv)
  show ?thesis
  proof (cases "s ! 1 \<noteq> 1")
    case True
    then show ?thesis
      using False r rej [OF h1] by (auto simp: relay_request_def front_request_def)
  next
    case cmd: False
    show ?thesis
    proof (cases "parse_dst (s ! 3) (drop 4 s)")
      case (DGot host port rest)
      with readAddr_readPort [OF h1, of "s ! 3"] False r cmd show ?thesis
        by (auto simp: relay_request_def front_request_def)
    next
      case DShort
      with readAddr_readPort [OF h1, of "s ! 3"] False r cmd rej h1 show ?thesis
        by (fastforce simp: relay_request_def front_request_def)
    next
      case DType
      with readAddr_readPort [OF h1, of "s ! 3"] False r cmd rej h1 show ?thesis
        by (fastforce simp: relay_request_def front_request_def)
    qed
  qed
qed

lemma relay_greet_at:
  assumes h: "hs_at out s h"
  shows "if length s < 2 \<or> length s < 2 + unat (s ! 1) then \<exists>h' s'. relay_greet h = Inl h' \<and> hs_at out s' h'
    else \<exists>h'. relay_greet h = Inr h' \<and> hs_at (out @ no_auth) (drop (2 + unat (s ! 1)) s) h'"
proof (cases "length s < 2")
  case True
  then show ?thesis using h recv_at_short [OF h, of 2 2] by (auto simp: relay_greet_def)
next
  case False
  let ?n = "unat (s ! 1)"
  obtain h1 where r: "recv 2 2 h = RGot (take 2 s) h1" and h1: "hs_at out (drop 2 s) h1"
    using False recv_at [OF h, of 2 2] by auto
  have n: "\<not> 255 < ?n" using unat_byte_le [of "s ! 1"] by linarith
  have t: "take 2 s ! 1 = s ! 1" by simp
  show ?thesis
  proof (cases "length s < 2 + ?n")
    case True
    then have "length (drop 2 s) < ?n" using False by simp
    then have "recv ?n ?n h1 = RErr" by (intro recv_at_short [OF h1]) simp_all
    with r n True h1 show ?thesis by (auto simp: relay_greet_def t)
  next
    case ge: False
    then have "?n \<le> length (drop 2 s)" using False by simp
    then obtain h2 where r2: "recv ?n ?n h1 = RGot (take ?n (drop 2 s)) h2" and h2: "hs_at out (drop ?n (drop 2 s)) h2"
      by (rule recv_at [OF h1 order_refl])
    obtain h3 where "send no_auth h2 = (True, h3)" "hs_at (out @ no_auth) (drop ?n (drop 2 s)) h3"
      using send_at [OF h2] by blast
    with r r2 n ge False show ?thesis by (simp add: relay_greet_def t add.commute)
  qed
qed

lemma relay_front_refines:
  assumes "writable c"
  shows "case relay_front c of
      Inl c' \<Rightarrow> \<exists>w. front_spec (stream c) = Inl w \<and> outq c' = outq c @ w
    | Inr (t, c') \<Rightarrow> \<exists>rest. front_spec (stream c) = Inr (t, rest) \<and> outq c' = outq c @ no_auth \<and>
        stream c' = rest \<and> writable c' \<and> deadline c' = None"
proof -
  let ?h = "start_handler (set_deadline (Some 15) c) :: unit hstate" and ?s = "stream c"
  note g = relay_greet_at [OF hs_at_start [OF assms, where d = "Some 15"]]
  show ?thesis
  proof (cases "length ?s < 2 \<or> length ?s < 2 + unat (?s ! 1)")
    case True
    with g obtain h' s' where "relay_greet ?h = Inl h'" "hs_at (outq c) s' h'" by auto
    with True show ?thesis by (auto simp: relay_front_def front_spec_def hs_at_def)
  next
    case False
    with g obtain h' where r: "relay_greet ?h = Inr h'"
      and h': "hs_at (outq c @ no_auth) (drop (2 + unat (?s ! 1)) ?s) h'" by auto
    from relay_request_at [OF h'] r False show ?thesis
      by (auto simp: relay_front_def front_spec_def hs_at_def split: sum.splits)
  qed
qed

text \<open>A well-formed request gives its host and port, joined the way \<^verbatim>\<open>net.JoinHostPort\<close> joins them.\<close>

lemma front_spec_encoded:
  assumes "length methods < 256" and "dst_wf d" and "port < 65536"
  shows "front_spec (encode_greeting methods @ encode_request d port @ rest) =
    Inr (join_host_port (dst_host d) (show_nat port), rest)"
proof -
  have "unat (word_of_nat (length methods) :: byte) = length methods"
    using assms(1) by (simp add: unat_of_nat take_bit_nat_eq_self)
  then show ?thesis
    using parse_dst_encoded [OF assms(2,3), of rest]
    by (simp add: front_spec_def front_request_def encode_greeting_def encode_request_def)
qed

section \<open>The pipe\<close>

lemma halfClose_simps [simp]:
  "outq (halfClose c) = outq c" "inq (halfClose c) = inq c" "wq (halfClose c) = wq c"
  by (simp_all add: halfClose_def conn_close_def)

text \<open>One direction: what was buffered, then the stream, all of it to a destination that takes every write.\<close>

lemma pipe_half_all:
  assumes "writable dst"
  shows "pipe_half buf src dst =
    (src\<lparr>inq := (if closed src then inq src else [])\<rparr>, halfClose (dst\<lparr>outq := outq dst @ buf @ stream src\<rparr>))"
  using assms by (simp add: pipe_half_def copy_loop_all Let_def)

text \<open>A destination that is closed gets nothing.\<close>

lemma conn_write_closed: "closed c \<Longrightarrow> conn_write b c = (False, c)"
  by (simp add: conn_write_def)

lemma copy_loop_closed:
  assumes "closed dst"
  shows "fst (snd (copy_loop n src dst w)) = dst"
  using assms by (induction src dst w rule: copy_loop_cases [of n])
    (simp_all add: copy_loop_stop copy_loop_skip copy_loop_failed conn_write_closed)

lemma pipe_half_closed:
  assumes "closed dst"
  shows "snd (pipe_half buf src dst) = halfClose dst" "\<exists>q. fst (pipe_half buf src dst) = src\<lparr>inq := q\<rparr>"
proof -
  obtain s d k where c: "copy_loop 65536 src dst 0 = (s, d, k)" by (metis prod_cases3)
  have "d = dst" using copy_loop_closed [OF assms, of 65536 src 0] c by simp
  moreover have "s = src\<lparr>inq := inq s\<rparr>" using copy_loop_frame [of 65536 src dst 0] c by simp
  ultimately show "snd (pipe_half buf src dst) = halfClose dst" "\<exists>q. fst (pipe_half buf src dst) = src\<lparr>inq := q\<rparr>"
    using c by (auto simp: pipe_half_def conn_write_closed [OF assms] intro: exI [of _ "inq src"])
qed

lemma pipe_open:
  assumes "writable a" and "writable b" and "is_tcp b"
  shows "outq (fst (pipe buf a b)) = outq a @ stream b" "outq (snd (pipe buf a b)) = outq b @ buf @ stream a"
proof -
  define b1 where "b1 = halfClose (b\<lparr>outq := outq b @ buf @ stream a\<rparr>)"
  have h: "pipe_half buf a b = (a\<lparr>inq := []\<rparr>, b1)"
    using assms by (simp add: pipe_half_all writable_def b1_def)
  have "stream b1 = stream b" using assms(3) by (simp add: b1_def halfClose_def stream_def)
  then show "outq (fst (pipe buf a b)) = outq a @ stream b" "outq (snd (pipe buf a b)) = outq b @ buf @ stream a"
    using assms(1) by (simp_all add: pipe_def h pipe_half_all b1_def)
qed

lemma pipe_closed:
  assumes "closed b"
  shows "outq (fst (pipe buf a b)) = outq a" "outq (snd (pipe buf a b)) = outq b"
proof -
  obtain q where "fst (pipe_half buf a b) = a\<lparr>inq := q\<rparr>" using pipe_half_closed(2) [OF assms] by blast
  then have h: "pipe_half buf a b = (a\<lparr>inq := q\<rparr>, halfClose b)"
    using pipe_half_closed(1) [OF assms] by (metis prod.collapse)
  have "closed (halfClose b)" using assms by (simp add: halfClose_def conn_close_def)
  then have "copy_loop n (halfClose b) dst w = (halfClose b, dst, w)" for n dst w
    by (simp add: copy_loop_stop conn_read_def)
  then have "pipe_half [] (halfClose b) (a\<lparr>inq := q\<rparr>) = (halfClose b, halfClose (a\<lparr>inq := q\<rparr>))"
    by (simp add: pipe_half_def)
  then have "pipe buf a b = (halfClose (a\<lparr>inq := q\<rparr>), halfClose b)" by (simp add: pipe_def h)
  then show "outq (fst (pipe buf a b)) = outq a" "outq (snd (pipe buf a b)) = outq b" by simp_all
qed

section \<open>The hand-over of a data connection\<close>

lemma run_at: "at_pc i p s \<Longrightarrow> relay_step (RRun i) s = relay_pc i p s"
  by (auto simp: at_pc_def)

lemma at_pc_goto: "at_pc i p (goto j q s) \<longleftrightarrow> (if i = j then i < length (rl_threads s) \<and> p = q else at_pc i p s)"
  by (auto simp: at_pc_def goto_def nth_list_update)

lemma at_pc_frame [simp]:
  "at_pc i p (s\<lparr>rl_chans := cs\<rparr>) = at_pc i p s" "at_pc i p (s\<lparr>rl_wait := w\<rparr>) = at_pc i p s"
  "at_pc i p (take_chan ch s) = at_pc i p s"
  by (simp_all add: at_pc_def)

lemma th_buf_frame [simp]:
  "th_buf (rl_threads (goto j q s) ! i) = th_buf (rl_threads s ! i)"
  by (cases "i = j \<and> i < length (rl_threads s)") (auto simp: goto_def nth_list_update list_update_beyond)

lemma at_pc_threads: "at_pc i p s \<Longrightarrow> i < length (rl_threads s)"
  by (simp add: at_pc_def)

lemma write_to_frame [simp]:
  "closed (write_to b c) = closed c" "stream (write_to b c) = stream c"
  "writable c \<Longrightarrow> outq (write_to b c) = outq c @ b" "writable c \<Longrightarrow> writable (write_to b c)"
  by (simp_all add: write_to_def)

lemma handover_run:
  assumes l: "length (rl_conns s) = length (rl_threads s)" and ch: "ch < length (rl_chans s)"
    and i: "at_pc i (AwaitSocks cid ch) s" and d: "at_pc d (HandOver ch) s"
  defines "ci \<equiv> write_to (reply_code 0) (rl_conns s ! i)" and "cd \<equiv> rl_conns s ! d"
  shows "let s' = relay_run [RRun d, RRun i, RRun i, RRun d] s; r = pipe (th_buf (rl_threads s ! i)) ci cd in
      rl_conns s' ! i = fst r \<and> rl_conns s' ! d = conn_close (snd r)"
    and "let s' = relay_run [RRun d, RRun d, RRun i, RRun i] s; r = pipe (th_buf (rl_threads s ! i)) ci (conn_close cd) in
      rl_conns s' ! i = fst r \<and> rl_conns s' ! d = snd r"
proof -
  have ne: "i \<noteq> d" using i d by (auto simp: at_pc_def)
  have il: "i < length (rl_conns s)" "d < length (rl_conns s)" using l i d by (simp_all add: at_pc_def)
  have tl: "i < length (rl_threads s)" "d < length (rl_threads s)" using i d by (simp_all add: at_pc_def)
  note S = run_at at_pc_goto at_pc_threads
  define s1 where "s1 = goto d Returning (s\<lparr>rl_chans := (rl_chans s)[ch := Some d]\<rparr>)"
  have 1: "relay_step (RRun d) s = s1" using d by (subst run_at [OF d]) (simp add: s1_def)
  have at1: "at_pc i (AwaitSocks cid ch) s1" "at_pc d Returning s1"
    using i tl ne by (simp_all add: s1_def at_pc_goto)
  have c1: "rl_chans s1 ! ch = Some d" "rl_conns s1 = rl_conns s" "th_buf (rl_threads s1 ! i) = th_buf (rl_threads s ! i)"
    using ch by (simp_all add: s1_def)
  have tl1: "i < length (rl_threads s1)" "d < length (rl_threads s1)" using at1 by (simp_all add: at_pc_def)
  define s2 where "s2 = goto i (Piping d) (on_conn i (write_to (reply_code 0)) (take_chan ch s1))"
  have 2: "relay_step (RRun i) s1 = s2" by (subst run_at [OF at1(1)]) (simp add: s2_def c1)
  have at2: "at_pc i (Piping d) s2" "at_pc d Returning s2" using at1 tl1 ne by (simp_all add: s2_def at_pc_goto)
  have c2: "rl_conns s2 ! i = ci" "rl_conns s2 ! d = cd" "th_buf (rl_threads s2 ! i) = th_buf (rl_threads s ! i)"
    "length (rl_conns s2) = length (rl_conns s)"
    using ne il by (simp_all add: s2_def c1 ci_def cd_def)
  obtain a b where p: "pipe (th_buf (rl_threads s ! i)) ci cd = (a, b)" by fastforce
  define s3 where "s3 = goto i Returning (on_conn i (\<lambda>_. a) (on_conn d (\<lambda>_. b) s2))"
  have 3: "relay_step (RRun i) s2 = s3" by (subst run_at [OF at2(1)]) (simp add: s3_def c2 p)
  have at3: "at_pc d Returning s3" using at2 ne by (simp add: s3_def at_pc_goto)
  have "relay_run [RRun d, RRun i, RRun i, RRun d] s = goto d Ended (on_conn d conn_close s3)"
    by (simp only: relay_run_simps 1 2 3 run_at [OF at3] relay_pc.simps)
  then show "let s' = relay_run [RRun d, RRun i, RRun i, RRun d] s; r = pipe (th_buf (rl_threads s ! i)) ci cd in
      rl_conns s' ! i = fst r \<and> rl_conns s' ! d = conn_close (snd r)"
    using ne il by (simp add: p s3_def c2)
  define t2 where "t2 = goto d Ended (on_conn d conn_close s1)"
  have 4: "relay_step (RRun d) s1 = t2" by (subst run_at [OF at1(2)]) (simp add: t2_def)
  have at4: "at_pc i (AwaitSocks cid ch) t2" using at1 ne by (simp add: t2_def at_pc_goto)
  define t3 where "t3 = goto i (Piping d) (on_conn i (write_to (reply_code 0)) (take_chan ch t2))"
  have 5: "relay_step (RRun i) t2 = t3" by (subst run_at [OF at4]) (simp add: t3_def t2_def c1)
  have at5: "at_pc i (Piping d) t3" using at_pc_threads [OF at4] by (simp add: t3_def at_pc_goto)
  have c5: "rl_conns t3 ! i = ci" "rl_conns t3 ! d = conn_close cd" "th_buf (rl_threads t3 ! i) = th_buf (rl_threads s ! i)"
    "length (rl_conns t3) = length (rl_conns s)"
    using ne il by (simp_all add: t3_def t2_def c1 ci_def cd_def)
  obtain a' b' where q: "pipe (th_buf (rl_threads s ! i)) ci (conn_close cd) = (a', b')" by fastforce
  have "relay_run [RRun d, RRun d, RRun i, RRun i] s = goto i Returning (on_conn i (\<lambda>_. a') (on_conn d (\<lambda>_. b') t3))"
    by (simp only: relay_run_simps 1 4 5 run_at [OF at5] relay_pc.simps c5 q Let_def prod.case)
  then show "let s' = relay_run [RRun d, RRun d, RRun i, RRun i] s; r = pipe (th_buf (rl_threads s ! i)) ci (conn_close cd) in
      rl_conns s' ! i = fst r \<and> rl_conns s' ! d = snd r"
    using ne il by (simp add: q c5)
qed

section \<open>Threads end\<close>

text \<open>How many steps a thread has left at most.\<close>

fun rank :: "pc \<Rightarrow> nat" where
  "rank Fresh = 8"
| "rank (Announce _) = 3"
| "rank (Listening _) = 2"
| "rank (Knocking _ _) = 4"
| "rank (AwaitData _) = 3"
| "rank (HandOver _) = 2"
| "rank (Targeted _) = 7"
| "rank (Chosen _ _) = 6"
| "rank (Noted _ _ _ _) = 5"
| "rank (Telling _ _ _ _) = 4"
| "rank (AwaitSocks _ _) = 3"
| "rank (Piping _) = 2"
| "rank Returning = 1"
| "rank Ended = 0"

definition waiting :: "pc \<Rightarrow> bool" where
  "waiting p \<longleftrightarrow> (case p of AwaitData _ \<Rightarrow> True | AwaitSocks _ _ \<Rightarrow> True | _ \<Rightarrow> False)"

definition rank_at :: "nat \<Rightarrow> relay_state \<Rightarrow> nat" where
  "rank_at i s = rank (th_pc (rl_threads s ! i))"

lemma rank_goto:
  "i < length (rl_threads s) \<Longrightarrow> rank_at i (goto i p s) = rank p"
  "j \<noteq> i \<Longrightarrow> rank_at i (goto j p s) = rank_at i s"
  by (simp_all add: rank_at_def goto_def)

lemma rank_frame [simp]:
  "rank_at i (on_conn j f s) = rank_at i s" "rank_at i (new_chan k s) = rank_at i s"
  "rank_at i (take_chan ch s) = rank_at i s" "rank_at i (s\<lparr>rl_wait := w\<rparr>) = rank_at i s"
  "rank_at i (s\<lparr>rl_chans := cs\<rparr>) = rank_at i s" "rank_at i (s\<lparr>rl_cid := n\<rparr>) = rank_at i s"
  "rank_at i (s\<lparr>rl_ctrl := m\<rparr>) = rank_at i s" "rank_at i (s\<lparr>rl_last := l\<rparr>) = rank_at i s"
  "rank_at i (s\<lparr>rl_next := n\<rparr>) = rank_at i s"
  by (simp_all add: rank_at_def)

lemma threads_line [simp]: "length (rl_threads (relay_line i line rest s)) = length (rl_threads s)"
  by (simp add: relay_line_def Let_def split: option.split)

lemma threads_fresh [simp]: "length (rl_threads (relay_fresh i s)) = length (rl_threads s)"
  by (simp add: relay_fresh_def Let_def split: option.split sum.split prod.split)

lemma threads_pc [simp]: "length (rl_threads (relay_pc i p s)) = length (rl_threads s)"
  by (cases p) (simp_all add: relay_leave_def relay_refuse_def Let_def split: option.split prod.split)

lemma threads_step: "length (rl_threads s) \<le> length (rl_threads (relay_step e s))"
  by (cases e) (simp_all add: relay_refuse_def split: pc.split)

text \<open>A thread changes its own point only, and its own connection up to writes and pipes.\<close>

lemma rank_line:
  assumes "i < length (rl_threads s)"
  shows "rank_at i (relay_line i line rest s) < 8" "j \<noteq> i \<Longrightarrow> rank_at j (relay_line i line rest s) = rank_at j s"
proof -
  have k: "rank_at i (t\<lparr>rl_threads := ts[i := \<lparr>th_pc = Knocking w ch, th_buf = rest\<rparr>]\<rparr>) = 4"
    if "i < length ts" for t ts w ch using that by (simp add: rank_at_def)
  have k': "j \<noteq> i \<Longrightarrow> rank_at j (t\<lparr>rl_threads := (rl_threads s)[i := x]\<rparr>) = rank_at j s" for t x
    by (simp add: rank_at_def)
  show "rank_at i (relay_line i line rest s) < 8"
    using assms by (simp add: relay_line_def Let_def rank_goto k split: option.split)
  show "rank_at j (relay_line i line rest s) = rank_at j s" if "j \<noteq> i"
    using assms that by (simp add: relay_line_def Let_def rank_goto k' split: option.split)
qed

lemma rank_fresh:
  assumes "i < length (rl_threads s)"
  shows "rank_at i (relay_fresh i s) < 8" "j \<noteq> i \<Longrightarrow> rank_at j (relay_fresh i s) = rank_at j s"
  using assms rank_line [of i "on_conn i f s" for f]
  by (simp_all add: relay_fresh_def Let_def rank_goto split: option.split sum.split prod.split)

lemma rank_pc_other: "i < length (rl_threads s) \<Longrightarrow> j \<noteq> i \<Longrightarrow> rank_at j (relay_pc i p s) = rank_at j s"
  by (cases p)
    (simp_all add: rank_fresh rank_goto relay_leave_def relay_refuse_def Let_def split: option.split prod.split)

lemma rank_pc_own:
  assumes "at_pc i p s"
  shows "rank_at i (relay_pc i p s) < rank p \<or> p = Ended \<or> waiting p \<and> relay_pc i p s = s"
  using at_pc_threads [OF assms]
  by (cases p)
    (simp_all add: rank_fresh rank_goto relay_leave_def relay_refuse_def waiting_def Let_def split: option.split prod.split)

lemma rank_step: "i < length (rl_threads s) \<Longrightarrow> rank_at i (relay_step e s) \<le> rank_at i s"
proof (cases e)
  case (RAccept c)
  assume "i < length (rl_threads s)"
  then show ?thesis by (simp add: RAccept rank_at_def nth_append)
next
  case (RRun j)
  assume i: "i < length (rl_threads s)"
  show ?thesis
  proof (cases "j < length (rl_threads s)")
    case True
    then have "at_pc j (th_pc (rl_threads s ! j)) s" by (simp add: at_pc_def)
    from rank_pc_own [OF this] rank_pc_other [OF True] True show ?thesis
      by (cases "i = j") (auto simp: RRun rank_at_def)
  qed (simp add: RRun)
next
  case (RTimeout j)
  assume i: "i < length (rl_threads s)"
  then have "rank_at i (goto j Returning t) \<le> rank_at i s" if "rl_threads t = rl_threads s"
    "rank (th_pc (rl_threads s ! j)) = 3" for t
    using that by (cases "i = j") (simp_all add: rank_at_def goto_def)
  then show ?thesis using i by (simp add: RTimeout relay_refuse_def split: pc.split)
qed

lemma rank_run: "i < length (rl_threads s) \<Longrightarrow> i < length (rl_threads (relay_run es s)) \<and> rank_at i (relay_run es s) \<le> rank_at i s"
proof (induction es arbitrary: s)
  case (Cons e es)
  then have "i < length (rl_threads (relay_step e s))" using threads_step [of s e] by simp
  from Cons.IH [OF this] rank_step [OF Cons.prems, of e] show ?case by simp
qed simp

text \<open>A turn of the thread and the end of its patience bring it closer to its end.\<close>

lemma rank_round:
  assumes i: "i < length (rl_threads s)"
  shows "rank_at i (relay_run [RRun i, RTimeout i] s) \<le> rank_at i s - 1"
proof -
  let ?p = "th_pc (rl_threads s ! i)" and ?s = "relay_step (RRun i) s"
  have at: "at_pc i ?p s" using i by (simp add: at_pc_def)
  have i': "i < length (rl_threads ?s)" using threads_step [of s "RRun i"] i by simp
  from rank_pc_own [OF at] consider "rank_at i ?s < rank ?p" | "?p = Ended" | "waiting ?p" "?s = s"
    using run_at [OF at] by auto
  then show ?thesis
  proof cases
    case 1
    with rank_step [OF i', of "RTimeout i"] show ?thesis by (simp add: rank_at_def [of i s])
  next
    case 2
    with rank_run [OF i, of "[RRun i, RTimeout i]"] show ?thesis by (simp add: rank_at_def [of i s])
  next
    case 3
    then have "rank_at i (relay_step (RTimeout i) s) = 1" "rank_at i s = 3"
      using i by (auto simp: waiting_def relay_refuse_def rank_goto rank_at_def [of i s] split: pc.splits)
    with 3 show ?thesis by simp
  qed
qed

lemma rank_rounds:
  assumes "i < length (rl_threads s)"
  shows "rank_at i (relay_run (concat (map (\<lambda>es. es @ [RRun i, RTimeout i]) rounds)) s) \<le> rank_at i s - length rounds"
  using assms
proof (induction rounds arbitrary: s)
  case (Cons es rounds)
  let ?t = "relay_run es s" and ?u = "relay_run [RRun i, RTimeout i] (relay_run es s)"
  note a = rank_run [OF Cons.prems, of es]
  then have b: "rank_at i ?u \<le> rank_at i ?t - 1" by (intro rank_round) simp
  have "i < length (rl_threads ?u)" using rank_run [of i ?t "[RRun i, RTimeout i]"] a by blast
  from Cons.IH [OF this] a b
  have "rank_at i (relay_run (concat (map (\<lambda>es. es @ [RRun i, RTimeout i]) rounds)) ?u) \<le> rank_at i s - length (es # rounds)"
    by (simp only: list.size(4)) linarith
  then show ?case by (simp add: relay_run_def)
qed simp

lemma pipe_second_closed:
  assumes "closed b"
  shows "closed (snd (pipe buf a b))"
proof -
  obtain a1 b1 where 1: "pipe_half buf a b = (a1, b1)" by fastforce
  obtain b2 a2 where 2: "pipe_half [] b1 a1 = (b2, a2)" by fastforce
  have "closed b1"
    using pipe_half_closed(1) [OF assms, of buf a] 1 assms by (simp add: halfClose_def conn_close_def)
  then have "b2 = b1" using 2 by (simp add: pipe_half_def copy_loop_stop conn_read_def)
  with 1 2 \<open>closed b1\<close> show ?thesis by (simp add: pipe_def)
qed

text \<open>Nobody opens a closed connection again: other threads only write to it or pipe it.\<close>

lemma closed_other:
  assumes "closed (rl_conns s ! j)" and "j \<noteq> i"
  shows "closed (rl_conns (relay_pc i p s) ! j)"
proof -
  have own: "rl_conns (relay_line i line rest t) ! j = rl_conns t ! j" for line rest t
    using assms(2) by (simp add: relay_line_def Let_def split: option.split)
  then have fresh: "rl_conns (relay_fresh i s) ! j = rl_conns s ! j"
    using assms(2) by (simp add: relay_fresh_def Let_def split: option.split sum.split prod.split)
  have upd: "closed (xs[k := x] ! j)" if "closed (xs ! j)" "k = j \<Longrightarrow> closed x" for xs k and x :: conn
    using that by (cases "k = j"; cases "k < length xs") (auto simp: list_update_beyond)
  show ?thesis
  proof (cases p)
    case Fresh
    with fresh assms show ?thesis by simp
  next
    case (Knocking w ch)
    with assms show ?thesis by (auto split: option.split intro!: upd)
  next
    case (Telling cid ch sc target)
    obtain ok x where w: "conn_write (ctrl_message cid target) (rl_conns s ! sc) = (ok, x)" by fastforce
    have "closed x" if "sc = j"
      using assms(1) that conn_write_frame(4) [of "ctrl_message cid target" "rl_conns s ! sc", unfolded w] by simp
    with assms(1) have "closed ((rl_conns s)[sc := x] ! j)" by (rule upd)
    with assms(2) w show ?thesis by (simp add: Telling relay_refuse_def Let_def)
  next
    case (Piping d)
    obtain a b where r: "pipe (th_buf (rl_threads s ! i)) (rl_conns s ! i) (rl_conns s ! d) = (a, b)" by fastforce
    have "closed b" if "d = j" using assms(1) that r pipe_second_closed by (metis snd_conv)
    with assms(1) have "closed ((rl_conns s)[d := b] ! j)" by (rule upd)
    with assms(2) r show ?thesis by (simp add: Piping)
  qed (use assms in \<open>auto simp: relay_leave_def relay_refuse_def Let_def split: option.split prod.split\<close>)
qed

definition ended_closed :: "relay_state \<Rightarrow> bool" where
  "ended_closed s \<longleftrightarrow> length (rl_conns s) = length (rl_threads s) \<and> (\<forall>i. at_pc i Ended s \<longrightarrow> closed (rl_conns s ! i))"

lemma at_pc_same: "at_pc i p s \<Longrightarrow> at_pc i q s \<longleftrightarrow> q = p"
  by (auto simp: at_pc_def)

lemma conns_line [simp]: "length (rl_conns (relay_line i line rest s)) = length (rl_conns s)"
  by (simp add: relay_line_def Let_def split: option.split)

lemma conns_fresh [simp]: "length (rl_conns (relay_fresh i s)) = length (rl_conns s)"
  by (simp add: relay_fresh_def Let_def split: option.split sum.split prod.split)

lemma conns_pc [simp]: "length (rl_conns (relay_pc i p s)) = length (rl_conns s)"
  by (cases p) (simp_all add: relay_leave_def relay_refuse_def Let_def split: option.split prod.split)

lemma own_close:
  assumes "at_pc i p s" and "length (rl_conns s) = length (rl_threads s)" and "p = Ended \<longrightarrow> closed (rl_conns s ! i)"
  shows "at_pc i Ended (relay_pc i p s) \<longrightarrow> closed (rl_conns (relay_pc i p s) ! i)"
proof -
  have i: "i < length (rl_threads s)" "i < length (rl_conns s)" using assms by (simp_all add: at_pc_def)
  have line: "\<not> at_pc i Ended (relay_line i line rest t)" if "i < length (rl_threads t)" for line rest t
    using that by (simp add: relay_line_def Let_def at_pc_goto at_pc_def [of i Ended "_\<lparr>rl_threads := _\<rparr>"] split: option.split)
  have fresh: "\<not> at_pc i Ended (relay_fresh i s)"
    using i line by (simp add: relay_fresh_def Let_def at_pc_goto split: option.split sum.split prod.split)
  note same = at_pc_same [OF assms(1)]
  show ?thesis
    using assms(2,3) i fresh same
    by (cases p)
      (simp_all add: at_pc_goto relay_leave_def relay_refuse_def Let_def conn_close_def split: option.split prod.split)
qed

lemma ended_closed_step:
  assumes "ended_closed s"
  shows "ended_closed (relay_step e s)"
proof (cases e)
  case (RAccept c)
  with assms show ?thesis by (auto simp: ended_closed_def at_pc_def nth_append less_Suc_eq)
next
  case (RRun i)
  show ?thesis
  proof (cases "i < length (rl_threads s)")
    case True
    let ?p = "th_pc (rl_threads s ! i)" and ?t = "relay_pc i (th_pc (rl_threads s ! i)) s"
    have at: "at_pc i ?p s" using True by (simp add: at_pc_def)
    have "closed (rl_conns ?t ! j)" if "at_pc j Ended ?t" for j
    proof (cases "j = i")
      case True
      have "length (rl_conns s) = length (rl_threads s)" "?p = Ended \<longrightarrow> closed (rl_conns s ! i)"
        using assms at by (auto simp: ended_closed_def)
      with own_close [OF at] that True show ?thesis by simp
    next
      case False
      then have "rank_at j ?t = rank_at j s" using rank_pc_other True by simp
      then have "at_pc j Ended s" using that by (cases "th_pc (rl_threads s ! j)") (simp_all add: rank_at_def at_pc_def)
      then show ?thesis using assms False closed_other by (simp add: ended_closed_def)
    qed
    moreover have "length (rl_conns ?t) = length (rl_threads ?t)" using assms by (simp add: ended_closed_def)
    ultimately show ?thesis using True by (simp add: RRun ended_closed_def)
  qed (simp add: RRun assms)
next
  case (RTimeout i)
  with assms show ?thesis
    by (auto simp: ended_closed_def relay_refuse_def at_pc_goto nth_list_update split: pc.splits)
qed

interpretation closed_inv: step_invariant relay_step ended_closed
  by unfold_locales (rule ended_closed_step)

lemma ended_closed_run: "ended_closed s \<Longrightarrow> ended_closed (relay_run evs s)"
  unfolding relay_run_def by (rule closed_inv.run_inv)

lemma ended_closed_init: "ended_closed relay_init"
  by (simp add: ended_closed_def relay_init_def at_pc_def)

lemma handover_outputs:
  assumes "s = relay_run evs relay_init" and "at_pc i (AwaitSocks cid ch) s" and "at_pc d (HandOver ch) s"
    and "writable (rl_conns s ! i)" and "writable (rl_conns s ! d)" and "is_tcp (rl_conns s ! d)"
  shows "let a = relay_run [RRun d, RRun i, RRun i, RRun d] s; b = relay_run [RRun d, RRun d, RRun i, RRun i] s in
    outq (rl_conns a ! i) = outq (rl_conns s ! i) @ reply_code 0 @ stream (rl_conns s ! d) \<and>
    outq (rl_conns a ! d) = outq (rl_conns s ! d) @ th_buf (rl_threads s ! i) @ stream (rl_conns s ! i) \<and>
    outq (rl_conns b ! i) = outq (rl_conns s ! i) @ reply_code 0 \<and>
    outq (rl_conns b ! d) = outq (rl_conns s ! d)"
proof -
  let ?ci = "write_to (reply_code 0) (rl_conns s ! i)" and ?cd = "rl_conns s ! d" and ?b = "th_buf (rl_threads s ! i)"
  have ok: "relay_ok s" using relay_reachable_ok assms(1) by blast
  then have l: "length (rl_conns s) = length (rl_threads s)" by (simp add: relay_ok_def)
  have "Sends ch \<in> set (roles s)"
    using at_pcD [OF assms(3)] nth_mem [of d "roles s"] by simp
  then have ch: "ch < length (rl_chans s)" using ok chan_okD(4) unfolding relay_ok_def by blast
  note H = handover_run [OF l ch assms(2,3)]
  have "closed (conn_close ?cd)" by simp
  note C = pipe_closed [OF this, of ?b ?ci]
  have w: "writable ?ci" "outq ?ci = outq (rl_conns s ! i) @ reply_code 0" "stream ?ci = stream (rl_conns s ! i)"
    using assms(4) by simp_all
  note O = pipe_open [OF w(1) assms(5,6), of ?b]
  show ?thesis using H O C w by (simp add: Let_def)
qed

section \<open>Properties\<close>

text \<open>
  C19. The SOCKS5 front of the relay server refines a function of the client's whole input,
  however it is segmented, on every branch: what it answers before it gives up, or the target it
  will ask the phone for, with the rest of the input left for the pipe and the deadline lifted.
  Unlike the SOCKS5 server it joins IPv6 addresses in brackets.
\<close>

theorem relay_front_exact:
  assumes "writable c"
  shows "case relay_front c of
      Inl c' \<Rightarrow> \<exists>w. front_spec (stream c) = Inl w \<and> outq c' = outq c @ w
    | Inr (t, c') \<Rightarrow> \<exists>rest. front_spec (stream c) = Inr (t, rest) \<and> outq c' = outq c @ no_auth \<and>
        stream c' = rest \<and> writable c' \<and> deadline c' = None"
  using assms by (rule relay_front_refines)

theorem relay_front_exact_witness:
  "\<exists>c. relay_front (fresh_conn [[5], [1, 0, 5, 2], [0, 1]] []) = Inl c \<and> outq c = no_auth @ reply_code 7"
proof -
  have "front_spec (stream (fresh_conn [[5], [1, 0, 5, 2], [0, 1]] [])) = Inl (no_auth @ reply_code 7)"
    by code_simp
  with relay_front_exact [of "fresh_conn [[5], [1, 0, 5, 2], [0, 1]] []"]
  show ?thesis by (auto split: sum.splits)
qed

text \<open>
  C20. What reaches a SOCKS5 client depends on the scheduler. A thread that handles \<^verbatim>\<open>data:\<close>
  returns once it has sent its connection over the channel, and \<^verbatim>\<open>safeHandle\<close> then closes that
  connection. If the waiting thread runs its pipe first, both sides get everything the other sent;
  if the \<^verbatim>\<open>data:\<close> thread goes on first, the client is told that it is connected and gets nothing,
  and the phone gets nothing.
\<close>

theorem relay_data_race:
  assumes "s = relay_run evs relay_init" and "at_pc i (AwaitSocks cid ch) s" and "at_pc d (HandOver ch) s"
    and "writable (rl_conns s ! i)" and "writable (rl_conns s ! d)" and "is_tcp (rl_conns s ! d)"
  shows "let a = relay_run [RRun d, RRun i, RRun i, RRun d] s; b = relay_run [RRun d, RRun d, RRun i, RRun i] s in
    outq (rl_conns a ! i) = outq (rl_conns s ! i) @ reply_code 0 @ stream (rl_conns s ! d) \<and>
    outq (rl_conns a ! d) = outq (rl_conns s ! d) @ th_buf (rl_threads s ! i) @ stream (rl_conns s ! i) \<and>
    outq (rl_conns b ! i) = outq (rl_conns s ! i) @ reply_code 0 \<and>
    outq (rl_conns b ! d) = outq (rl_conns s ! d)"
  using assms by (rule handover_outputs)

definition sample_client :: conn where
  "sample_client = fresh_conn [[5, 0, 5, 1], [0, 3, 1, 97, 0, 80], [9]] []"

text \<open>A phone registers, a client asks for \<^verbatim>\<open>a:80\<close>, and the phone's data connection is there.\<close>

definition sample_meeting :: "relay_event list" where
  "sample_meeting = [RAccept (fresh_conn [line_of ''register''] []), RRun 0, RRun 0,
     RAccept sample_client, RRun 1, RRun 1, RRun 1, RRun 1, RRun 1,
     RAccept (fresh_conn [line_of ''data:c1'', [7]] []), RRun 2]"

lemma sample_front:
  "relay_front (set_deadline (Some 15) sample_client) =
    Inr (''a:80'', (fresh_conn [[9]] [])\<lparr>outq := no_auth\<rparr>)"
  by code_simp

lemma sample_client_fresh:
  "rl_conns s ! i = sample_client \<Longrightarrow>
    relay_fresh i s = goto i (Targeted ''a:80'') (on_conn i (\<lambda>_. (fresh_conn [[9]] [])\<lparr>outq := no_auth\<rparr>) s)"
proof -
  assume c: "rl_conns s ! i = sample_client"
  have "peek_byte (set_deadline (Some 15) sample_client) = Some 5"
    by (simp add: peek_byte_def sample_client_def)
  then show ?thesis by (simp add: relay_fresh_def c sample_front Let_def)
qed

lemma sample_ids: "phone_id (Suc 0) = ''p1''" "client_id (Suc 0) = ''c1''"
  by code_simp+

lemma sample_meeting_run:
  "let s = relay_run sample_meeting relay_init in
   at_pc 1 (AwaitSocks ''c1'' 0) s \<and> at_pc 2 (HandOver 0) s \<and> th_buf (rl_threads s ! 1) = [] \<and>
   rl_conns s ! 1 = (fresh_conn [[9]] [])\<lparr>outq := no_auth\<rparr> \<and>
   rl_conns s ! 2 = (fresh_conn [[7]] [])\<lparr>outq := line_ready\<rparr>"
  by (simp add: sample_meeting_def relay_init_def relay_fresh_line sample_client_fresh relay_line_def on_conn_def goto_def
      new_chan_def has_prefix_def Let_def sample_ids at_pc_def write_to_def set_deadline_def fresh_conn_def conn_write_def
      remove_key_def)

theorem relay_data_race_witness:
  "let s = relay_run sample_meeting relay_init; b = relay_run [RRun 2, RRun 2, RRun 1, RRun 1] s;
       a = relay_run [RRun 2, RRun 1, RRun 1, RRun 2] s in
    outq (rl_conns a ! 1) = no_auth @ reply_code 0 @ [7] \<and> outq (rl_conns b ! 1) = no_auth @ reply_code 0"
  using relay_data_race [OF refl, of 1 "''c1''" 0 sample_meeting 2] sample_meeting_run
  by (simp add: Let_def fresh_conn_def writable_def stream_def del: relay_run_simps)

text \<open>
  C24. Every goroutine of the relay server ends and closes its connection, whatever the others do: after
  eight turns, each followed by the end of its waiting time and with any events in between,
  it has returned.  (A turn in which it reads or pipes is taken to end, as the peers' scripts do.)
\<close>

theorem relay_thread_ends:
  assumes "i < length (rl_threads s)" and "s = relay_run evs relay_init" and "8 \<le> length rounds"
  shows "let s' = relay_run (concat (map (\<lambda>es. es @ [RRun i, RTimeout i]) rounds)) s in
    th_pc (rl_threads s' ! i) = Ended \<and> closed (rl_conns s' ! i)"
proof -
  let ?es = "concat (map (\<lambda>es. es @ [RRun i, RTimeout i]) rounds)"
  let ?s' = "relay_run ?es s"
  have "rank p \<le> 8" for p by (cases p) simp_all
  then have "rank_at i s \<le> 8" by (simp add: rank_at_def)
  then have "rank_at i ?s' = 0" using rank_rounds [OF assms(1), of rounds] assms(3) by linarith
  then have e: "th_pc (rl_threads ?s' ! i) = Ended"
    by (cases "th_pc (rl_threads ?s' ! i)") (simp_all add: rank_at_def)
  moreover have "i < length (rl_threads ?s')" using rank_run [OF assms(1)] by blast
  moreover have "ended_closed ?s'" using ended_closed_run [OF ended_closed_run [OF ended_closed_init]] assms(2) by blast
  ultimately show ?thesis by (simp add: ended_closed_def at_pc_def)
qed

theorem relay_thread_ends_witness:
  "th_pc (rl_threads (relay_run (concat (replicate 8 [RRun 0, RTimeout 0])) (relay_run [RAccept (fresh_conn [] [])] relay_init)) ! 0) = Ended"
  using relay_thread_ends [of 0 "relay_run [RAccept (fresh_conn [] [])] relay_init" "[RAccept (fresh_conn [] [])]" "replicate 8 []"]
  by (simp add: relay_init_def Let_def)

end
