(* ===== verification/Relay_Client.thy ===== *)
theory Relay_Client
  imports Relay_Sessions
begin

text \<open>
  \<^verbatim>\<open>internal/tunnel/relay.go\<close>: the phone's side of the relay.  It registers, reads commands from the
  control connection, and answers each with a data connection to the relay that it joins to the
  target of the command, or to its own SOCKS5 server.  Readers of \<^verbatim>\<open>bufio.NewReader\<close> have 4096
  bytes; keep-alive and no-delay options are left out.
\<close>

section \<open>Registering\<close>

definition relayHost :: "string \<Rightarrow> string" where
  "relayHost addr =
     (case last_index addr '':'' of
        None \<Rightarrow> addr
      | Some idx \<Rightarrow> if 0 < idx then take idx addr else addr)"

definition relay_addr :: "string \<Rightarrow> string" where
  "relay_addr a = (if \<not> str_contains a '':'' then a @ '':7800'' else a)"

datatype registration =
    NoRelay                               \<comment> \<open>\<open>connect relay\<close>\<close>
  | NotSent conn                          \<comment> \<open>\<open>register\<close>, the connection closed\<close>
  | NoAnswer conn                         \<comment> \<open>\<open>read id\<close>\<close>
  | BadResponse string conn               \<comment> \<open>\<open>bad response\<close>\<close>
  | Registered string string "byte list" conn \<comment> \<open>id, the URL set, what is buffered, the connection\<close>

definition StartRelayTunnel :: "network \<Rightarrow> string \<Rightarrow> registration" where
  "StartRelayTunnel net relayAddr =
     (let relayAddr = relay_addr relayAddr in
      case dial net relayAddr of
        None \<Rightarrow> NoRelay
      | Some t \<Rightarrow>
          (let (ok, c) = conn_write (line_of ''register'') (t_conn t) in
           if \<not> ok then NotSent (conn_close c)
           else case bufio_line 4096 [] [] c of
                  None \<Rightarrow> NoAnswer (conn_close c)
                | Some (l, rest, c) \<Rightarrow>
                    (let resp = trim_space (str_of l) in
                     if \<not> has_prefix resp ''id:'' then BadResponse resp (conn_close c)
                     else Registered (drop 3 resp)
                       (relayHost relayAddr @ '' (relay '' @ drop 3 resp @ '')'') rest c)))"

section \<open>Commands\<close>

datatype command = DialTarget string string | DialLocal

definition control_command :: "string \<Rightarrow> command option" where
  "control_command l =
     (let line = trim_space l in
      if has_prefix line ''conn:'' then
        (case splitn2 (drop 5 line) '':'' of
           [cid, target] \<Rightarrow> Some (DialTarget cid target)
         | _ \<Rightarrow> None)
      else if line = ''conn'' then Some DialLocal
      else None)"

text \<open>The loop that reads commands until the control connection ends; each starts a goroutine.\<close>

lemma after_newline_shorter: "newline \<in> set s \<Longrightarrow> length (after_newline s) < length s"
proof -
  assume "newline \<in> set s"
  then obtain u v where "s = u @ newline # v" "newline \<notin> set u" by (meson split_list_first)
  then show ?thesis by simp
qed

lemma bufio_line_shorter:
  "0 < n \<Longrightarrow> bufio_line n [] buf c = Some (l, rest, c') \<Longrightarrow> length rest + length (stream c') < length buf + length (stream c)"
  using bufio_line_spec [where n = n and acc = "[]" and buf = buf and c = c] after_newline_shorter [of "buf @ stream c"]
  by (simp flip: length_append)

function control_loop :: "byte list \<Rightarrow> conn \<Rightarrow> command list" where
  "control_loop buf c =
     (case bufio_line 4096 [] buf c of
        None \<Rightarrow> []
      | Some (l, rest, c') \<Rightarrow>
          (case control_command (str_of l) of
             None \<Rightarrow> control_loop rest c'
           | Some cmd \<Rightarrow> cmd # control_loop rest c'))"
  by pat_completeness auto
termination
  by (relation "measure (\<lambda>(buf, c). length buf + length (stream c))") (auto dest: bufio_line_shorter [rotated])

declare control_loop.simps [simp del]

section \<open>Data connections\<close>

text \<open>
  \<^verbatim>\<open>resp, _ := rr.ReadString('\n')\<close> takes what there is when the input ends without a line
  feed.  Bytes in the reader's buffer after the line are not passed on: the relay reads the connection.
\<close>

definition read_response :: "conn \<Rightarrow> string \<times> conn" where
  "read_response c =
     (case bufio_line 4096 [] [] c of
        None \<Rightarrow> (str_of (stream c), c\<lparr>inq := []\<rparr>)
      | Some (l, _, c') \<Rightarrow> (str_of l, c'))"

record data_job =
  job_dialled :: "string list"
  job_data :: "conn option"      \<comment> \<open>the connection to the relay, closed\<close>
  job_target :: "conn option"    \<comment> \<open>the connection to the target or to the local server, closed\<close>
  job_pool :: buffer_pool

text \<open>The part the two handlers share: announce the data connection, wait for \<open>ready\<close>, dial and relay.\<close>

definition data_channel ::
  "network \<Rightarrow> pick \<times> pick \<Rightarrow> buffer_pool \<Rightarrow> string \<Rightarrow> string \<Rightarrow> string \<Rightarrow> data_job option" where
  "data_channel net picks bp relayAddr key addr =
     (case dial net relayAddr of
        None \<Rightarrow> Some \<lparr>job_dialled = [relayAddr], job_data = None, job_target = None, job_pool = bp\<rparr>
      | Some t \<Rightarrow>
          (let (ok, data) = conn_write (line_of (''data:'' @ key)) (t_conn t);
               (resp, data') = read_response data
           in if \<not> ok then
                Some \<lparr>job_dialled = [relayAddr], job_data = Some (conn_close data), job_target = None, job_pool = bp\<rparr>
              else if trim_space resp \<noteq> ''ready'' then
                Some \<lparr>job_dialled = [relayAddr], job_data = Some (conn_close data'), job_target = None, job_pool = bp\<rparr>
              else case dial net addr of
                None \<Rightarrow>
                  Some \<lparr>job_dialled = [relayAddr, addr], job_data = Some (conn_close data'), job_target = None, job_pool = bp\<rparr>
              | Some u \<Rightarrow>
                  (case relay picks bp (t_conn u) data' of
                     None \<Rightarrow> None
                   | Some r \<Rightarrow>
                       Some \<lparr>job_dialled = [relayAddr, addr], job_data = Some (conn_close (r_conn2 r)),
                         job_target = Some (conn_close (r_conn1 r)), job_pool = r_pool r\<rparr>)))"

definition handleRelayTarget ::
  "network \<Rightarrow> pick \<times> pick \<Rightarrow> buffer_pool \<Rightarrow> string \<Rightarrow> string \<Rightarrow> string \<Rightarrow> data_job option" where
  "handleRelayTarget net picks bp relayAddr cid target = data_channel net picks bp relayAddr cid target"

definition handleRelayData ::
  "network \<Rightarrow> pick \<times> pick \<Rightarrow> buffer_pool \<Rightarrow> string \<Rightarrow> string \<Rightarrow> string \<Rightarrow> data_job option" where
  "handleRelayData net picks bp localPort relayAddr pid =
     data_channel net picks bp relayAddr pid (''127.0.0.1:'' @ localPort)"

section \<open>Commands do not depend on the segments\<close>

function lines_of :: "byte list \<Rightarrow> string list" where
  "lines_of s = (if newline \<in> set s then str_of (upto_newline s) # lines_of (after_newline s) else [])"
  by pat_completeness auto
termination
  by (relation "measure length") (auto intro: after_newline_shorter)

declare lines_of.simps [simp del]

lemma control_loop_lines: "control_loop buf c = List.map_filter control_command (lines_of (buf @ stream c))"
proof (induction buf c rule: control_loop.induct)
  case (1 buf c)
  note spec = bufio_line_spec [where n = 4096 and acc = "[]" and buf = buf and c = c]
  show ?case
  proof (cases "bufio_line 4096 [] buf c")
    case None
    with spec show ?thesis by (simp add: control_loop.simps [of buf c] lines_of.simps [of "buf @ _"] map_filter_simps)
  next
    case (Some x)
    obtain l rest c' where x: "x = (l, rest, c')" by (metis prod_cases3)
    with spec Some have nl: "newline \<in> set (buf @ stream c)" and l: "l = upto_newline (buf @ stream c)"
      and r: "rest @ stream c' = after_newline (buf @ stream c)" by auto
    have lines: "lines_of (buf @ stream c) = str_of l # lines_of (rest @ stream c')"
      using nl by (subst lines_of.simps) (simp add: l r)
    show ?thesis
    proof (cases "control_command (str_of l)")
      case None
      with 1(1) [OF Some x [symmetric] refl None] lines show ?thesis
        by (simp add: control_loop.simps [of buf c] Some x map_filter_simps)
    next
      case cmd: (Some cmd)
      with 1(2) [OF Some x [symmetric] refl cmd] lines show ?thesis
        by (simp add: control_loop.simps [of buf c] Some x map_filter_simps)
    qed
  qed
qed

lemma chr_newline [simp]: "chr newline = CHR 0x0A"
  by code_simp

lemma byte_of_newline [simp]: "byte_of (CHR 0x0A) = newline"
  by code_simp

lemma newline_in_bytes [simp]: "newline \<in> set (bytes_of l) \<longleftrightarrow> CHR 0x0A \<in> set l"
  by (metis bytes_of_def byte_of_newline chr_byte_of chr_newline image_eqI image_iff list.set_map)

lemma lines_of_line:
  assumes "CHR 0x0A \<notin> set l"
  shows "lines_of (line_of l @ s) = (l @ [CHR 0x0A]) # lines_of s"
proof -
  have e: "line_of l @ s = bytes_of l @ newline # s" by (simp add: line_of_def)
  show ?thesis unfolding e using assms by (subst lines_of.simps) simp
qed

lemma lines_of_Nil [simp]: "lines_of [] = []"
  by (subst lines_of.simps) simp

lemma ctrl_message_line: "ctrl_message cid target = line_of (''conn:'' @ cid @ '':'' @ target)"
  by (simp add: ctrl_message_def line_of_def)

section \<open>The server's messages and the phone's commands\<close>

lemma space_sets: "CHR ''c'' \<notin> space_first" "CHR ''i'' \<notin> space_first" "CHR ''r'' \<notin> space_first"
  "CHR ''n'' \<notin> space_last" "CHR ''y'' \<notin> space_last"
  by (simp_all add: space_first_def space_last_def go_spaces_def)

lemma digit_not_space: "is_digit c \<Longrightarrow> c \<notin> space_last"
  by (auto simp: space_last_def go_spaces_def is_digit_def)

lemma last_join_host_port: "last (join_host_port h p) = last p" if "p \<noteq> []" for h p
  using that by (simp add: join_host_port_def)

lemma show_nat_last: "last (show_nat n) \<notin> space_last"
  using show_nat_is_digit digit_not_space by (metis last_in_set show_nat_nonempty)

text \<open>The command for a target comes back from the line that carries it.\<close>

lemma command_of_message:
  assumes "CHR '':'' \<notin> set cid" and "target \<noteq> []" and "last target \<notin> space_last"
  shows "control_command ((''conn:'' @ cid @ '':'' @ target) @ [CHR 0x0A]) = Some (DialTarget cid target)"
proof -
  have "trim_space ((''conn:'' @ cid @ '':'' @ target) @ [CHR 0x0A]) = ''conn:'' @ cid @ '':'' @ target"
    using assms(2,3) space_sets by (intro trim_space_line) simp_all
  moreover have "splitn2 (cid @ CHR '':'' # target) '':'' = [cid, target]"
    using assms(1) by (rule splitn2_single)
  ultimately show ?thesis by (simp add: control_command_def Let_def has_prefix_def)
qed

lemma client_id_no_colon: "CHR '':'' \<notin> set (client_id n)" "CHR 0x0A \<notin> set (client_id n)"
  using show_nat_no_colon [of n] show_nat_no_newline [of n] by (simp_all add: client_id_def)

lemma command_local: "control_command (''conn'' @ [CHR 0x0A]) = Some DialLocal"
proof -
  have "trim_space (''conn'' @ [CHR 0x0A]) = ''conn''" using space_sets by (intro trim_space_line) simp_all
  then show ?thesis by (simp add: control_command_def Let_def has_prefix_def)
qed

text \<open>The phone reads the id that the server wrote.\<close>

lemma registered_id:
  assumes "dial net (relay_addr a) = Some t" and "writable (t_conn t)"
    and "concat (inq (t_conn t)) = line_id (phone_id n) @ later"
  obtains rest c where "StartRelayTunnel net a =
      Registered (phone_id n) (relayHost (relay_addr a) @ '' (relay '' @ phone_id n @ '')'') rest c"
    and "rest @ stream c = later"
proof -
  let ?c = "(t_conn t)\<lparr>outq := outq (t_conn t) @ line_of ''register''\<rparr>" and ?l = "''id:'' @ phone_id n"
  have nl: "CHR 0x0A \<notin> set ?l" using show_nat_no_newline [of n] by (simp add: phone_id_def)
  have "stream ?c = bytes_of ?l @ newline # later"
    using assms(2,3) by (simp add: stream_def writable_def line_id_def)
  then obtain rest q where r: "bufio_line 4096 [] [] ?c = Some (bytes_of ?l @ [newline], rest, ?c\<lparr>inq := q\<rparr>)"
    "rest @ stream (?c\<lparr>inq := q\<rparr>) = later"
    using bufio_line_first [of 4096 ?c "bytes_of ?l" later] nl by (metis newline_in_bytes zero_less_numeral)
  have "last ?l = last (show_nat n)" by (simp add: phone_id_def)
  then have "trim_space (?l @ [CHR 0x0A]) = ?l"
    using space_sets show_nat_last by (intro trim_space_line) simp_all
  then have "trim_space (str_of (bytes_of ?l @ [newline])) = ?l" by simp
  with r assms(1,2) have "StartRelayTunnel net a =
      Registered (phone_id n) (relayHost (relay_addr a) @ '' (relay '' @ phone_id n @ '')'') rest (?c\<lparr>inq := q\<rparr>)"
    by (simp add: StartRelayTunnel_def Let_def has_prefix_def)
  with r(2) that show thesis by blast
qed

lemma data_channel_outputs:
  assumes "dial net relayAddr = Some t" and "dial net target = Some u" and "pool_wf bp"
    and "writable (t_conn t)" and "writable (t_conn u)"
    and "inq (t_conn t) = (line_of ''ready'' @ ahead) # q" and "length ahead \<le> 4090"
  shows "\<exists>job tc dc. handleRelayTarget net picks bp relayAddr cid target = Some job \<and>
    job_dialled job = [relayAddr, target] \<and> job_target job = Some tc \<and> job_data job = Some dc \<and>
    outq tc = outq (t_conn u) @ concat q \<and> closed tc \<and> closed dc \<and>
    outq dc = outq (t_conn t) @ line_of (''data:'' @ cid) @ stream (t_conn u)"
proof -
  let ?d = "(t_conn t)\<lparr>outq := outq (t_conn t) @ line_of (''data:'' @ cid)\<rparr>"
  let ?d' = "?d\<lparr>inq := q\<rparr>"
  have "inq ?d = (bytes_of ''ready'' @ newline # ahead) # q" using assms(6) by (simp add: line_of_def)
  moreover have "newline \<notin> set (bytes_of ''ready'')" by (simp only: newline_in_bytes) simp
  ultimately have "bufio_line 4096 [] [] ?d = Some (bytes_of ''ready'' @ [newline], ahead, ?d')"
    using assms(4,7) by (intro bufio_line_alone) (auto simp: writable_def)
  then have r: "read_response ?d = (''ready'' @ [CHR 0x0A], ?d')" by (simp add: read_response_def str_of_def flip: bytes_of_def)
  have tr: "trim_space (''ready'' @ [CHR 0x0A]) = ''ready''" using space_sets by (intro trim_space_line) simp_all
  have w: "writable ?d'" using assms(4) by simp
  obtain r where rl: "relay picks bp (t_conn u) ?d' = Some r" using relay_total [OF assms(3)] by blast
  note P = relay_prefix [OF rl] and E = relay_exact [OF rl]
  have "stream ?d' = concat q" using w by (simp add: stream_def writable_def)
  with P E w assms(5) have "outq (r_conn1 r) = outq (t_conn u) @ concat q"
    "outq (r_conn2 r) = outq ?d @ stream (t_conn u)" by simp_all
  with assms(1,2,4) r rl tr show ?thesis
    by (simp add: handleRelayTarget_def data_channel_def Let_def)
qed

section \<open>Properties\<close>

lemma newline_join: "CHR 0x0A \<notin> set h \<Longrightarrow> CHR 0x0A \<notin> set p \<Longrightarrow> CHR 0x0A \<notin> set (join_host_port h p)"
  by (simp add: join_host_port_def)

lemma stream_fresh_one: "stream (fresh_conn [b] ws) = b"
  by (simp add: stream_def fresh_conn_def)

lemma split_join_host_port_iff:
  assumes "plain p"
  shows "split_host_port (join_host_port h p) = Some (h, p) \<longleftrightarrow> CHR ''['' \<notin> set h \<and> CHR '']'' \<notin> set h"
  using split_join_host_port [OF _ _ assms] split_host_port_no_bracket by blast

text \<open>The target of a command that a line holds has no line feed.\<close>

lemma command_target_no_newline:
  assumes "control_command (l @ [CHR 0x0A]) = Some (DialTarget cid target)" and "CHR 0x0A \<notin> set l"
  shows "CHR 0x0A \<notin> set target"
proof -
  let ?r = "drop 5 (trim_space (l @ [CHR 0x0A]))"
  have "splitn2 ?r '':'' = [cid, target]"
    using assms(1) by (auto simp: control_command_def Let_def splitn2_def split: if_splits option.splits)
  then obtain i where "target = drop (i + 1) ?r"
    by (auto simp: splitn2_def split: option.splits)
  then have "set target \<subseteq> set (trim_space (l @ [CHR 0x0A]))" by (simp add: set_drop_subset)
  with trim_space_no_newline [OF assms(2)] show ?thesis by blast
qed

lemma lines_of_no_newline: "x \<in> set (lines_of s) \<Longrightarrow> \<exists>l. x = l @ [CHR 0x0A] \<and> CHR 0x0A \<notin> set l"
proof (induction s rule: lines_of.induct)
  case (1 s)
  have "newline \<notin> set (takeWhile (\<lambda>b. b \<noteq> newline) s)" by (auto dest: set_takeWhileD)
  then have "CHR 0x0A \<notin> set (str_of (takeWhile (\<lambda>b. b \<noteq> newline) s))"
    by (metis bytes_of_str_of newline_in_bytes)
  then have "\<exists>l. str_of (upto_newline s) = l @ [CHR 0x0A] \<and> CHR 0x0A \<notin> set l"
    by (auto simp: upto_newline_def str_of_def)
  with 1 show ?case by (subst (asm) (2) lines_of.simps) (auto split: if_splits)
qed

lemma control_loop_no_newline:
  assumes "DialTarget cid target \<in> set (control_loop buf c)"
  shows "CHR 0x0A \<notin> set target"
proof -
  obtain x where "x \<in> set (lines_of (buf @ stream c))" "control_command x = Some (DialTarget cid target)"
    using assms by (auto simp: control_loop_lines List.map_filter_def)
  then show ?thesis using lines_of_no_newline command_target_no_newline by metis
qed

text \<open>
  C12. From client to phone and back to an address: the request of a SOCKS5 client, in any
  segments and with any kind of address, passes through the front of the relay server, which joins
  its host and port and leaves what the client sent after the request for the pipe. From the line
  on the control connection the phone gets exactly the command to dial that address, unless the
  host holds a line feed: then it never gets a command for that address at all. And the phone's
  dialer splits the address into the client's host and port exactly when the host holds no bracket.
\<close>

theorem relay_request_roundtrip:
  assumes "writable c" and "stream c = encode_greeting methods @ encode_request d port @ payload"
    and "length methods < 256" and "dst_wf d" and "port < 65536"
  shows "\<exists>t c'. relay_front c = Inr (t, c') \<and> stream c' = payload \<and>
    (split_host_port t = Some (dst_host d, show_nat port) \<longleftrightarrow>
       CHR ''['' \<notin> set (dst_host d) \<and> CHR '']'' \<notin> set (dst_host d)) \<and>
    (\<forall>k. stream k = ctrl_message (client_id n) t \<longrightarrow>
       (if CHR 0x0A \<in> set (dst_host d) then \<forall>cid. DialTarget cid t \<notin> set (control_loop [] k)
        else control_loop [] k = [DialTarget (client_id n) t]))"
proof -
  let ?t = "join_host_port (dst_host d) (show_nat port)" and ?cid = "client_id n"
  have spec: "front_spec (stream c) = Inr (?t, payload)"
    using front_spec_encoded [OF assms(3-5), of payload] assms(2) by simp
  obtain c' where f: "relay_front c = Inr (?t, c')" "stream c' = payload"
    using relay_front_refines [OF assms(1)] spec by (auto split: sum.splits)
  have "?t \<noteq> []" "last ?t \<notin> space_last"
    using last_join_host_port [of "show_nat port" "dst_host d"] show_nat_last by (auto simp: join_host_port_def)
  then have clean: "control_loop [] k = [DialTarget ?cid ?t]"
    if "stream k = ctrl_message ?cid ?t" and h: "CHR 0x0A \<notin> set (dst_host d)" for k
  proof -
    have "CHR 0x0A \<notin> set (''conn:'' @ ?cid @ '':'' @ ?t)"
      using client_id_no_colon(2) newline_join [OF h show_nat_no_newline] by simp
    from lines_of_line [OF this, of "[]"] command_of_message [OF client_id_no_colon(1)] that(1)
      \<open>?t \<noteq> []\<close> \<open>last ?t \<notin> space_last\<close>
    show ?thesis by (simp add: control_loop_lines ctrl_message_line map_filter_simps)
  qed
  have "DialTarget cid ?t \<notin> set (control_loop [] k)" if "CHR 0x0A \<in> set (dst_host d)" for cid k
    using control_loop_no_newline [of cid ?t "[]" k] that by (auto simp: join_host_port_def split: if_splits)
  with f clean split_join_host_port_iff [OF plain_show_nat] show ?thesis by auto
qed

theorem relay_request_roundtrip_witness:
  "(\<exists>t c'. relay_front (fresh_conn [[5, 0, 5, 1], [0, 3, 1, 97, 0, 80], [9]] []) = Inr (t, c') \<and> stream c' = [9] \<and>
     split_host_port t = Some (''a'', ''80'')) \<and>
   (\<exists>t c'. relay_front (fresh_conn [[5, 0, 5, 1, 0, 3, 2, 97, 10, 0, 80]] []) = Inr (t, c') \<and>
     DialTarget ''c1'' t \<notin> set (control_loop [] (fresh_conn [ctrl_message (client_id 1) t] [])))"
proof -
  have e: "concat [[5, 0, 5, 1], [0, 3, 1, 97, 0, 80], [9]] = encode_greeting [] @ encode_request (DstDomain ''a'') 80 @ [9]"
    "concat [[5, 0, 5, 1, 0, 3, 2, 97, 10, 0, 80]] =
       encode_greeting [] @ encode_request (DstDomain (''a'' @ [CHR 0x0A])) 80 @ []"
    "show_nat 80 = ''80''"
    by code_simp+
  with relay_request_roundtrip [of "fresh_conn [[5, 0, 5, 1], [0, 3, 1, 97, 0, 80], [9]] []" "[]" "DstDomain ''a''" 80 "[9]" 1]
  have "\<exists>t c'. relay_front (fresh_conn [[5, 0, 5, 1], [0, 3, 1, 97, 0, 80], [9]] []) = Inr (t, c') \<and> stream c' = [9] \<and>
     split_host_port t = Some (''a'', ''80'')"
    by (simp add: dst_wf_def dst_host_def) metis
  moreover have "\<exists>t c'. relay_front (fresh_conn [[5, 0, 5, 1, 0, 3, 2, 97, 10, 0, 80]] []) = Inr (t, c') \<and>
     DialTarget ''c1'' t \<notin> set (control_loop [] (fresh_conn [ctrl_message (client_id 1) t] []))"
    using relay_request_roundtrip [of "fresh_conn [[5, 0, 5, 1, 0, 3, 2, 97, 10, 0, 80]] []" "[]"
        "DstDomain (''a'' @ [CHR 0x0A])" 80 "[]" 1] e(2)
    by (simp add: dst_wf_def dst_host_def) (metis stream_fresh_one)
  ultimately show ?thesis ..
qed

text \<open>
  C25. A data connection of the phone, when all goes well: the relay is told the id, the target of
  the command is dialled, and both are closed in the end. Everything the target sends reaches the
  relay; the target gets what the relay sends after the segment of its \<open>ready\<close> line, but not the
  bytes \<open>ahead\<close> that arrive in that segment: they stay in the \<^verbatim>\<open>bufio\<close> reader that is dropped.
\<close>

theorem relay_data_channel:
  assumes "dial net relayAddr = Some t" and "dial net target = Some u" and "pool_wf bp"
    and "writable (t_conn t)" and "writable (t_conn u)"
    and "inq (t_conn t) = (line_of ''ready'' @ ahead) # q" and "length ahead \<le> 4090"
  shows "\<exists>job tc dc. handleRelayTarget net picks bp relayAddr cid target = Some job \<and>
    job_dialled job = [relayAddr, target] \<and> job_target job = Some tc \<and> job_data job = Some dc \<and>
    outq tc = outq (t_conn u) @ concat q \<and> closed tc \<and> closed dc \<and>
    outq dc = outq (t_conn t) @ line_of (''data:'' @ cid) @ stream (t_conn u)"
  using assms by (rule data_channel_outputs)

theorem relay_data_channel_witness:
  "\<exists>job tc. handleRelayTarget
       (\<lambda>h p. Some \<lparr>t_conn = fresh_conn (if h = ''r'' then [line_of ''ready'' @ [1], [2]] else [[3]]) [], t_local_ip = [], t_local_port = 0\<rparr>)
       (None, None) (empty_pool \<lparr>allocated = 0, reused = 0, put_back = 0, dropped = 0\<rparr>) ''r:1'' ''c1'' ''a:2'' = Some job \<and>
     job_target job = Some tc \<and> outq tc = [2]"
proof -
  let ?net = "\<lambda>h p. Some \<lparr>t_conn = fresh_conn (if h = ''r'' then [line_of ''ready'' @ [1], [2]] else [[3]]) [], t_local_ip = [], t_local_port = 0\<rparr>"
  let ?bp = "empty_pool \<lparr>allocated = 0, reused = 0, put_back = 0, dropped = 0\<rparr>"
  have "split_host_port ''r:1'' = Some (''r'', ''1'')" "split_host_port ''a:2'' = Some (''a'', ''2'')" by code_simp+
  then have d: "dial ?net ''r:1'' = ?net ''r'' ''1''" "dial ?net ''a:2'' = ?net ''a'' ''2''" by (simp_all add: dial_def)
  have wf: "pool_wf ?bp" by simp
  have q: "inq (fresh_conn segs ws) = segs" for segs ws by (simp add: fresh_conn_def)
  show ?thesis
    using relay_data_channel [OF d [simplified] wf, of "[1]" "[[2]]" "(None, None)" "''c1''"]
    by (simp add: q) metis
qed

text \<open>A line feed in a SOCKS5 domain name ends the line of the message: what follows it is a command of its own.\<close>

lemma relay_newline_injects:
  "front_spec (encode_greeting [] @ encode_request (DstDomain (''x'' @ [CHR 0x0A] @ ''conn'' @ [CHR 0x0A])) 80) =
     Inr (''x'' @ [CHR 0x0A] @ ''conn'' @ [CHR 0x0A] @ '':80'', [])"
  "List.map_filter control_command (lines_of (ctrl_message ''c1'' (''x'' @ [CHR 0x0A] @ ''conn'' @ [CHR 0x0A] @ '':80''))) =
     [DialTarget ''c1'' ''x'', DialLocal]"
  by code_simp+

end
