(* ===== verification/Ssh_Tunnel.thy ===== *)
theory Ssh_Tunnel
  imports Go_Strings
begin

text \<open>
  \<^verbatim>\<open>internal/tunnel/sshtun.go\<close>: the value of \<^verbatim>\<open>ZETPROXY_TUNNEL\<close>, the remote forwarding over a
  child process \<^verbatim>\<open>ssh\<close>, the URL of the tunnel, and stopping it. What the child does in its first
  three seconds is a parameter: a function of its arguments.
\<close>

section \<open>The configuration\<close>

definition trim_prefix :: "string \<Rightarrow> string \<Rightarrow> string" where
  "trim_prefix s p = (if has_prefix s p then drop (length p) s else s)"

definition ParseTunnelConfig :: "string \<Rightarrow> string \<times> string" where
  "ParseTunnelConfig val =
     (let val = trim_space val in
      if val = [] then ([], [])
      else if val = ''serveo'' \<or> val = ''serveo.net'' then (''serveo'', [])
      else if val = ''ssh'' \<or> val = ''1'' \<or> val = ''true'' \<or> val = ''yes'' then (''ssh'', ''serveo.net'')
      else if val = ''localrun'' then (''ssh'', ''nokey@localhost.run'')
      else if has_prefix val ''relay:'' then
        (let rest = trim_prefix val ''relay:'' in (''relay'', if rest = [] then ''127.0.0.1:7800'' else rest))
      else if has_prefix val ''serveo:'' then (''serveo'', trim_prefix val ''serveo:'')
      else if has_prefix val ''ssh:'' then
        (let rest = drop 4 val in
         (''ssh'', if \<not> str_contains rest ''@'' \<and> \<not> str_contains rest ''.'' then ''serveo.net'' else rest))
      else if str_contains val ''@'' \<or> str_contains val ''.'' then (''ssh'', val)
      else (''ssh'', ''serveo.net''))"

section \<open>The child process\<close>

datatype ssh_outcome =
    NoPipe string          \<comment> \<open>\<open>StderrPipe\<close> fails\<close>
  | NoStart string         \<comment> \<open>\<open>Start\<close> fails\<close>
  | Exits bool string      \<comment> \<open>ended within three seconds: whether with status 0, and its standard error\<close>
  | Runs                   \<comment> \<open>still there after three seconds\<close>

text \<open>The package's variables; \<open>tunnelStop\<close> is \<^verbatim>\<open>nil\<close>, open or closed, \<open>tunnelCmd\<close> the arguments of the process kept.\<close>

datatype stop_chan = NoChan | OpenChan | ClosedChan

record ssh_state =
  tunnel_url :: string
  tunnel_stop :: stop_chan
  tunnel_cmd :: "string list option"
  cmd_killed :: bool

definition ssh_init :: ssh_state where
  "ssh_init = \<lparr>tunnel_url = [], tunnel_stop = NoChan, tunnel_cmd = None, cmd_killed = False\<rparr>"

definition GetTunnelURL :: "ssh_state \<Rightarrow> string" where
  "GetTunnelURL s = tunnel_url s"

definition setTunnelURL :: "string \<Rightarrow> ssh_state \<Rightarrow> ssh_state" where
  "setTunnelURL url s = s\<lparr>tunnel_url := url\<rparr>"

text \<open>Closing a channel twice panics: \<^const>\<open>None\<close>.\<close>

definition StopTunnel :: "ssh_state \<Rightarrow> ssh_state option" where
  "StopTunnel s =
     (case tunnel_stop s of
        ClosedChan \<Rightarrow> None
      | c \<Rightarrow>
          (let s = (if c = OpenChan then s\<lparr>tunnel_stop := ClosedChan\<rparr> else s) in
           Some (if tunnel_cmd s \<noteq> None then s\<lparr>cmd_killed := True\<rparr> else s)))"

definition ssh_args :: "string \<Rightarrow> string \<Rightarrow> string \<Rightarrow> string list" where
  "ssh_args host localPort remotePort =
     [''-o'', ''StrictHostKeyChecking=no'',
      ''-o'', ''UserKnownHostsFile=/dev/null'',
      ''-o'', ''ServerAliveInterval=15'',
      ''-o'', ''ServerAliveCountMax=3'',
      ''-o'', ''ExitOnForwardFailure=yes'',
      ''-o'', ''ConnectTimeout=10'',
      ''-R'', ''*:'' @ remotePort @ '':127.0.0.1:'' @ localPort,
      ''-R'', remotePort @ '':127.0.0.1:'' @ localPort,
      ''-N'', host]"

text \<open>The error, if any, and the state: a process that runs on is kept in \<open>tunnelCmd\<close>.\<close>

definition trySSHRemote ::
  "(string list \<Rightarrow> ssh_outcome) \<Rightarrow> string \<Rightarrow> string \<Rightarrow> string \<Rightarrow> ssh_state \<Rightarrow> string option \<times> ssh_state" where
  "trySSHRemote ssh host localPort remotePort s =
     (let args = ssh_args host localPort remotePort in
      case ssh args of
        NoPipe e \<Rightarrow> (Some e, s)
      | NoStart e \<Rightarrow> (Some (''start: '' @ e), s)
      | Exits ok output \<Rightarrow>
          if \<not> ok then
            if str_contains output ''forwarding failed'' then (Some (''port '' @ remotePort @ '' rejected''), s)
            else (Some (trim_space (hd (splitn2 output [CHR 0x0A]))), s)
          else (None, s)
      | Runs \<Rightarrow> (None, s\<lparr>tunnel_cmd := Some args\<rparr>))"

fun try_ports ::
  "(string list \<Rightarrow> ssh_outcome) \<Rightarrow> string \<Rightarrow> string \<Rightarrow> string list \<Rightarrow> ssh_state \<Rightarrow> string option \<times> ssh_state" where
  "try_ports ssh host localPort [] s = (Some (''all ports failed on '' @ host), s)"
| "try_ports ssh host localPort (rp # rps) s =
     (case trySSHRemote ssh host localPort rp s of
        (None, s) \<Rightarrow> (None, setTunnelURL (host @ '':'' @ rp) s)
      | (Some _, s) \<Rightarrow> try_ports ssh host localPort rps s)"

definition StartSSHTunnel ::
  "(string list \<Rightarrow> ssh_outcome) \<Rightarrow> string \<Rightarrow> string \<Rightarrow> ssh_state \<Rightarrow> string option \<times> ssh_state" where
  "StartSSHTunnel ssh localPort sshHost s =
     (let s = s\<lparr>tunnel_stop := OpenChan\<rparr>;
          (host, remotePort) =
            (if str_contains sshHost '':'' then
               (let parts = splitn2 sshHost '':'' in (parts ! 0, parts ! 1))
             else (sshHost, []));
          tryPorts = (if remotePort \<noteq> [] then [remotePort] else [localPort])
      in try_ports ssh host localPort tryPorts s)"

section \<open>Facts\<close>

text \<open>The host and the port that are asked for.\<close>

definition ssh_host :: "string \<Rightarrow> string" where
  "ssh_host a = takeWhile (\<lambda>c. c \<noteq> CHR '':'') a"

definition ssh_port :: "string \<Rightarrow> string \<Rightarrow> string" where
  "ssh_port a localPort = (let p = drop 1 (dropWhile (\<lambda>c. c \<noteq> CHR '':'') a) in if p = [] then localPort else p)"

lemma split_colon:
  assumes "CHR '':'' \<in> set a"
  shows "splitn2 a '':'' = [ssh_host a, drop 1 (dropWhile (\<lambda>c. c \<noteq> CHR '':'') a)]"
proof -
  obtain u v where a: "a = u @ CHR '':'' # v" "CHR '':'' \<notin> set u" using assms by (meson split_list_first)
  then have "takeWhile (\<lambda>c. c \<noteq> CHR '':'') a = u" "dropWhile (\<lambda>c. c \<noteq> CHR '':'') a = CHR '':'' # v"
    by (auto simp: takeWhile_append dropWhile_append)
  with a splitn2_single [of "CHR '':''" u v] show ?thesis by (simp add: ssh_host_def)
qed

lemma StartSSHTunnel_once:
  "StartSSHTunnel ssh localPort a s =
     (let (e, s') = trySSHRemote ssh (ssh_host a) localPort (ssh_port a localPort) (s\<lparr>tunnel_stop := OpenChan\<rparr>) in
      case e of
        None \<Rightarrow> (None, setTunnelURL (ssh_host a @ '':'' @ ssh_port a localPort) s')
      | Some _ \<Rightarrow> (Some (''all ports failed on '' @ ssh_host a), s'))"
proof (cases "CHR '':'' \<in> set a")
  case True
  then show ?thesis
    by (auto simp: StartSSHTunnel_def split_colon ssh_port_def Let_def split: prod.splits option.splits)
next
  case False
  then have d: "dropWhile (\<lambda>c. c \<noteq> CHR '':'') a = []" and t: "takeWhile (\<lambda>c. c \<noteq> CHR '':'') a = a"
    by (auto simp: takeWhile_eq_all_conv dropWhile_eq_Nil_conv)
  have "ssh_host a = a" "ssh_port a localPort = localPort" unfolding ssh_host_def ssh_port_def d t by simp_all
  with False show ?thesis
    by (auto simp: StartSSHTunnel_def Let_def split: prod.splits option.splits)
qed

text \<open>
  A value of the setting with white space around it, by cases on what is between; the last case
  takes in \<^verbatim>\<open>ssh\<close>, \<^verbatim>\<open>1\<close>, \<^verbatim>\<open>true\<close> and \<^verbatim>\<open>yes\<close>.
\<close>

lemma trim_space_blank: "set bs \<subseteq> set go_spaces \<Longrightarrow> trim_space (concat bs) = []"
proof -
  assume "set bs \<subseteq> set go_spaces"
  then have "trim_left go_spaces (concat bs @ []) = []"
    by (intro trim_left_padded go_spaces_nonempty go_spaces_prefix_free) simp_all
  moreover have "trim_left (map rev go_spaces) [] = []"
    by (intro trim_left_id rev_go_spaces_nonempty) simp_all
  ultimately show ?thesis by (simp add: trim_space_def)
qed

lemma ParseTunnelConfig_padded:
  assumes "val = concat bs @ v @ concat cs" and "set bs \<subseteq> set go_spaces" and "set cs \<subseteq> set go_spaces"
    and "v \<noteq> []" and "hd v \<notin> space_first" and "last v \<notin> space_last"
  shows "v = ''relay:'' @ a \<Longrightarrow> ParseTunnelConfig val = (''relay'', if a = [] then ''127.0.0.1:7800'' else a)"
    and "v = ''ssh:'' @ a \<Longrightarrow> ParseTunnelConfig val =
      (''ssh'', if CHR ''@'' \<in> set a \<or> CHR ''.'' \<in> set a then a else ''serveo.net'')"
    and "v = ''serveo:'' @ a \<Longrightarrow> fst (ParseTunnelConfig val) = ''serveo''"
    and "v = ''serveo'' \<or> v = ''serveo.net'' \<Longrightarrow> fst (ParseTunnelConfig val) = ''serveo''"
    and "v = ''localrun'' \<Longrightarrow> ParseTunnelConfig val = (''ssh'', ''nokey@localhost.run'')"
    and "v \<notin> {''serveo'', ''serveo.net'', ''localrun''} \<Longrightarrow>
      \<forall>p\<in>{''relay:'', ''ssh:'', ''serveo:''}. \<not> has_prefix v p \<Longrightarrow> ParseTunnelConfig val =
      (''ssh'', if CHR ''@'' \<in> set v \<or> CHR ''.'' \<in> set v then v else ''serveo.net'')"
  using trim_space_padded [OF assms(2-6)] assms(1,4)
  by (auto simp: ParseTunnelConfig_def trim_prefix_def has_prefix_def Let_def)

section \<open>Properties\<close>

text \<open>
  C38. \<^verbatim>\<open>StartSSHTunnel\<close> asks once, for the port after the first colon or else the local port, and
  succeeds exactly when \<^verbatim>\<open>ssh\<close> is still running after three seconds or ended with status 0; the
  URL of the tunnel is set then and only then. A process that runs on is the one that stopping the
  tunnel kills, and a second stop closes the channel again and panics.
\<close>

theorem ssh_tunnel_started:
  "let args = ssh_args (ssh_host a) localPort (ssh_port a localPort);
       (e, s') = StartSSHTunnel ssh localPort a s in
   (e = None \<longleftrightarrow> ssh args = Runs \<or> (\<exists>out. ssh args = Exits True out)) \<and>
   GetTunnelURL s' = (if e = None then ssh_host a @ '':'' @ ssh_port a localPort else GetTunnelURL s) \<and>
   tunnel_cmd s' = (if ssh args = Runs then Some args else tunnel_cmd s) \<and>
   (\<exists>s''. StopTunnel s' = Some s'' \<and> cmd_killed s'' = (if tunnel_cmd s' = None then cmd_killed s else True) \<and> StopTunnel s'' = None)"
  by (auto simp: StartSSHTunnel_once trySSHRemote_def StopTunnel_def GetTunnelURL_def setTunnelURL_def Let_def
      split: ssh_outcome.split prod.split)

end
