(* ===== verification/Host_Addresses.thy ===== *)
theory Host_Addresses
  imports Go_Addr
begin

text \<open>
  The addresses under which the host is advertised: \<^verbatim>\<open>getEnv\<close>, \<^verbatim>\<open>getAllIPs\<close>, \<^verbatim>\<open>getPreferredIP\<close>,
  \<^verbatim>\<open>isPrivateIP\<close> and \<^verbatim>\<open>isTailscaleIP\<close>. \<^verbatim>\<open>cmd/zetproxyd/main.go\<close> and
  \<^verbatim>\<open>internal/dashboard/dashboard.go\<close> each have a copy; the copies differ in \<^verbatim>\<open>getPreferredIP\<close>
  only, where the dashboard's looks at \<^verbatim>\<open>ZETPROXY_IP\<close> first. The environment, the network
  interfaces and the local address of a UDP socket are parameters.
\<close>

section \<open>The environment\<close>

text \<open>\<^verbatim>\<open>os.Getenv\<close>: the empty string when the variable is not set.\<close>

type_synonym env = "string \<Rightarrow> string"

definition getEnv :: "env \<Rightarrow> string \<Rightarrow> string \<Rightarrow> string" where
  "getEnv env key def = (if env key \<noteq> [] then env key else def)"

section \<open>Classes of addresses\<close>

text \<open>Both test an IPv4 address of four bytes, or \<^verbatim>\<open>nil\<close>; an index beyond the slice would panic.\<close>

definition isPrivateIP :: "byte list option \<Rightarrow> bool" where
  "isPrivateIP ip =
     (case ip of
        None \<Rightarrow> False
      | Some b \<Rightarrow>
          if b ! 0 = 192 \<and> b ! 1 = 168 then True
          else if b ! 0 = 172 \<and> 16 \<le> b ! 1 \<and> b ! 1 \<le> 31 then True
          else if b ! 0 = 10 then True
          else False)"

definition isTailscaleIP :: "byte list option \<Rightarrow> bool" where
  "isTailscaleIP ip =
     (case ip of
        None \<Rightarrow> False
      | Some b \<Rightarrow> if length b < 4 then False else b ! 0 = 100 \<and> 64 \<le> b ! 1 \<and> b ! 1 \<le> 127)"

section \<open>The interfaces\<close>

record iface =
  if_up :: bool
  if_loopback :: bool
  if_addrs :: "byte list option list option"  \<comment> \<open>\<open>None\<close>: an error; an address that is not an \<open>IPNet\<close> is \<open>None\<close>\<close>

text \<open>One address of an interface, with the addresses so far, which are also those seen.\<close>

definition add_ip :: "byte list option \<Rightarrow> string list \<Rightarrow> string list" where
  "add_ip addr ips =
     (case addr of
        None \<Rightarrow> ips
      | Some ip \<Rightarrow>
          (case to4 ip of
             None \<Rightarrow> ips
           | Some ip4 \<Rightarrow> if ip_string ip4 \<in> set ips then ips else ips @ [ip_string ip4]))"

definition add_iface :: "iface \<Rightarrow> string list \<Rightarrow> string list" where
  "add_iface i ips =
     (if \<not> if_up i then ips
      else if if_loopback i then ips
      else case if_addrs i of None \<Rightarrow> ips | Some addrs \<Rightarrow> fold add_ip addrs ips)"

definition getAllIPs :: "iface list option \<Rightarrow> string list" where
  "getAllIPs ifaces = (case ifaces of None \<Rightarrow> [] | Some is \<Rightarrow> fold add_iface is [])"

text \<open>
  The address of a host without IPv4 address on an interface: the local address of a UDP socket
  (\<^const>\<open>None\<close> when it cannot be made; an address may be \<^verbatim>\<open>nil\<close>).
\<close>

definition socket_ip :: "byte list option option \<Rightarrow> string" where
  "socket_ip udp =
     (case udp of
        Some (Some ip) \<Rightarrow> if \<not> isTailscaleIP (to4 ip) then ip_string ip else ''0.0.0.0''
      | _ \<Rightarrow> ''0.0.0.0'')"

text \<open>\<^verbatim>\<open>net.ParseIP(ip).To4()\<close> on the strings of \<^const>\<open>getAllIPs\<close>, which are dotted quads.\<close>

fun pick_ip :: "string list \<Rightarrow> string option" where
  "pick_ip [] = None"
| "pick_ip (ip # ips) =
     (case parse_ip4 ip of
        None \<Rightarrow> pick_ip ips
      | Some parsed \<Rightarrow>
          if isTailscaleIP (Some parsed) then pick_ip ips
          else if isPrivateIP (Some parsed) then Some ip
          else pick_ip ips)"

definition getPreferredIP :: "iface list option \<Rightarrow> byte list option option \<Rightarrow> string" where
  "getPreferredIP ifaces udp =
     (let ips = getAllIPs ifaces in
      case pick_ip ips of
        Some ip \<Rightarrow> ip
      | None \<Rightarrow> if ips \<noteq> [] then hd ips else socket_ip udp)"

text \<open>The dashboard's copy.\<close>

definition dash_getPreferredIP :: "env \<Rightarrow> iface list option \<Rightarrow> byte list option option \<Rightarrow> string" where
  "dash_getPreferredIP env ifaces udp =
     (if env ''ZETPROXY_IP'' \<noteq> [] then env ''ZETPROXY_IP''
      else
        (let ips = getAllIPs ifaces in
         case pick_ip ips of
           Some ip \<Rightarrow> ip
         | None \<Rightarrow> if ips \<noteq> [] then hd ips else socket_ip udp))"

text \<open>Lines 115 to 118 of \<^verbatim>\<open>main\<close>: the address the daemon prints.\<close>

definition advertised_ip :: "env \<Rightarrow> iface list option \<Rightarrow> byte list option option \<Rightarrow> string" where
  "advertised_ip env ifaces udp =
     (let localIP = env ''ZETPROXY_IP'' in
      if localIP = [] then getPreferredIP ifaces udp else localIP)"

section \<open>Facts\<close>

text \<open>The IPv4 addresses of a host: of the interfaces that are up and no loopback, in order.\<close>

definition host_ip4s :: "iface list \<Rightarrow> byte list list" where
  "host_ip4s is =
     concat (map (\<lambda>i. if if_up i \<and> \<not> if_loopback i
                      then List.map_filter (\<lambda>a. Option.bind a to4) (case if_addrs i of None \<Rightarrow> [] | Some as \<Rightarrow> as)
                      else []) is)"

lemma ip_string_4: "length b = 4 \<Longrightarrow> ip_string b = ip4_string b"
  by (cases b) (simp_all add: ip_string_def)

lemma host_ip4s_length: "b \<in> set (host_ip4s is) \<Longrightarrow> length b = 4"
  by (auto simp: host_ip4s_def map_filter_def bind_eq_Some_conv dest: to4_length split: if_splits option.splits)

text \<open>\<^const>\<open>getAllIPs\<close> is the list of these, each once, at its first place.\<close>

definition add_new :: "'a \<Rightarrow> 'a list \<Rightarrow> 'a list" where
  "add_new x xs = (if x \<in> set xs then xs else xs @ [x])"

lemma fold_add_ip: "fold add_ip addrs ips = fold add_new (map ip_string (List.map_filter (\<lambda>a. Option.bind a to4) addrs)) ips"
  by (induction addrs arbitrary: ips)
    (simp_all add: add_ip_def add_new_def map_filter_simps split: option.split)

lemma getAllIPs_fold: "getAllIPs (Some is) = fold add_new (map ip_string (host_ip4s is)) []"
proof -
  have "fold add_iface is ips = fold add_new (map ip_string (host_ip4s is)) ips" for ips
    by (induction "is" arbitrary: ips)
      (simp_all add: host_ip4s_def add_iface_def fold_add_ip map_filter_simps split: option.split)
  then show ?thesis by (simp add: getAllIPs_def)
qed

lemma add_new_set: "set (fold add_new xs ys) = set ys \<union> set xs"
  by (induction xs arbitrary: ys) (auto simp: add_new_def)

lemma add_new_distinct: "distinct ys \<Longrightarrow> distinct (fold add_new xs ys)"
  by (induction xs arbitrary: ys) (auto simp: add_new_def)

lemma add_new_hd: "ys \<noteq> [] \<Longrightarrow> fold add_new xs ys \<noteq> [] \<and> hd (fold add_new xs ys) = hd ys"
  by (induction xs arbitrary: ys) (auto simp: add_new_def)

lemma fold_add_new_hd: "xs \<noteq> [] \<Longrightarrow> hd (fold add_new xs []) = hd xs"
  using add_new_hd [of "[hd xs]" "tl xs"] by (cases xs) (simp_all add: add_new_def)

text \<open>The first private address among them, as a function of the addresses themselves.\<close>

definition private4 :: "byte list \<Rightarrow> bool" where
  "private4 b \<longleftrightarrow> isPrivateIP (Some b) \<and> \<not> isTailscaleIP (Some b)"

lemma private_not_tailscale: "length b = 4 \<Longrightarrow> isPrivateIP (Some b) \<Longrightarrow> \<not> isTailscaleIP (Some b)"
  by (auto simp: isPrivateIP_def isTailscaleIP_def split: if_splits)

lemma pick_ip_find:
  assumes "\<forall>b\<in>set bs. length b = 4"
  shows "pick_ip (map ip_string bs) = map_option ip_string (find (\<lambda>b. isPrivateIP (Some b)) bs)"
  using assms
proof (induction bs)
  case (Cons b bs)
  then have "parse_ip4 (ip_string b) = Some b" by (simp add: ip_string_4 parse_ip4_string)
  with Cons private_not_tailscale [of b] show ?case by auto
qed simp

lemma fold_add_new_map: "inj_on f (set xs \<union> set ys) \<Longrightarrow> fold add_new (map f xs) (map f ys) = map f (fold add_new xs ys)"
proof (induction xs arbitrary: ys)
  case (Cons x xs)
  have "f x \<in> set (map f ys) \<longleftrightarrow> x \<in> set ys" using Cons.prems by (auto simp: inj_on_def)
  then have "add_new (f x) (map f ys) = map f (add_new x ys)" by (simp add: add_new_def)
  moreover have "inj_on f (set xs \<union> set (add_new x ys))"
    using Cons.prems by (rule inj_on_subset) (auto simp: add_new_def split: if_splits)
  ultimately show ?case using Cons.IH [of "add_new x ys"] by simp
qed simp

lemma find_add_new: "find P (fold add_new xs ys) = (case find P ys of None \<Rightarrow> find P xs | r \<Rightarrow> r)"
proof (induction xs arbitrary: ys)
  case (Cons x xs)
  have "find P (ys @ [x]) = (case find P ys of None \<Rightarrow> if P x then Some x else None | r \<Rightarrow> r)"
    by (induction ys) simp_all
  moreover have "find P ys = None \<Longrightarrow> x \<in> set ys \<Longrightarrow> \<not> P x" by (auto simp: find_None_iff)
  ultimately show ?case using Cons.IH [of "add_new x ys"] by (auto simp: add_new_def split: option.splits)
qed (simp split: option.split)

lemma getAllIPs_map: "\<exists>bs. getAllIPs (Some is) = map ip_string bs \<and> bs = fold add_new (host_ip4s is) []"
proof -
  have "inj_on ip_string (set (host_ip4s is) \<union> set [])"
    using host_ip4s_length by (auto simp: inj_on_def ip_string_4 ip4_string_inject)
  from fold_add_new_map [OF this] show ?thesis by (simp add: getAllIPs_fold)
qed

section \<open>Properties\<close>

text \<open>
  The address a host is advertised under. \<^verbatim>\<open>getAllIPs\<close> lists the IPv4 addresses of the
  interfaces that are up and no loopback, without repetition; the preferred address is the first
  private one among them in the order of the interfaces, else the first of them, else that of a
  socket; and the dashboard shows what the daemon prints, with \<^verbatim>\<open>ZETPROXY_IP\<close> set or not, although
  they have a copy of the code each.
\<close>

lemma advertised_address:
  "distinct (getAllIPs (Some is)) \<and> set (getAllIPs (Some is)) = ip_string ` set (host_ip4s is) \<and>
   getPreferredIP (Some is) udp =
     (case find (\<lambda>b. isPrivateIP (Some b)) (host_ip4s is) of
        Some b \<Rightarrow> ip_string b
      | None \<Rightarrow> (case host_ip4s is of b # _ \<Rightarrow> ip_string b | [] \<Rightarrow> socket_ip udp)) \<and>
   dash_getPreferredIP env (Some is) udp = advertised_ip env (Some is) udp"
proof -
  obtain bs where ips: "getAllIPs (Some is) = map ip_string bs" and bs: "bs = fold add_new (host_ip4s is) []"
    using getAllIPs_map by blast
  have len: "\<forall>b\<in>set bs. length b = 4" using host_ip4s_length by (auto simp: bs add_new_set)
  have pick: "pick_ip (getAllIPs (Some is)) = map_option ip_string (find (\<lambda>b. isPrivateIP (Some b)) (host_ip4s is))"
    unfolding ips pick_ip_find [OF len] by (simp add: bs find_add_new)
  have hd: "(if getAllIPs (Some is) \<noteq> [] then hd (getAllIPs (Some is)) else socket_ip udp) =
      (case host_ip4s is of b # _ \<Rightarrow> ip_string b | [] \<Rightarrow> socket_ip udp)"
  proof (cases "host_ip4s is")
    case (Cons b rest)
    then show ?thesis
      using fold_add_new_hd [of "map ip_string (host_ip4s is)"] add_new_set [of "map ip_string (host_ip4s is)" "[]"]
      by (auto simp: getAllIPs_fold)
  qed (simp add: getAllIPs_fold)
  have "distinct (getAllIPs (Some is))" "set (getAllIPs (Some is)) = ip_string ` set (host_ip4s is)"
    by (simp_all add: getAllIPs_fold add_new_distinct add_new_set)
  then show ?thesis
    using hd by (auto simp: getPreferredIP_def dash_getPreferredIP_def advertised_ip_def pick Let_def split: option.splits)
qed

end
