(* ===== verification/Daemon.thy ===== *)
theory Daemon
  imports Socks5_Proxy Tunnel_Server Ssh_Tunnel Host_Addresses "HOL-Library.Signed_Division"
begin

text \<open>
  \<^verbatim>\<open>cmd/zetproxyd/main.go\<close>: how the daemon reads its configuration from the environment, sizes the
  two servers and chooses a tunnel. Its goroutines, the signal and the shutdown are in
  \<^verbatim>\<open>Lifecycle\<close>; the banner is left out.
\<close>

section \<open>Integers from the environment\<close>

text \<open>
  \<^verbatim>\<open>fmt.Sscanf(v, "%d", &n)\<close>: skips white space other than line feeds, takes a sign and as many
  decimal digits as there are, and ignores what follows; a value beyond 64 bits is an error.
\<close>

definition scan_int :: "string \<Rightarrow> int option" where
  "scan_int v =
     (let s = trim_left (filter (\<lambda>w. w \<noteq> [CHR 0x0A]) go_spaces) v;
          neg = (s \<noteq> [] \<and> hd s = CHR ''-'');
          s = (if s \<noteq> [] \<and> (hd s = CHR ''-'' \<or> hd s = CHR ''+'') then tl s else s);
          ds = takeWhile is_digit s;
          n = (if neg then - int (read_nat ds) else int (read_nat ds))
      in if ds = [] then None
         else if n < - (2 ^ 63) \<or> 2 ^ 63 \<le> n then None
         else Some n)"

definition getEnvInt :: "env \<Rightarrow> string \<Rightarrow> int \<Rightarrow> int" where
  "getEnvInt env key def =
     (if env key \<noteq> [] then
        (case scan_int (env key) of
           None \<Rightarrow> def
         | Some n \<Rightarrow> if 0 < n then n else def)
      else def)"

section \<open>The servers\<close>

text \<open>\<^verbatim>\<open>int32(...)\<close> keeps the low 32 bits, and \<^verbatim>\<open>/\<close> rounds towards zero.\<close>

definition max_conns :: "env \<Rightarrow> i32" where
  "max_conns env = word_of_int (getEnvInt env ''ZETPROXY_MAX_CONNS'' 4096)"

definition half_conns :: "i32 \<Rightarrow> i32" where
  "half_conns m = word_of_int (sint m sdiv 2)"

text \<open>Lines 43 to 58, up to the dashboard; \<^const>\<open>None\<close> is a panic.  The times are those at which the servers are made.\<close>

definition daemon_servers :: "env \<Rightarrow> int \<Rightarrow> int \<Rightarrow> (tun_server \<times> socks_server) option" where
  "daemon_servers env t1 t2 =
     (let tcpAddr = getEnv env ''ZETPROXY_TCP'' '':8888'';
          udpAddr = getEnv env ''ZETPROXY_UDP'' '':8889'';
          socksAddr = getEnv env ''ZETPROXY_SOCKS5'' '':1088'';
          maxConns = max_conns env
      in case tun_SetMaxConns maxConns (NewServer tcpAddr udpAddr t1) of
           None \<Rightarrow> None
         | Some tun \<Rightarrow>
             (case socks_SetMaxConns (half_conns maxConns) (NewSOCKS5Server socksAddr t2) of
                None \<Rightarrow> None
              | Some socks \<Rightarrow> Some (tun, socks)))"

section \<open>The tunnel\<close>

datatype launch = NoTunnel | LaunchRelay string string | NotSupported | LaunchSSH string string

text \<open>\<^verbatim>\<open>socksAddr[1:]\<close>, where \<^verbatim>\<open>getEnv\<close> never gives an empty string.\<close>

definition socks_port_of :: "string \<Rightarrow> string" where
  "socks_port_of socksAddr = (if drop 1 socksAddr = [] then ''1088'' else drop 1 socksAddr)"

definition daemon_tunnel :: "env \<Rightarrow> launch" where
  "daemon_tunnel env =
     (let tunnelMode = env ''ZETPROXY_TUNNEL'';
          socksPort = socks_port_of (getEnv env ''ZETPROXY_SOCKS5'' '':1088'')
      in if tunnelMode \<noteq> [] then
           (case ParseTunnelConfig tunnelMode of
              (mode, remote) \<Rightarrow>
                if mode = ''relay'' then LaunchRelay socksPort remote
                else if mode = ''serveo'' then NotSupported
                else LaunchSSH socksPort remote)
         else NoTunnel)"

text \<open>Lines 134 to 141: under which addresses the servers are said to be reachable.\<close>

definition reachable_via :: "iface list option \<Rightarrow> (string \<times> string) list" where
  "reachable_via ifaces =
     map (\<lambda>ip. (if isTailscaleIP (parse_ip4 ip) then ''TAILSCALE'' else ''LAN'', ip)) (getAllIPs ifaces)"

section \<open>Facts\<close>

lemma getEnvInt_positive: "0 < def \<Longrightarrow> 0 < getEnvInt env key def"
  by (auto simp: getEnvInt_def split: option.split)

lemma sint_i32: "- (2 ^ 31) \<le> k \<Longrightarrow> k < 2 ^ 31 \<Longrightarrow> sint (word_of_int k :: i32) = k"
  by (simp add: signed_of_int signed_take_bit_int_eq_self)

lemma word_of_int_mod32: "(word_of_int (n mod 2 ^ 32) :: i32) = word_of_int n"
  by (simp add: word_of_int_eq_iff take_bit_eq_mod)

lemma sint_mod:
  fixes n :: int
  shows "sint (word_of_int n :: i32) = (if n mod 2 ^ 32 < 2 ^ 31 then n mod 2 ^ 32 else n mod 2 ^ 32 - 2 ^ 32)"
proof -
  let ?k = "n mod 2 ^ 32"
  have k: "0 \<le> ?k" "?k < 2 ^ 32" by simp_all
  have e: "(word_of_int n :: i32) = word_of_int ?k" "(word_of_int n :: i32) = word_of_int (?k - 2 ^ 32)"
    by (simp_all only: word_of_int_eq_iff take_bit_eq_mod) (simp_all add: mod_diff_eq)
  show ?thesis
  proof (cases "?k < 2 ^ 31")
    case True
    with k have "sint (word_of_int ?k :: i32) = ?k" by (intro sint_i32) linarith+
    with True show ?thesis unfolding e(1) by (simp only: if_True)
  next
    case False
    with k have "sint (word_of_int (?k - 2 ^ 32) :: i32) = ?k - 2 ^ 32" by (intro sint_i32) simp_all
    with False show ?thesis unfolding e(2) by (simp only: if_False)
  qed
qed

text \<open>A number in decimal is read back, with white space in front and anything that is no digit behind.\<close>

lemma scan_int_show:
  assumes "n < 2 ^ 63" and "rest = [] \<or> \<not> is_digit (hd rest)"
  shows "scan_int (show_nat n @ rest) = Some (int n)"
proof -
  let ?ws = "filter (\<lambda>w. w \<noteq> [CHR 0x0A]) go_spaces"
  obtain c cs where c: "show_nat n = c # cs" by (cases "show_nat n") auto
  have d: "is_digit c" using show_nat_is_digit [of c n] c by simp
  have "hd w \<noteq> c" if "w \<in> set ?ws" for w using that d by (auto simp: go_spaces_def is_digit_def)
  then have t: "trim_left ?ws (show_nat n @ rest) = show_nat n @ rest"
    using go_spaces_nonempty by (intro trim_left_id) (auto simp: c)
  have s: "c \<noteq> CHR ''-''" "c \<noteq> CHR ''+''" using d by (auto simp: is_digit_def)
  have "takeWhile is_digit (show_nat n @ rest) = show_nat n @ takeWhile is_digit rest"
    using show_nat_is_digit by (intro takeWhile_append2) blast
  also have "takeWhile is_digit rest = []" using assms(2) by (cases rest) auto
  finally have "takeWhile is_digit (show_nat n @ rest) = show_nat n" by simp
  moreover have "int n < 2 ^ 63" using assms(1) by (metis of_nat_less_iff of_nat_numeral of_nat_power)
  ultimately show ?thesis
    using s by (simp add: scan_int_def t Let_def) (simp add: c)
qed

lemma daemon_slots:
  "let n = getEnvInt env ''ZETPROXY_MAX_CONNS'' 4096; k = n mod 2 ^ 32 in
   0 < n \<and>
   (if k < 2 ^ 31 then
      (\<exists>tun socks. daemon_servers env t1 t2 = Some (tun, socks) \<and>
         int (tn_slots tun) = k \<and> int (s_slots socks) = k div 2)
    else daemon_servers env t1 t2 = None)"
proof -
  define n where "n = getEnvInt env ''ZETPROXY_MAX_CONNS'' 4096"
  define k where "k = n mod 2 ^ 32"
  have m: "sint (max_conns env) = (if k < 2 ^ 31 then k else k - 2 ^ 32)"
    by (simp add: max_conns_def sint_mod k_def n_def)
  have k: "0 \<le> k" "k < 2 ^ 32" by (simp_all add: k_def)
  have d: "k sdiv 2 = k div 2" using k(1) by (cases "k = 0") (simp_all add: signed_divide_int_def)
  have h: "k < 2 ^ 31 \<Longrightarrow> sint (half_conns (max_conns env)) = k div 2"
    using k m sint_i32 [of "k div 2"] by (simp add: half_conns_def d)
  have "0 < n" using getEnvInt_positive [of 4096] by (simp add: n_def)
  with m h k have "0 < n \<and>
    (if k < 2 ^ 31 then
       (\<exists>tun socks. daemon_servers env t1 t2 = Some (tun, socks) \<and>
          int (tn_slots tun) = k \<and> int (s_slots socks) = k div 2)
     else daemon_servers env t1 t2 = None)"
    by (simp add: daemon_servers_def tun_SetMaxConns_def socks_SetMaxConns_def Let_def)
  then show ?thesis unfolding Let_def n_def k_def .
qed

section \<open>Properties\<close>

text \<open>
  C31. What becomes of \<^verbatim>\<open>ZETPROXY_MAX_CONNS\<close>. The number read is positive; below 2^31 it is the
  limit of the tunnel as it is, and half of it, rounded down, the limit of the SOCKS5 server: none
  for a limit of one, and one and a half times the number together. Beyond that only the low 32
  bits count: with bit 31 set the daemon panics when it starts, else it runs with what is left,
  which may be zero.
\<close>

theorem daemon_limits:
  "let n = getEnvInt env ''ZETPROXY_MAX_CONNS'' 4096; k = n mod 2 ^ 32 in
   0 < n \<and>
   (if k < 2 ^ 31 then
      (\<exists>tun socks. daemon_servers env t1 t2 = Some (tun, socks) \<and>
         int (tn_slots tun) = k \<and> int (s_slots socks) = k div 2)
    else daemon_servers env t1 t2 = None)"
  by (rule daemon_slots)

text \<open>
  C39. What the daemon starts for each value of \<^verbatim>\<open>ZETPROXY_TUNNEL\<close>, with any white space around it: for
  \<^verbatim>\<open>relay:\<close> and an address the relay client with that address, or the local default for none; for
  \<^verbatim>\<open>serveo\<close>, \<^verbatim>\<open>serveo.net\<close> and \<^verbatim>\<open>serveo:\<close> it only reports that this is not supported; for \<^verbatim>\<open>ssh:\<close> and a
  host \<^verbatim>\<open>ssh\<close> to it, but to \<^verbatim>\<open>serveo.net\<close> if there is neither a dot nor an at sign in it; for \<^verbatim>\<open>localrun\<close>
  \<^verbatim>\<open>ssh\<close> to localhost.run; for anything else \<^verbatim>\<open>ssh\<close>, to the value itself or, again, to \<^verbatim>\<open>serveo.net\<close>.
  A value that is only white space starts \<^verbatim>\<open>ssh\<close> without a host; an empty one starts nothing.
\<close>

theorem tunnel_setting_launches:
  assumes "env ''ZETPROXY_TUNNEL'' = concat bs @ v @ concat cs"
    and "set bs \<subseteq> set go_spaces" and "set cs \<subseteq> set go_spaces"
    and "v \<noteq> [] \<longrightarrow> hd v \<notin> space_first \<and> last v \<notin> space_last"
    and "port = socks_port_of (getEnv env ''ZETPROXY_SOCKS5'' '':1088'')"
  shows "(v = ''relay:'' @ a \<longrightarrow>
      daemon_tunnel env = LaunchRelay port (if a = [] then ''127.0.0.1:7800'' else a)) \<and>
    (v = ''serveo'' \<or> v = ''serveo.net'' \<or> v = ''serveo:'' @ a \<longrightarrow> daemon_tunnel env = NotSupported) \<and>
    (v = ''ssh:'' @ a \<longrightarrow> daemon_tunnel env =
      LaunchSSH port (if CHR ''@'' \<in> set a \<or> CHR ''.'' \<in> set a then a else ''serveo.net'')) \<and>
    (v = ''localrun'' \<longrightarrow> daemon_tunnel env = LaunchSSH port ''nokey@localhost.run'') \<and>
    (v \<notin> {[], ''serveo'', ''serveo.net'', ''localrun''} \<and>
       (\<forall>p\<in>{''relay:'', ''ssh:'', ''serveo:''}. \<not> has_prefix v p) \<longrightarrow> daemon_tunnel env =
      LaunchSSH port (if CHR ''@'' \<in> set v \<or> CHR ''.'' \<in> set v then v else ''serveo.net'')) \<and>
    (v = [] \<longrightarrow> daemon_tunnel env = (if concat (bs @ cs) = [] then NoTunnel else LaunchSSH port []))"
proof (cases "v = []")
  case True
  then have val: "env ''ZETPROXY_TUNNEL'' = concat (bs @ cs)" using assms(1) by simp
  have "ParseTunnelConfig (concat (bs @ cs)) = ([], [])"
    using trim_space_blank [of "bs @ cs"] assms(2,3) by (simp add: ParseTunnelConfig_def)
  with val assms(5) True show ?thesis by (simp add: daemon_tunnel_def Let_def)
next
  case False
  then have ne: "env ''ZETPROXY_TUNNEL'' \<noteq> []" and e: "hd v \<notin> space_first" "last v \<notin> space_last"
    using assms(1,4) by simp_all
  note P = ParseTunnelConfig_padded [OF assms(1-3) False e]
  have d: "daemon_tunnel env = (case ParseTunnelConfig (env ''ZETPROXY_TUNNEL'') of
      (mode, remote) \<Rightarrow> if mode = ''relay'' then LaunchRelay port remote
        else if mode = ''serveo'' then NotSupported else LaunchSSH port remote)"
    using ne unfolding assms(5) by (simp add: daemon_tunnel_def Let_def)
  from P(1) [of a] P(2) [of a] P(3) [of a] P(4-6) False show ?thesis
    unfolding d by (auto simp: split_beta)
qed

theorem tunnel_setting_launches_witness:
  "daemon_tunnel ((\<lambda>k. [])(''ZETPROXY_TUNNEL'' := '' relay:h:1'' @ [CHR 0x0A])) = LaunchRelay ''1088'' ''h:1''"
proof -
  let ?env = "(\<lambda>k. [])(''ZETPROXY_TUNNEL'' := '' relay:h:1'' @ [CHR 0x0A])"
  have "?env ''ZETPROXY_TUNNEL'' = concat ['' ''] @ ''relay:h:1'' @ concat [[CHR 0x0A]]" by simp
  moreover have "socks_port_of (getEnv ?env ''ZETPROXY_SOCKS5'' '':1088'') = ''1088''"
    by (simp add: getEnv_def socks_port_of_def)
  moreover have "hd ''relay:h:1'' \<notin> space_first" "last ''relay:h:1'' \<notin> space_last"
    "set ['' ''] \<subseteq> set go_spaces" "set [[CHR 0x0A]] \<subseteq> set go_spaces"
    by (simp_all add: space_first_def space_last_def go_spaces_def)
  ultimately show ?thesis
    using tunnel_setting_launches [of ?env "['' '']" "''relay:h:1''" "[[CHR 0x0A]]" "''1088''" "''h:1''"] by simp
qed

text \<open>A blank value of \<^verbatim>\<open>ZETPROXY_TUNNEL\<close> starts \<^verbatim>\<open>ssh\<close> with no host.\<close>

lemma blank_tunnel_ssh: "env ''ZETPROXY_TUNNEL'' = '' '' \<Longrightarrow> env ''ZETPROXY_SOCKS5'' = [] \<Longrightarrow> daemon_tunnel env = LaunchSSH ''1088'' []"
proof -
  have "ParseTunnelConfig '' '' = ([], [])" by code_simp
  then show "env ''ZETPROXY_TUNNEL'' = '' '' \<Longrightarrow> env ''ZETPROXY_SOCKS5'' = [] \<Longrightarrow> daemon_tunnel env = LaunchSSH ''1088'' []"
    by (simp add: daemon_tunnel_def getEnv_def socks_port_of_def)
qed

end
