(* ===== verification/Tunnel_Launch.thy ===== *)
theory Tunnel_Launch
  imports Relay_Client Daemon
begin

text \<open>
  The goroutine of \<^verbatim>\<open>main\<close> that starts the tunnel to the outside, two seconds after the daemon, in
  the steps between which the daemon can be stopped: \<^verbatim>\<open>ssh\<close> is a child process for three seconds
  before \<^verbatim>\<open>trySSHRemote\<close> keeps it in \<^verbatim>\<open>tunnelCmd\<close>, and a registered relay tunnel waits for
  \<^verbatim>\<open>tunnelStop\<close>.
\<close>

record world =
  w_env :: env
  w_net :: network
  w_ssh :: "string list \<Rightarrow> ssh_outcome"

datatype tunnel_pc =
    TSleeping                          \<comment> \<open>the first two seconds\<close>
  | TTrying "string list" string       \<comment> \<open>\<open>ssh\<close> has been started, not yet kept; the URL it will have\<close>
  | TRegistered conn                   \<comment> \<open>registered with a relay, the control connection\<close>
  | TOver

record launched =
  la_pc :: tunnel_pc
  la_ssh :: ssh_state

definition launch_init :: launched where
  "launch_init = \<lparr>la_pc = TSleeping, la_ssh = ssh_init\<rparr>"

definition launch_first :: "world \<Rightarrow> ssh_state \<Rightarrow> launched" where
  "launch_first w s =
     (case daemon_tunnel (w_env w) of
        NoTunnel \<Rightarrow> \<lparr>la_pc = TOver, la_ssh = s\<rparr>
      | NotSupported \<Rightarrow> \<lparr>la_pc = TOver, la_ssh = s\<rparr>
      | LaunchRelay port remote \<Rightarrow>
          (let s = s\<lparr>tunnel_stop := OpenChan\<rparr> in
           case StartRelayTunnel (w_net w) remote of
             Registered pid url rest c \<Rightarrow> \<lparr>la_pc = TRegistered c, la_ssh = setTunnelURL url s\<rparr>
           | _ \<Rightarrow> \<lparr>la_pc = TOver, la_ssh = s\<rparr>)
      | LaunchSSH port remote \<Rightarrow>
          (let args = ssh_args (ssh_host remote) port (ssh_port remote port) in
           if w_ssh w args = Runs then
             \<lparr>la_pc = TTrying args (ssh_host remote @ '':'' @ ssh_port remote port), la_ssh = s\<lparr>tunnel_stop := OpenChan\<rparr>\<rparr>
           else \<lparr>la_pc = TOver, la_ssh = snd (StartSSHTunnel (w_ssh w) port remote s)\<rparr>))"

text \<open>Once a relay tunnel is told to stop it closes its control connection and returns.\<close>

definition await_stop :: "launched \<Rightarrow> launched" where
  "await_stop l = (if tunnel_stop (la_ssh l) = ClosedChan then l\<lparr>la_pc := TOver\<rparr> else l)"

text \<open>The goroutine runs to its next point.\<close>

fun launch_step :: "world \<Rightarrow> launched \<Rightarrow> launched" where
  "launch_step w l =
     (case la_pc l of
        TSleeping \<Rightarrow> launch_first w (la_ssh l)
      | TTrying args url \<Rightarrow>
          \<lparr>la_pc = TOver, la_ssh = setTunnelURL url ((la_ssh l)\<lparr>tunnel_cmd := Some args, cmd_killed := False\<rparr>)\<rparr>
      | TRegistered c \<Rightarrow> await_stop l
      | TOver \<Rightarrow> l)"

declare launch_step.simps [simp del]

text \<open>The goroutine that kills the kept process once \<^verbatim>\<open>tunnelStop\<close> is closed.\<close>

definition launch_killer :: "launched \<Rightarrow> launched" where
  "launch_killer l =
     (if tunnel_stop (la_ssh l) = ClosedChan \<and> tunnel_cmd (la_ssh l) \<noteq> None
      then l\<lparr>la_ssh := (la_ssh l)\<lparr>cmd_killed := True\<rparr>\<rparr> else l)"

text \<open>The child process that runs, if any.\<close>

definition ssh_child :: "launched \<Rightarrow> string list option" where
  "ssh_child l =
     (case la_pc l of
        TTrying args _ \<Rightarrow> Some args
      | _ \<Rightarrow> if cmd_killed (la_ssh l) then None else tunnel_cmd (la_ssh l))"

text \<open>Undisturbed, the two steps of \<^verbatim>\<open>ssh\<close> are \<^verbatim>\<open>StartSSHTunnel\<close>.\<close>

lemma launch_is_start:
  assumes "daemon_tunnel (w_env w) = LaunchSSH port remote" and "\<not> cmd_killed (la_ssh l)" and "la_pc l = TSleeping"
  shows "launch_step w (launch_step w l) = \<lparr>la_pc = TOver, la_ssh = snd (StartSSHTunnel (w_ssh w) port remote (la_ssh l))\<rparr>"
  using assms
  by (auto simp: launch_step.simps launch_first_def StartSSHTunnel_once trySSHRemote_def setTunnelURL_def Let_def)

end
