(* ===== verification/Dashboard.thy ===== *)
theory Dashboard
  imports Daemon
begin

text \<open>
  \<^verbatim>\<open>internal/dashboard/dashboard.go\<close>: the history of metrics, which a ticker appends to, and what
  the handlers of the HTTP API answer, as JSON values. The two servers it polls are the models of
  the other theories, threaded through; the environment, the clock and the runtime are parameters.
  The page is a parameter, a string, as is the format of times; listening and the shutdown are in
  \<^verbatim>\<open>Lifecycle\<close>.
\<close>

section \<open>State\<close>

record metric_point =
  mp_timestamp :: int
  mp_bytes_in :: i64
  mp_bytes_out :: i64
  mp_throughput :: rat
  mp_conns :: i32

record dashboard =
  d_addr :: string
  d_start :: int                  \<comment> \<open>in nanoseconds\<close>
  d_metrics :: "metric_point list"
  d_max_metrics :: nat

definition dash_NewServer :: "string \<Rightarrow> int \<Rightarrow> dashboard" where
  "dash_NewServer a now = \<lparr>d_addr = a, d_start = now, d_metrics = [], d_max_metrics = 360\<rparr>"

definition add_metric :: "metric_point \<Rightarrow> dashboard \<Rightarrow> dashboard" where
  "add_metric p d =
     (let ms = d_metrics d @ [p] in
      d\<lparr>d_metrics := (if d_max_metrics d < length ms then drop (length ms - d_max_metrics d) ms else ms)\<rparr>)"

text \<open>What a call finds: the time at which each server is polled and the time after, and what the runtime reports.\<close>

record poll_env =
  p_tun_now :: int
  p_socks_now :: int
  p_now :: int
  p_tun_mem :: mem_stats
  p_socks_mem :: mem_stats
  p_mem :: mem_stats
  p_num_cpu :: int

type_synonym servers = "tun_server \<times> socks_server"

text \<open>
  Two polls, one after the other, each of which no other call overlaps (by \<open>socks_GetStats_solo\<close> and
  \<open>tun_GetStats_solo\<close>). When others do, only the throughput figures and those of the runtime can
  differ: no step of a call writes a counter (\<open>socks_poll_frame\<close>, \<open>tun_poll_frame\<close>).
\<close>

definition poll_stats :: "poll_env \<Rightarrow> servers \<Rightarrow> tun_stats \<times> socks_stats \<times> servers" where
  "poll_stats p sv =
     (let (ts, tun) = tun_GetStats (p_tun_now p) (p_tun_mem p) (fst sv);
          (ss, socks) = socks_GetStats (p_socks_now p) (p_socks_mem p) (snd sv)
      in (ts, ss, tun, socks))"

text \<open>One tick of the collector.\<close>

definition collectMetrics :: "poll_env \<Rightarrow> servers \<times> dashboard \<Rightarrow> servers \<times> dashboard" where
  "collectMetrics p x =
     (let (ts, ss, sv) = poll_stats p (fst x) in
      (sv, add_metric \<lparr>mp_timestamp = p_now p div 1000000000,
         mp_bytes_in = tn_bytes_in ts + s_bytes_in ss,
         mp_bytes_out = tn_bytes_out ts + s_bytes_out ss,
         mp_throughput = tn_throughput_in ts + s_throughput_in ss,
         mp_conns = tn_conns_active ts + s_conns_active ss\<rparr> (snd x)))"

section \<open>The API\<close>

datatype json =
    JNull | JInt int | JNum rat | JStr string | JArr "json list" | JObj "(string \<times> json) list"

text \<open>A slice that nothing was appended to is \<^verbatim>\<open>nil\<close>, which is encoded as \<^verbatim>\<open>null\<close>.\<close>

definition json_strings :: "string list \<Rightarrow> json" where
  "json_strings ss = (if ss = [] then JNull else JArr (map JStr ss))"

text \<open>Seconds since the dashboard was made; \<^verbatim>\<open>float64\<close> is taken as exact.\<close>

definition uptime :: "int \<Rightarrow> dashboard \<Rightarrow> rat" where
  "uptime now d = of_int (now - d_start d) / 1000000000"

definition handleStats ::
  "env \<Rightarrow> iface list option \<Rightarrow> byte list option option \<Rightarrow> ssh_state \<Rightarrow> poll_env \<Rightarrow> servers \<times> dashboard \<Rightarrow> json \<times> servers" where
  "handleStats env ifaces udp tunnel p x =
     (let (ts, ss, sv) = poll_stats p (fst x); m = p_mem p in
      (JObj [(''bytes_in'', JInt (sint (tn_bytes_in ts + s_bytes_in ss))),
         (''bytes_out'', JInt (sint (tn_bytes_out ts + s_bytes_out ss))),
         (''conns_active'', JInt (sint (tn_conns_active ts + s_conns_active ss))),
         (''conns_total'', JInt (sint (tn_conns_total ts + s_conns_total ss))),
         (''conns_rejected'', JInt (sint (tn_conns_rejected ts + s_conns_rejected ss))),
         (''conns_failed'', JInt (sint (tn_conns_failed ts + s_conns_failed ss))),
         (''throughput_in'', JNum (tn_throughput_in ts + s_throughput_in ss)),
         (''throughput_out'', JNum (tn_throughput_out ts + s_throughput_out ss)),
         (''socks_bytes_in'', JInt (sint (s_bytes_in ss))),
         (''socks_bytes_out'', JInt (sint (s_bytes_out ss))),
         (''socks_conns'', JInt (sint (s_conns_active ss))),
         (''socks_total'', JInt (sint (s_conns_total ss))),
         (''socks_failed'', JInt (sint (s_conns_failed ss))),
         (''socks_rejected'', JInt (sint (s_conns_rejected ss))),
         (''tcp_accepts'', JInt (sint (tn_tcp_accepts ts))),
         (''udp_packets'', JInt (sint (tn_udp_packets ts))),
         (''uptime_sec'', JNum (uptime (p_now p) (snd x))),
         (''local_ip'', JStr (dash_getPreferredIP env ifaces udp)),
         (''all_ips'', json_strings (getAllIPs ifaces)),
         (''tunnel_url'', JStr (GetTunnelURL tunnel)),
         (''mem_alloc_mb'', JInt (uint (m_alloc m div 1024 div 1024))),
         (''mem_sys_mb'', JInt (uint (m_sys m div 1024 div 1024))),
         (''num_goroutine'', JInt (sint (m_goroutines m))),
         (''num_cpu'', JInt (p_num_cpu p)),
         (''start_time'', JInt (d_start (snd x) div 1000000000))], sv))"

definition json_metric :: "metric_point \<Rightarrow> json" where
  "json_metric p = JObj [(''t'', JInt (mp_timestamp p)), (''bytes_in'', JInt (sint (mp_bytes_in p))),
     (''bytes_out'', JInt (sint (mp_bytes_out p))), (''throughput'', JNum (mp_throughput p)),
     (''conns'', JInt (sint (mp_conns p)))]"

definition handleMetrics :: "dashboard \<Rightarrow> json" where
  "handleMetrics d = JArr (map json_metric (d_metrics d))"

text \<open>
  The fields of a log entry under the names of their tags. A \<^verbatim>\<open>time.Time\<close> is encoded as a string, in
  the format of RFC 3339 and the local time zone, which is a parameter.
\<close>

definition json_log :: "(int \<Rightarrow> string) \<Rightarrow> conn_log \<Rightarrow> json" where
  "json_log rfc3339 l = JObj [(''timestamp'', JStr (rfc3339 (l_timestamp l))), (''addr'', JStr (l_addr l)),
     (''target'', JStr (l_target l)), (''status'', JStr (l_status l)), (''bytes'', JInt (sint (l_bytes l)))]"

definition handleConnections :: "(int \<Rightarrow> string) \<Rightarrow> servers \<Rightarrow> json" where
  "handleConnections rfc3339 sv = JArr (map (json_log rfc3339) (GetConnLogs (snd sv)))"

definition handleHealth :: "int \<Rightarrow> dashboard \<Rightarrow> json" where
  "handleHealth now d = JObj [(''status'', JStr ''ok''), (''uptime'', JNum (uptime now d)),
     (''timestamp'', JInt (now div 1000000000))]"

definition handleConfig :: "env \<Rightarrow> json" where
  "handleConfig env = JObj [(''socks5_port'', JStr (getEnv env ''ZETPROXY_SOCKS5'' '':1088'')),
     (''tcp_port'', JStr (getEnv env ''ZETPROXY_TCP'' '':8888'')),
     (''udp_port'', JStr (getEnv env ''ZETPROXY_UDP'' '':8889'')),
     (''dashboard_port'', JStr (getEnv env ''ZETPROXY_DASHBOARD'' '':9092'')),
     (''override_ip'', JStr (env ''ZETPROXY_IP'')),
     (''max_conns'', JInt 4096),
     (''version'', JStr ''2.0.0-turbo'')]"

section \<open>Routing\<close>

datatype http_body = Page string | Json json

record http_reply =
  rp_type :: string     \<comment> \<open>\<open>Content-Type\<close>\<close>
  rp_cors :: bool       \<comment> \<open>with \<open>Access-Control-Allow-Origin: *\<close>\<close>
  rp_body :: http_body

definition json_reply :: "bool \<Rightarrow> json \<Rightarrow> http_reply" where
  "json_reply cors j = \<lparr>rp_type = ''application/json'', rp_cors = cors, rp_body = Json j\<rparr>"

definition handleIndex :: "string \<Rightarrow> http_reply" where
  "handleIndex indexHTML = \<lparr>rp_type = ''text/html; charset=utf-8'', rp_cors = False, rp_body = Page indexHTML\<rparr>"

text \<open>
  The handlers behind the multiplexer of \<^verbatim>\<open>Start\<close>, for a path that needs no cleaning: \<^verbatim>\<open>/\<close> takes
  whatever the others do not.
\<close>

definition dash_serve ::
  "string \<Rightarrow> (int \<Rightarrow> string) \<Rightarrow> env \<Rightarrow> iface list option \<Rightarrow> byte list option option \<Rightarrow> ssh_state \<Rightarrow> poll_env \<Rightarrow> string \<Rightarrow>
   servers \<times> dashboard \<Rightarrow> http_reply \<times> servers" where
  "dash_serve indexHTML rfc3339 env ifaces udp tunnel p path x =
     (if path = ''/api/stats'' then
        (let (j, sv) = handleStats env ifaces udp tunnel p x in (json_reply True j, sv))
      else if path = ''/api/metrics'' then (json_reply True (handleMetrics (snd x)), fst x)
      else if path = ''/api/connections'' then (json_reply True (handleConnections rfc3339 (fst x)), fst x)
      else if path = ''/api/health'' then (json_reply False (handleHealth (p_now p) (snd x)), fst x)
      else if path = ''/api/config'' then (json_reply True (handleConfig env), fst x)
      else (handleIndex indexHTML, fst x))"

section \<open>Facts\<close>

interpretation dmetrics: bounded_log add_metric d_metrics d_max_metrics
  by unfold_locales (auto simp: add_metric_def last_n_def Let_def)

text \<open>Polling changes no counter.\<close>

lemma tun_GetStats_counters:
  "fst (tun_GetStats now m s) = tn_stats (snd (tun_GetStats now m s))"
  "tn_bytes_in (tn_stats (snd (tun_GetStats now m s))) = tn_bytes_in (tn_stats s)"
  "tn_bytes_out (tn_stats (snd (tun_GetStats now m s))) = tn_bytes_out (tn_stats s)"
  "tn_conns_active (tn_stats (snd (tun_GetStats now m s))) = tn_conns_active (tn_stats s)"
  by (simp_all add: tun_GetStats_def Let_def)

lemma socks_GetStats_counters:
  "s_bytes_in (fst (socks_GetStats now m s)) = s_bytes_in (s_stats s)"
  "s_bytes_out (fst (socks_GetStats now m s)) = s_bytes_out (s_stats s)"
  "s_conns_active (fst (socks_GetStats now m s)) = s_conns_active (s_stats s)"
  "s_bytes_in (s_stats (snd (socks_GetStats now m s))) = s_bytes_in (s_stats s)"
  "s_bytes_out (s_stats (snd (socks_GetStats now m s))) = s_bytes_out (s_stats s)"
  "s_conns_active (s_stats (snd (socks_GetStats now m s))) = s_conns_active (s_stats s)"
  by (simp_all add: socks_GetStats_def Let_def)

section \<open>Runs\<close>

text \<open>Between the ticks the servers change in any way, other polls of theirs included.\<close>

datatype dash_event = Tick poll_env | Served servers

fun dash_step :: "dash_event \<Rightarrow> servers \<times> dashboard \<Rightarrow> servers \<times> dashboard" where
  "dash_step (Tick p) x = collectMetrics p x"
| "dash_step (Served sv) x = (sv, snd x)"

text \<open>The point that a tick stands for, from the counters of the servers at that moment, and the points of a run.\<close>

definition sample :: "poll_env \<Rightarrow> servers \<Rightarrow> metric_point" where
  "sample p sv =
     (let ts = tn_stats (fst sv); ss = s_stats (snd sv) in
      \<lparr>mp_timestamp = p_now p div 1000000000,
       mp_bytes_in = tn_bytes_in ts + s_bytes_in ss, mp_bytes_out = tn_bytes_out ts + s_bytes_out ss,
       mp_throughput = tn_throughput_in (fst (tun_GetStats (p_tun_now p) (p_tun_mem p) (fst sv))) +
         s_throughput_in (fst (socks_GetStats (p_socks_now p) (p_socks_mem p) (snd sv))),
       mp_conns = tn_conns_active ts + s_conns_active ss\<rparr>)"

fun samples :: "dash_event list \<Rightarrow> servers \<Rightarrow> metric_point list" where
  "samples [] sv = []"
| "samples (Tick p # evs) sv =
     sample p sv # samples evs (snd (tun_GetStats (p_tun_now p) (p_tun_mem p) (fst sv)),
       snd (socks_GetStats (p_socks_now p) (p_socks_mem p) (snd sv)))"
| "samples (Served sv' # evs) sv = samples evs sv'"

lemma collectMetrics_sample:
  "collectMetrics p (sv, d) =
     ((snd (tun_GetStats (p_tun_now p) (p_tun_mem p) (fst sv)), snd (socks_GetStats (p_socks_now p) (p_socks_mem p) (snd sv))),
      add_metric (sample p sv) d)"
  by (simp add: collectMetrics_def poll_stats_def sample_def Let_def tun_GetStats_counters socks_GetStats_counters
      split: prod.split)
    (metis tun_GetStats_counters socks_GetStats_counters fst_conv snd_conv)

lemma dash_run_metrics: "snd (fold dash_step evs (sv, d)) = fold add_metric (samples evs sv) d"
proof (induction evs arbitrary: sv d)
  case (Cons e evs)
  then show ?case by (cases e) (simp_all add: collectMetrics_sample)
qed simp

section \<open>Properties\<close>

text \<open>
  C40. The history of the dashboard is a window on its ticks: whatever the servers do in between,
  \<^verbatim>\<open>/api/metrics\<close> returns the points of the last 360 ticks, in order, each with the sums of the
  two servers' counters at that moment.
\<close>

theorem dashboard_history:
  "handleMetrics (snd (fold dash_step evs (sv, dash_NewServer a t0))) =
     JArr (map json_metric (last_n 360 (samples evs sv)))"
  using dmetrics.fold_add_entries [of "dash_NewServer a t0" "samples evs sv"]
  by (simp add: handleMetrics_def dash_run_metrics dash_NewServer_def)

text \<open>
  A path that is not one of the five gets the page, a misspelt one under \<^verbatim>\<open>/api/\<close> included, and
  only \<^verbatim>\<open>/api/stats\<close> moves the windows of the servers' throughput.
\<close>

lemma dash_serve_page:
  "path \<notin> {''/api/stats'', ''/api/metrics'', ''/api/connections'', ''/api/health'', ''/api/config''} \<Longrightarrow>
    dash_serve page rfc3339 env ifaces udp tunnel p path x = (handleIndex page, fst x)"
  by (simp add: dash_serve_def)

lemma dash_serve_servers:
  "snd (dash_serve page rfc3339 env ifaces udp tunnel p path x) =
    (if path = ''/api/stats'' then snd (snd (poll_stats p (fst x))) else fst x)"
  by (auto simp: dash_serve_def handleStats_def Let_def split: prod.split)

text \<open>
  \<^verbatim>\<open>/api/config\<close> reports a limit of 4096, whatever limit the daemon was given and uses.
\<close>

lemma config_limit_fixed:
  assumes "env ''ZETPROXY_MAX_CONNS'' = show_nat n" and "0 < n" and "n < 2 ^ 31"
  shows "\<exists>tun socks fields. daemon_servers env t1 t2 = Some (tun, socks) \<and> tn_slots tun = n \<and>
    handleConfig env = JObj fields \<and> map_of fields ''max_conns'' = Some (JInt 4096)"
proof -
  have "n < 2 ^ 63" using assms(3) by simp
  from scan_int_show [OF this, of "[]"] have "getEnvInt env ''ZETPROXY_MAX_CONNS'' 4096 = int n"
    using assms(1,2) by (simp add: getEnvInt_def)
  moreover have "int n mod 2 ^ 32 = int n" using assms(3) by simp
  ultimately obtain tun socks where "daemon_servers env t1 t2 = Some (tun, socks)" "int (tn_slots tun) = int n"
    using daemon_slots [of env t1 t2] assms(3) by (auto simp: Let_def)
  then show ?thesis by (simp add: handleConfig_def)
qed

end
