(* ===== verification/Lifecycle.thy ===== *)
theory Lifecycle
  imports Tunnel_Start Tunnel_Launch Dashboard
begin

text \<open>
  The life of the daemon (\<^verbatim>\<open>cmd/zetproxyd/main.go\<close>): \<^verbatim>\<open>Start\<close> and \<^verbatim>\<open>Stop\<close> of the SOCKS5 server, the
  dashboard's HTTP server, the goroutines of \<^verbatim>\<open>main\<close>, the signal and the shutdown. A run is any
  interleaving of the steps of all goroutines, from the moment \<^verbatim>\<open>main\<close> has spawned them and waits
  for a signal; the outcomes of the operating system (whether an address can be listened on, what
  arrives, how long things take) are arguments of the steps. What \<^verbatim>\<open>net/http\<close> does for the
  dashboard is modelled as far as the program uses it: it serves until it is shut down, and then
  returns \<^verbatim>\<open>ErrServerClosed\<close>.
\<close>

section \<open>The SOCKS5 server\<close>

abbreviation socks_sys ::
  "(socks_env \<times> conn) event \<Rightarrow> (socks_server, socks_effect, socks_env \<times> conn) system \<Rightarrow>
   (socks_server, socks_effect, socks_env \<times> conn) system" where
  "socks_sys \<equiv> sys_step socks_admit socks_release socks_act socks_effects"

record socks_proc =
  sp_ctx :: "bool option"          \<comment> \<open>\<^verbatim>\<open>s.cancel\<close>: nil, or whether it has been called\<close>
  sp_acc :: "(socks_server, socks_effect, socks_env \<times> conn) acceptor"

datatype socks_event =
    SocksStart
  | SocksAccept "(socks_env \<times> conn) accept_event"

definition socks_proc_init :: "socks_server \<Rightarrow> socks_proc" where
  "socks_proc_init s = \<lparr>sp_ctx = None, sp_acc = accept_idle s\<rparr>"

text \<open>
  \<^verbatim>\<open>Start\<close> makes \<^verbatim>\<open>s.ctx\<close>, but the loop and the goroutine that closes the listener watch its
  argument \<^verbatim>\<open>ctx\<close>, the outer context.
\<close>

fun socks_step :: "bool \<Rightarrow> socks_event \<Rightarrow> socks_proc \<Rightarrow> socks_proc" where
  "socks_step outer SocksStart p =
     (if ac_pc (sp_acc p) = Unstarted then p\<lparr>sp_ctx := Some False, sp_acc := (sp_acc p)\<lparr>ac_pc := Binding\<rparr>\<rparr> else p)"
| "socks_step outer (SocksAccept ev) p = p\<lparr>sp_acc := accept_step socks_sys outer ev (sp_acc p)\<rparr>"

definition socks_Stop :: "socks_proc \<Rightarrow> socks_proc" where
  "socks_Stop p =
     p\<lparr>sp_ctx := (case sp_ctx p of None \<Rightarrow> None | Some _ \<Rightarrow> Some True),
       sp_acc := (sp_acc p)\<lparr>ac_listener := shut (ac_listener (sp_acc p))\<rparr>\<rparr>"

definition socks_srv :: "socks_proc \<Rightarrow> socks_server" where
  "socks_srv p = server (ac_sys (sp_acc p))"

definition set_socks_srv :: "socks_server \<Rightarrow> socks_proc \<Rightarrow> socks_proc" where
  "set_socks_srv s p = p\<lparr>sp_acc := (sp_acc p)\<lparr>ac_sys := (ac_sys (sp_acc p))\<lparr>server := s\<rparr>\<rparr>\<rparr>"

section \<open>The dashboard\<close>

datatype dash_pc = DUnstarted | DListening | DServing | DReturned string

record dash_proc =
  hp_pc :: dash_pc
  hp_listener :: listener
  hp_shutdown :: bool              \<comment> \<open>\<^verbatim>\<open>Shutdown\<close> has been called on the HTTP server\<close>
  hp_collector :: bool             \<comment> \<open>the goroutine \<^verbatim>\<open>collectMetrics\<close> runs\<close>
  hp_dash :: dashboard

datatype dash_proc_event =
    DashStart
  | DashLoop "unit outcome"
  | DashShutdown                   \<comment> \<open>the goroutine that waits for the context runs\<close>
  | DashCollectorEnds

definition dash_proc_init :: "dashboard \<Rightarrow> dash_proc" where
  "dash_proc_init h = \<lparr>hp_pc = DUnstarted, hp_listener = Unbound, hp_shutdown = False, hp_collector = False, hp_dash = h\<rparr>"

definition server_closed :: string where
  "server_closed = ''http: Server closed''"

text \<open>\<^verbatim>\<open>ListenAndServe\<close> does not listen once the server has been shut down, and never returns \<^verbatim>\<open>nil\<close>.\<close>

fun dash_proc_step :: "bool \<Rightarrow> dash_proc_event \<Rightarrow> dash_proc \<Rightarrow> dash_proc" where
  "dash_proc_step outer DashStart h =
     (if hp_pc h = DUnstarted then h\<lparr>hp_pc := DListening, hp_collector := True\<rparr> else h)"
| "dash_proc_step outer (DashLoop x) h =
     (case hp_pc h of
        DListening \<Rightarrow>
          if hp_shutdown h then h\<lparr>hp_pc := DReturned server_closed\<rparr>
          else (case x of
                  Fails e \<Rightarrow> h\<lparr>hp_pc := DReturned e\<rparr>
                | _ \<Rightarrow> h\<lparr>hp_pc := DServing, hp_listener := Bound\<rparr>)
      | DServing \<Rightarrow>
          if hp_shutdown h then h\<lparr>hp_pc := DReturned server_closed\<rparr>
          else (case x of
                  Fails e \<Rightarrow> h\<lparr>hp_pc := DReturned e, hp_listener := Shut\<rparr>
                | _ \<Rightarrow> h)
      | _ \<Rightarrow> h)"
| "dash_proc_step outer DashShutdown h =
     (if outer \<and> hp_pc h \<noteq> DUnstarted then h\<lparr>hp_shutdown := True, hp_listener := shut (hp_listener h)\<rparr> else h)"
| "dash_proc_step outer DashCollectorEnds h = (if outer then h\<lparr>hp_collector := False\<rparr> else h)"

section \<open>The daemon\<close>

datatype main_pc =
    MWait              \<comment> \<open>waiting for a signal\<close>
  | MStopping          \<comment> \<open>waiting for \<^verbatim>\<open>done\<close> or for ten seconds to pass\<close>
  | MExit bool         \<comment> \<open>the process has ended, with \<^verbatim>\<open>done\<close> closed or not\<close>
  | MCrash             \<comment> \<open>the process has ended by a panic\<close>

text \<open>The goroutine of the shutdown.\<close>

datatype stop_pc = StopIdle | StopTun | StopSocks | StopSsh | StopDone

text \<open>
  A caller of the two servers' \<^verbatim>\<open>GetStats\<close>, first the tunnel's and then the SOCKS5 server's, which the
  dashboard's collector and each request for \<^verbatim>\<open>/api/stats\<close> are. Such a caller goes one step at a
  time, among all else and other callers; what it makes of the results is left out.
\<close>

datatype stats_call = TunCall poll_pc | SocksCall poll_pc | Called

record daemon =
  dm_main :: main_pc
  dm_stop :: stop_pc
  dm_cancelled :: bool             \<comment> \<open>the context of \<^verbatim>\<open>main\<close> is done\<close>
  dm_socks :: socks_proc
  dm_tun :: tun_proc
  dm_dash :: dash_proc
  dm_launch :: launched
  dm_calls :: "stats_call list"    \<comment> \<open>the callers that others may overlap\<close>

datatype daemon_event =
    DSocks socks_event
  | DTun tun_event
  | DTunFails                      \<comment> \<open>the goroutine that called \<^verbatim>\<open>tun.Start\<close> cancels the context\<close>
  | DDash dash_proc_event
  | DTick poll_env                 \<comment> \<open>the dashboard's collector, its calls in one go\<close>
  | DPoll poll_env                 \<comment> \<open>a request for \<^verbatim>\<open>/api/stats\<close>, in one go; it may outlast the listener\<close>
  | DCall                          \<comment> \<open>a caller of \<^verbatim>\<open>GetStats\<close> begins\<close>
  | DCallStep nat int mem_stats    \<comment> \<open>the next step of this one\<close>
  | DLaunch
  | DKiller
  | DSignal
  | DStopper
  | DMain                          \<comment> \<open>\<^verbatim>\<open>main\<close> finds \<^verbatim>\<open>done\<close> closed\<close>
  | DTimeout                       \<comment> \<open>ten seconds of shutdown have passed\<close>

definition daemon_start :: "world \<Rightarrow> int \<Rightarrow> int \<Rightarrow> int \<Rightarrow> daemon option" where
  "daemon_start w t1 t2 t3 =
     (case daemon_servers (w_env w) t1 t2 of
        None \<Rightarrow> None
      | Some (tun, socks) \<Rightarrow>
          Some \<lparr>dm_main = MWait, dm_stop = StopIdle, dm_cancelled = False,
            dm_socks = socks_proc_init socks, dm_tun = tun_proc_init tun,
            dm_dash = dash_proc_init (dash_NewServer (getEnv (w_env w) ''ZETPROXY_DASHBOARD'' '':9092'') t3),
            dm_launch = launch_init, dm_calls = []\<rparr>)"

definition exited :: "daemon \<Rightarrow> bool" where
  "exited d \<longleftrightarrow> dm_main d = MCrash \<or> (\<exists>b. dm_main d = MExit b)"

text \<open>The servers as the dashboard finds and leaves them.\<close>

definition dm_servers :: "daemon \<Rightarrow> servers" where
  "dm_servers d = (tun_srv (dm_tun d), socks_srv (dm_socks d))"

definition put_servers :: "servers \<Rightarrow> daemon \<Rightarrow> daemon" where
  "put_servers sv d = d\<lparr>dm_tun := set_srv (fst sv) (dm_tun d), dm_socks := set_socks_srv (snd sv) (dm_socks d)\<rparr>"

definition call_step :: "nat \<Rightarrow> int \<Rightarrow> mem_stats \<Rightarrow> daemon \<Rightarrow> daemon" where
  "call_step j now m d =
     (case dm_calls d ! j of
        TunCall pc \<Rightarrow>
          (let (pc', s, r) = tun_poll_step now m pc (tun_srv (dm_tun d))
           in d\<lparr>dm_tun := set_srv s (dm_tun d),
                dm_calls := (dm_calls d)[j := if r = None then TunCall pc' else SocksCall GsIdle]\<rparr>)
      | SocksCall pc \<Rightarrow>
          (let (pc', s, r) = socks_poll_step now m pc (socks_srv (dm_socks d))
           in d\<lparr>dm_socks := set_socks_srv s (dm_socks d),
                dm_calls := (dm_calls d)[j := if r = None then SocksCall pc' else Called]\<rparr>)
      | Called \<Rightarrow> d)"

definition stopper :: "daemon \<Rightarrow> daemon" where
  "stopper d =
     (case dm_stop d of
        StopTun \<Rightarrow> d\<lparr>dm_tun := tun_Stop (dm_tun d), dm_stop := StopSocks\<rparr>
      | StopSocks \<Rightarrow> d\<lparr>dm_socks := socks_Stop (dm_socks d), dm_stop := StopSsh\<rparr>
      | StopSsh \<Rightarrow>
          (case StopTunnel (la_ssh (dm_launch d)) of
             None \<Rightarrow> d\<lparr>dm_main := MCrash\<rparr>
           | Some s \<Rightarrow> d\<lparr>dm_launch := (dm_launch d)\<lparr>la_ssh := s\<rparr>, dm_stop := StopDone\<rparr>)
      | _ \<Rightarrow> d)"

fun daemon_act :: "world \<Rightarrow> daemon_event \<Rightarrow> daemon \<Rightarrow> daemon" where
  "daemon_act w (DSocks ev) d = d\<lparr>dm_socks := socks_step (dm_cancelled d) ev (dm_socks d)\<rparr>"
| "daemon_act w (DTun ev) d = d\<lparr>dm_tun := tun_step (dm_cancelled d) ev (dm_tun d)\<rparr>"
| "daemon_act w DTunFails d =
     (case tp_start (dm_tun d) of Returned _ \<Rightarrow> d\<lparr>dm_cancelled := True\<rparr> | _ \<Rightarrow> d)"
| "daemon_act w (DDash ev) d = d\<lparr>dm_dash := dash_proc_step (dm_cancelled d) ev (dm_dash d)\<rparr>"
| "daemon_act w (DTick p) d =
     (if hp_collector (dm_dash d) then
        (let (sv, h) = collectMetrics p (dm_servers d, hp_dash (dm_dash d))
         in put_servers sv (d\<lparr>dm_dash := (dm_dash d)\<lparr>hp_dash := h\<rparr>\<rparr>))
      else d)"
| "daemon_act w (DPoll p) d =
     (if hp_listener (dm_dash d) \<noteq> Unbound then
        (let (ts, ss, sv) = poll_stats p (dm_servers d) in put_servers sv d)
      else d)"
| "daemon_act w DLaunch d = d\<lparr>dm_launch := launch_step w (dm_launch d)\<rparr>"
| "daemon_act w DKiller d = d\<lparr>dm_launch := launch_killer (dm_launch d)\<rparr>"
| "daemon_act w DSignal d =
     (if dm_main d = MWait then d\<lparr>dm_cancelled := True, dm_main := MStopping, dm_stop := StopTun\<rparr> else d)"
| "daemon_act w DStopper d = stopper d"
| "daemon_act w DMain d = (if dm_main d = MStopping \<and> dm_stop d = StopDone then d\<lparr>dm_main := MExit True\<rparr> else d)"
| "daemon_act w DTimeout d = (if dm_main d = MStopping then d\<lparr>dm_main := MExit False\<rparr> else d)"
| "daemon_act w DCall d =
     (if hp_collector (dm_dash d) \<or> hp_listener (dm_dash d) \<noteq> Unbound
      then d\<lparr>dm_calls := dm_calls d @ [TunCall GsIdle]\<rparr> else d)"
| "daemon_act w (DCallStep j now m) d = (if j < length (dm_calls d) then call_step j now m d else d)"

text \<open>Nothing happens in a process that has ended.\<close>

definition daemon_step :: "world \<Rightarrow> daemon_event \<Rightarrow> daemon \<Rightarrow> daemon" where
  "daemon_step w ev d = (if exited d then d else daemon_act w ev d)"

definition daemon_run :: "world \<Rightarrow> daemon_event list \<Rightarrow> daemon \<Rightarrow> daemon" where
  "daemon_run w evs d = fold (daemon_step w) evs d"

end
