(* ===== verification/Shutdown.thy ===== *)
theory Shutdown
  imports Lifecycle
begin

text \<open>
  What holds of every run of the daemon: the invariants of its goroutines, the limits and the
  counters of its servers, and how it stops.
\<close>

section \<open>What a step does to the servers\<close>

lemma set_socks_srv_frame [simp]:
  "sp_ctx (set_socks_srv s p) = sp_ctx p" "ac_pc (sp_acc (set_socks_srv s p)) = ac_pc (sp_acc p)"
  "ac_listener (sp_acc (set_socks_srv s p)) = ac_listener (sp_acc p)"
  "running (ac_sys (sp_acc (set_socks_srv s p))) = running (ac_sys (sp_acc p))"
  "served (ac_sys (sp_acc (set_socks_srv s p))) = served (ac_sys (sp_acc p))"
  "server (ac_sys (sp_acc (set_socks_srv s p))) = s"
  "accept_wf (sp_acc (set_socks_srv s p)) = accept_wf (sp_acc p)"
  "accept_rank (sp_acc (set_socks_srv s p)) = accept_rank (sp_acc p)"
  by (simp_all add: set_socks_srv_def accept_wf_def accept_rank_def)

lemma put_servers_frame [simp]:
  "dm_main (put_servers sv d) = dm_main d" "dm_stop (put_servers sv d) = dm_stop d"
  "dm_cancelled (put_servers sv d) = dm_cancelled d" "dm_dash (put_servers sv d) = dm_dash d"
  "dm_launch (put_servers sv d) = dm_launch d"
  "dm_tun (put_servers sv d) = set_srv (fst sv) (dm_tun d)"
  "dm_socks (put_servers sv d) = set_socks_srv (snd sv) (dm_socks d)"
  by (simp_all add: put_servers_def)

lemma polled_servers:
  "fst (snd (snd (poll_stats p sv))) = snd (tun_GetStats (p_tun_now p) (p_tun_mem p) (fst sv))"
  "snd (snd (snd (poll_stats p sv))) = snd (socks_GetStats (p_socks_now p) (p_socks_mem p) (snd sv))"
  "fst (collectMetrics p (sv, h)) = snd (snd (poll_stats p sv))"
  by (simp_all add: poll_stats_def collectMetrics_def Let_def split: prod.split)

lemma daemon_tick:
  "daemon_act w (DTick p) d =
     (if hp_collector (dm_dash d) then
        put_servers (snd (snd (poll_stats p (dm_servers d))))
          (d\<lparr>dm_dash := (dm_dash d)\<lparr>hp_dash := snd (collectMetrics p (dm_servers d, hp_dash (dm_dash d)))\<rparr>\<rparr>)
      else d)"
proof -
  have "fst (collectMetrics p (dm_servers d, hp_dash (dm_dash d))) = snd (snd (poll_stats p (dm_servers d)))"
    by (rule polled_servers(3))
  then show ?thesis by (cases "collectMetrics p (dm_servers d, hp_dash (dm_dash d))") (simp only: daemon_act.simps prod.case fst_conv snd_conv Let_def)
qed

lemma daemon_poll:
  "daemon_act w (DPoll p) d =
     (if hp_listener (dm_dash d) \<noteq> Unbound then put_servers (snd (snd (poll_stats p (dm_servers d)))) d else d)"
  by (simp split: prod.split)

declare daemon_act.simps(5,6) [simp del]

text \<open>What a call of \<^verbatim>\<open>GetStats\<close>, whole or in steps, leaves of the servers as it was.\<close>

definition same_tun_counts :: "tun_server \<Rightarrow> tun_server \<Rightarrow> bool" where
  "same_tun_counts s s' \<longleftrightarrow> tn_sem s' = tn_sem s \<and> tn_slots s' = tn_slots s \<and>
     tn_conns_active (tn_stats s') = tn_conns_active (tn_stats s) \<and>
     tn_conns_total (tn_stats s') = tn_conns_total (tn_stats s) \<and>
     tn_tcp_accepts (tn_stats s') = tn_tcp_accepts (tn_stats s)"

definition same_socks_counts :: "socks_server \<Rightarrow> socks_server \<Rightarrow> bool" where
  "same_socks_counts s s' \<longleftrightarrow> s_sem s' = s_sem s \<and> s_slots s' = s_slots s \<and>
     s_conns_active (s_stats s') = s_conns_active (s_stats s) \<and>
     s_conns_total (s_stats s') = s_conns_total (s_stats s)"

lemma polls_same_counts:
  "same_tun_counts s (snd (tun_GetStats now m s))"
  "same_socks_counts t (snd (socks_GetStats now m t))"
  "same_tun_counts s (fst (snd (tun_poll_step now m pc s)))"
  "same_socks_counts t (fst (snd (socks_poll_step now m pc t)))"
  by (simp_all add: same_tun_counts_def same_socks_counts_def tun_GetStats_def socks_GetStats_def Let_def
      tun_poll_frame socks_poll_frame)

lemma polled_same_counts:
  "\<exists>s. same_tun_counts (tun_srv p) s \<and> set_srv (snd (tun_GetStats now m (tun_srv p))) p = set_srv s p"
  "\<exists>s. same_socks_counts (socks_srv q) s \<and> set_socks_srv (snd (socks_GetStats now m (socks_srv q))) q = set_socks_srv s q"
  using polls_same_counts(1,2) by blast+

lemma call_step_frame [simp]:
  "dm_main (call_step j now m d) = dm_main d" "dm_stop (call_step j now m d) = dm_stop d"
  "dm_cancelled (call_step j now m d) = dm_cancelled d" "dm_dash (call_step j now m d) = dm_dash d"
  "dm_launch (call_step j now m d) = dm_launch d"
  by (cases "dm_calls d ! j"; simp add: call_step_def Let_def split: prod.split)+

lemma call_step_servers:
  "dm_tun (call_step j now m d) = dm_tun d \<or>
   (\<exists>s. same_tun_counts (tun_srv (dm_tun d)) s \<and> dm_tun (call_step j now m d) = set_srv s (dm_tun d))"
  "dm_socks (call_step j now m d) = dm_socks d \<or>
   (\<exists>s. same_socks_counts (socks_srv (dm_socks d)) s \<and> dm_socks (call_step j now m d) = set_socks_srv s (dm_socks d))"
proof -
  show "dm_tun (call_step j now m d) = dm_tun d \<or>
    (\<exists>s. same_tun_counts (tun_srv (dm_tun d)) s \<and> dm_tun (call_step j now m d) = set_srv s (dm_tun d))"
  proof (cases "dm_calls d ! j")
    case (TunCall pc)
    with polls_same_counts(3) [of "tun_srv (dm_tun d)" now m pc] show ?thesis
      by (auto simp: call_step_def split: prod.split)
  qed (simp_all add: call_step_def split: prod.split)
  show "dm_socks (call_step j now m d) = dm_socks d \<or>
    (\<exists>s. same_socks_counts (socks_srv (dm_socks d)) s \<and> dm_socks (call_step j now m d) = set_socks_srv s (dm_socks d))"
  proof (cases "dm_calls d ! j")
    case (SocksCall pc)
    with polls_same_counts(4) [of "socks_srv (dm_socks d)" now m pc] show ?thesis
      by (auto simp: call_step_def split: prod.split)
  qed (simp_all add: call_step_def split: prod.split)
qed

lemma daemon_tun_cases:
  "dm_tun (daemon_act w ev d) = dm_tun d \<or>
   (\<exists>e. ev = DTun e \<and> dm_tun (daemon_act w ev d) = tun_step (dm_cancelled d) e (dm_tun d)) \<or>
   dm_tun (daemon_act w ev d) = tun_Stop (dm_tun d) \<or>
   (\<exists>s. same_tun_counts (tun_srv (dm_tun d)) s \<and> dm_tun (daemon_act w ev d) = set_srv s (dm_tun d))"
proof (cases ev)
  case (DTick p)
  then show ?thesis
    by (cases "hp_collector (dm_dash d)") (simp_all add: daemon_tick polled_servers dm_servers_def polled_same_counts)
next
  case (DPoll p)
  then show ?thesis
    by (cases "hp_pc (dm_dash d) = DServing") (simp_all add: daemon_poll polled_servers dm_servers_def polled_same_counts)
next
  case DStopper
  then show ?thesis by (cases "dm_stop d") (simp_all add: stopper_def split: option.split)
next
  case DTunFails
  then show ?thesis by (cases "tp_start (dm_tun d)") simp_all
next
  case (DCallStep j now m)
  then show ?thesis using call_step_servers(1) [of j now m d] by auto
qed simp_all

lemma daemon_socks_cases:
  "dm_socks (daemon_act w ev d) = dm_socks d \<or>
   (\<exists>e. ev = DSocks e \<and> dm_socks (daemon_act w ev d) = socks_step (dm_cancelled d) e (dm_socks d)) \<or>
   dm_socks (daemon_act w ev d) = socks_Stop (dm_socks d) \<or>
   (\<exists>s. same_socks_counts (socks_srv (dm_socks d)) s \<and> dm_socks (daemon_act w ev d) = set_socks_srv s (dm_socks d))"
proof (cases ev)
  case (DTick p)
  then show ?thesis
    by (cases "hp_collector (dm_dash d)") (simp_all add: daemon_tick polled_servers dm_servers_def polled_same_counts)
next
  case (DPoll p)
  then show ?thesis
    by (cases "hp_pc (dm_dash d) = DServing") (simp_all add: daemon_poll polled_servers dm_servers_def polled_same_counts)
next
  case DStopper
  then show ?thesis by (cases "dm_stop d") (simp_all add: stopper_def split: option.split)
next
  case DTunFails
  then show ?thesis by (cases "tp_start (dm_tun d)") simp_all
next
  case (DCallStep j now m)
  then show ?thesis using call_step_servers(2) [of j now m d] by auto
qed simp_all

lemma daemon_dash_cases:
  "hp_pc (dm_dash (daemon_act w ev d)) = hp_pc (dm_dash d) \<and>
   hp_listener (dm_dash (daemon_act w ev d)) = hp_listener (dm_dash d) \<and>
   hp_shutdown (dm_dash (daemon_act w ev d)) = hp_shutdown (dm_dash d) \<or>
   (\<exists>e. ev = DDash e \<and> dm_dash (daemon_act w ev d) = dash_proc_step (dm_cancelled d) e (dm_dash d))"
proof (cases ev)
  case DStopper
  then show ?thesis by (cases "dm_stop d") (simp_all add: stopper_def split: option.split)
next
  case DTunFails
  then show ?thesis by (cases "tp_start (dm_tun d)") simp_all
qed (simp_all add: daemon_tick daemon_poll)

section \<open>The invariant\<close>

definition dash_wf :: "dash_proc \<Rightarrow> bool" where
  "dash_wf h \<longleftrightarrow>
     (hp_pc h = DUnstarted \<or> hp_pc h = DListening \<longrightarrow> hp_listener h = Unbound) \<and>
     (hp_pc h = DServing \<longrightarrow> hp_listener h = (if hp_shutdown h then Shut else Bound)) \<and>
     (\<forall>e. hp_pc h = DReturned e \<longrightarrow> hp_listener h \<noteq> Bound)"

definition daemon_wf :: "daemon \<Rightarrow> bool" where
  "daemon_wf d \<longleftrightarrow> tun_wf (dm_tun d) \<and> accept_wf (sp_acc (dm_socks d)) \<and> dash_wf (dm_dash d) \<and>
     (dm_main d = MWait \<longleftrightarrow> dm_stop d = StopIdle) \<and> (dm_main d \<noteq> MWait \<longrightarrow> dm_cancelled d) \<and>
     dm_main d \<noteq> MCrash \<and> (dm_stop d \<noteq> StopDone \<longrightarrow> tunnel_stop (la_ssh (dm_launch d)) \<noteq> ClosedChan)"

lemma accept_wf_shut [simp]: "accept_wf (a\<lparr>ac_listener := shut (ac_listener a)\<rparr>) = accept_wf a"
  by (auto simp: accept_wf_def shut_def)

lemma socks_wf_step: "accept_wf (sp_acc p) \<Longrightarrow> accept_wf (sp_acc (socks_step outer ev p))"
  by (cases ev) (auto simp: accept_wf_step simp del: accept_step.simps, auto simp: accept_wf_def unbound_at_def)

lemma dash_wf_step: "dash_wf h \<Longrightarrow> dash_wf (dash_proc_step outer ev h)"
  by (cases "(outer, ev, h)" rule: dash_proc_step.cases)
    (auto simp: dash_wf_def shut_def split: dash_pc.splits outcome.splits)

lemma launch_stop_step:
  "tunnel_stop (la_ssh l) \<noteq> ClosedChan \<Longrightarrow> tunnel_stop (la_ssh (launch_step w l)) \<noteq> ClosedChan"
proof -
  have "tunnel_stop (snd (StartSSHTunnel ssh port remote s)) = OpenChan" for ssh port remote s
    by (auto simp: StartSSHTunnel_once trySSHRemote_def setTunnelURL_def Let_def split: ssh_outcome.split)
  then show "tunnel_stop (la_ssh l) \<noteq> ClosedChan \<Longrightarrow> ?thesis"
    by (auto simp: launch_step.simps await_stop_def launch_first_def setTunnelURL_def Let_def
        split: tunnel_pc.split launch.split registration.split)
qed

lemma daemon_wf_act:
  assumes "daemon_wf d"
  shows "daemon_wf (daemon_act w ev d)"
proof -
  let ?e = "daemon_act w ev d"
  have 1: "tun_wf (dm_tun ?e)"
    using daemon_tun_cases [of w ev d] assms
    by (elim disjE exE conjE) (simp_all only: daemon_wf_def tun_wf_step tun_wf_stop tun_wf_srv)
  have 2: "accept_wf (sp_acc (dm_socks ?e))"
    using daemon_socks_cases [of w ev d] assms
    by (elim disjE exE conjE) (simp_all add: daemon_wf_def socks_wf_step socks_Stop_def del: socks_step.simps daemon_act.simps)
  have 3: "dash_wf (dm_dash ?e)"
    using daemon_dash_cases [of w ev d] assms
    by (elim disjE exE conjE) (simp_all add: daemon_wf_def dash_wf_def [of "dm_dash ?e"] dash_wf_step del: dash_proc_step.simps daemon_act.simps,
      simp add: dash_wf_def)
  have "(dm_main ?e = MWait \<longleftrightarrow> dm_stop ?e = StopIdle) \<and> (dm_main ?e \<noteq> MWait \<longrightarrow> dm_cancelled ?e) \<and>
     dm_main ?e \<noteq> MCrash \<and> (dm_stop ?e \<noteq> StopDone \<longrightarrow> tunnel_stop (la_ssh (dm_launch ?e)) \<noteq> ClosedChan)"
  proof (cases ev)
    case DStopper
    with assms show ?thesis
      by (cases "dm_stop d"; cases "tunnel_stop (la_ssh (dm_launch d))")
        (auto simp: stopper_def daemon_wf_def StopTunnel_def Let_def)
  next
    case DLaunch
    with assms show ?thesis by (auto simp: daemon_wf_def launch_stop_step)
  next
    case DKiller
    with assms show ?thesis by (auto simp: daemon_wf_def launch_killer_def)
  qed (use assms in \<open>auto simp: daemon_wf_def daemon_tick daemon_poll split: start_pc.split\<close>)
  with 1 2 3 show ?thesis by (simp add: daemon_wf_def)
qed

lemma daemon_wf_step: "daemon_wf d \<Longrightarrow> daemon_wf (daemon_step w ev d)"
  by (simp add: daemon_step_def daemon_wf_act del: daemon_act.simps)

interpretation daemon_inv: step_invariant "daemon_step w" daemon_wf for w
  by unfold_locales (rule daemon_wf_step)

lemma daemon_wf_start: "daemon_start w t1 t2 t3 = Some d \<Longrightarrow> daemon_wf d"
  by (auto simp: daemon_start_def daemon_wf_def socks_proc_init_def dash_wf_def dash_proc_init_def launch_init_def ssh_init_def
      split: option.splits)

lemma daemon_wf_run: "daemon_start w t1 t2 t3 = Some d \<Longrightarrow> daemon_wf (daemon_run w evs d)"
  unfolding daemon_run_def by (rule daemon_inv.run_inv [OF daemon_wf_start])

section \<open>How the goroutines end\<close>

text \<open>
  Each goroutine has a rank, which is zero once it has ended or the process has: the loops of the
  servers by the ranks of their states, the dashboard by how far it is from returning, \<^verbatim>\<open>main\<close> by
  what is left of the shutdown.
\<close>

definition cancelling :: "daemon \<Rightarrow> bool" where
  "cancelling d \<longleftrightarrow> daemon_wf d \<and> dm_cancelled d"

definition alive :: "(daemon \<Rightarrow> nat) \<Rightarrow> daemon \<Rightarrow> nat" where
  "alive f d = (if exited d then 0 else f d)"

lemma cancelled_act: "dm_cancelled d \<Longrightarrow> dm_cancelled (daemon_act w ev d)"
  by (cases ev) (auto simp: stopper_def daemon_tick daemon_poll split: stop_pc.split start_pc.split option.split)

lemma cancelling_step: "cancelling d \<Longrightarrow> cancelling (daemon_step w ev d)"
  using daemon_wf_step [of d w ev] cancelled_act [of d w ev]
  by (auto simp: cancelling_def daemon_step_def simp del: daemon_act.simps)

lemma alive_step:
  assumes "\<not> exited d \<Longrightarrow> f (daemon_act w ev d) \<le> f d"
  shows "alive f (daemon_step w ev d) \<le> alive f d"
  using assms by (auto simp: alive_def daemon_step_def simp del: daemon_act.simps)

lemma alive_helps:
  assumes "alive f d \<noteq> 0" and "\<not> exited d \<Longrightarrow> f (daemon_act w ev d) < f d"
  shows "alive f (daemon_step w ev d) < alive f d"
  using assms by (auto simp: alive_def daemon_step_def simp del: daemon_act.simps split: if_splits)

subsection \<open>The tunnel\<close>

lemma stop_rank:
  "accept_rank (tp_tcp (tun_Stop p)) \<le> accept_rank (tp_tcp p)" "udp_rank (tp_udp (tun_Stop p)) \<le> udp_rank (tp_udp p)"
  by (cases "ac_pc (tp_tcp p)"; cases "ac_listener (tp_tcp p)"; simp add: tun_Stop_def accept_rank_def shut_def)
    (cases "ul_pc (tp_udp p)"; cases "ul_sock (tp_udp p)"; simp add: tun_Stop_def udp_rank_def shut_def)

lemma tun_cancelling: "cancelling d \<Longrightarrow> stopping True (dm_tun d)"
  by (simp add: cancelling_def daemon_wf_def stopping_def tun_done_def)

lemma tun_rank_act:
  assumes "cancelling d" and "\<And>p ev. stopping True p \<Longrightarrow> f (tun_step True ev p) \<le> f p"
    and "\<And>p. f (tun_Stop p) \<le> f p" and "\<And>s p. f (set_srv s p) = f p"
  shows "f (dm_tun (daemon_act w ev d)) \<le> (f (dm_tun d) :: nat)"
proof -
  have "dm_cancelled d" using assms(1) by (simp add: cancelling_def)
  with daemon_tun_cases [of w ev d] assms(2) [OF tun_cancelling [OF assms(1)]] assms(3,4) show ?thesis
    by (elim disjE exE conjE) (simp_all only: order_refl)
qed

lemma dtun_act: "dm_cancelled d \<Longrightarrow> dm_tun (daemon_act w (DTun e) d) = tun_step True e (dm_tun d)"
  by simp

interpretation tcp_ends: fair_rounds "daemon_step w" cancelling "alive (\<lambda>d. accept_rank (tp_tcp (dm_tun d)))"
  "\<lambda>n. DTun ` tcp_help n" for w
proof unfold_locales
  fix d ev
  assume c: "cancelling d"
  then show "cancelling (daemon_step w ev d)" by (rule cancelling_step)
  show "alive (\<lambda>d. accept_rank (tp_tcp (dm_tun d))) (daemon_step w ev d) \<le> alive (\<lambda>d. accept_rank (tp_tcp (dm_tun d))) d"
    by (rule alive_step, rule tun_rank_act [OF c]) (simp_all add: tcp_rounds.descent_step stop_rank)
  assume n: "alive (\<lambda>d. accept_rank (tp_tcp (dm_tun d))) d \<noteq> 0"
    and ev: "ev \<in> DTun ` tcp_help (alive (\<lambda>d. accept_rank (tp_tcp (dm_tun d))) d)"
  have "accept_rank (tp_tcp (dm_tun (daemon_act w ev d))) < accept_rank (tp_tcp (dm_tun d))" if "\<not> exited d"
    using ev n that tcp_rounds.descent_help [OF tun_cancelling [OF c]] c
    by (auto simp: alive_def dtun_act cancelling_def simp del: daemon_act.simps tun_step.simps)
  then show "alive (\<lambda>d. accept_rank (tp_tcp (dm_tun d))) (daemon_step w ev d) < alive (\<lambda>d. accept_rank (tp_tcp (dm_tun d))) d"
    by (rule alive_helps [OF n])
qed

interpretation udp_ends: fair_rounds "daemon_step w" cancelling "alive (\<lambda>d. udp_rank (tp_udp (dm_tun d)))"
  "\<lambda>n. DTun ` udp_help n" for w
proof unfold_locales
  fix d ev
  assume c: "cancelling d"
  show "alive (\<lambda>d. udp_rank (tp_udp (dm_tun d))) (daemon_step w ev d) \<le> alive (\<lambda>d. udp_rank (tp_udp (dm_tun d))) d"
    by (rule alive_step, rule tun_rank_act [OF c]) (simp_all add: udp_rounds.descent_step stop_rank)
  assume n: "alive (\<lambda>d. udp_rank (tp_udp (dm_tun d))) d \<noteq> 0"
    and ev: "ev \<in> DTun ` udp_help (alive (\<lambda>d. udp_rank (tp_udp (dm_tun d))) d)"
  have "udp_rank (tp_udp (dm_tun (daemon_act w ev d))) < udp_rank (tp_udp (dm_tun d))" if "\<not> exited d"
    using ev n that udp_rounds.descent_help [OF tun_cancelling [OF c]] c
    by (auto simp: alive_def dtun_act cancelling_def simp del: daemon_act.simps tun_step.simps)
  then show "alive (\<lambda>d. udp_rank (tp_udp (dm_tun d))) (daemon_step w ev d) < alive (\<lambda>d. udp_rank (tp_udp (dm_tun d))) d"
    by (rule alive_helps [OF n])
qed (rule cancelling_step)

subsection \<open>The SOCKS5 server\<close>

definition socks_help :: "nat \<Rightarrow> daemon_event set" where
  "socks_help n =
     (if n = 7 then {DSocks SocksStart}
      else if n \<in> {1, 5} then {DSocks (SocksAccept Closer)}
      else range (\<lambda>x. DSocks (SocksAccept (Loop x))))"

lemma socks_rank_step:
  assumes "accept_wf (sp_acc p)"
  shows "accept_rank (sp_acc (socks_step True ev p)) \<le> accept_rank (sp_acc p)"
  using accept_rank_step [OF assms, of socks_sys] by (cases ev) (simp_all add: accept_rank_def)

lemma socks_rank_stop: "accept_rank (sp_acc (socks_Stop p)) \<le> accept_rank (sp_acc p)"
  by (cases "ac_pc (sp_acc p)"; cases "ac_listener (sp_acc p)") (simp_all add: socks_Stop_def accept_rank_def shut_def)

interpretation socks_ends: fair_rounds "daemon_step w" cancelling "alive (\<lambda>d. accept_rank (sp_acc (dm_socks d)))" socks_help for w
proof unfold_locales
  fix d ev
  assume c: "cancelling d"
  then have w: "accept_wf (sp_acc (dm_socks d))" "dm_cancelled d" by (simp_all add: cancelling_def daemon_wf_def)
  have "accept_rank (sp_acc (dm_socks (daemon_act w ev d))) \<le> accept_rank (sp_acc (dm_socks d))"
    using daemon_socks_cases [of w ev d] socks_rank_step [OF w(1)] socks_rank_stop w(2)
    by (elim disjE exE conjE) (simp_all only: order_refl set_socks_srv_frame)
  then show "alive (\<lambda>d. accept_rank (sp_acc (dm_socks d))) (daemon_step w ev d) \<le> alive (\<lambda>d. accept_rank (sp_acc (dm_socks d))) d"
    by (rule alive_step)
  assume n: "alive (\<lambda>d. accept_rank (sp_acc (dm_socks d))) d \<noteq> 0"
    and ev: "ev \<in> socks_help (alive (\<lambda>d. accept_rank (sp_acc (dm_socks d))) d)"
  have "accept_rank (sp_acc (dm_socks (daemon_act w ev d))) < accept_rank (sp_acc (dm_socks d))" if "\<not> exited d"
    using ev that w n accept_rank_eq [OF w(1)] accept_rank_closer [OF w(1)] accept_rank_loop [OF w(1)]
      other_ranks [OF accept_rank_le, of "sp_acc (dm_socks d)"]
    by (auto simp: alive_def socks_help_def accept_rank_def simp del: accept_step.simps split: if_splits)
  then show "alive (\<lambda>d. accept_rank (sp_acc (dm_socks d))) (daemon_step w ev d) < alive (\<lambda>d. accept_rank (sp_acc (dm_socks d))) d"
    by (rule alive_helps [OF n])
qed (rule cancelling_step)

subsection \<open>The dashboard\<close>

fun dash_pc_rank :: "dash_pc \<Rightarrow> bool \<Rightarrow> nat" where
  "dash_pc_rank DUnstarted _ = 4"
| "dash_pc_rank DListening _ = 3"
| "dash_pc_rank DServing False = 2"
| "dash_pc_rank DServing True = 1"
| "dash_pc_rank (DReturned _) _ = 0"

definition dash_rank :: "dash_proc \<Rightarrow> nat" where
  "dash_rank h = dash_pc_rank (hp_pc h) (hp_shutdown h)"

definition dash_help :: "nat \<Rightarrow> daemon_event set" where
  "dash_help n =
     (if n = 4 then {DDash DashStart} else if n = 2 then {DDash DashShutdown} else range (\<lambda>x. DDash (DashLoop x)))"

lemma dash_rank_step: "dash_rank (dash_proc_step outer ev h) \<le> dash_rank h"
  by (cases "(outer, ev, h)" rule: dash_proc_step.cases; cases "hp_pc h"; cases "hp_shutdown h")
    (auto simp: dash_rank_def split: outcome.split)

lemma dash_rank_cases:
  "hp_pc h = DUnstarted \<and> dash_rank h = 4 \<or> hp_pc h = DListening \<and> dash_rank h = 3 \<or>
   hp_pc h = DServing \<and> \<not> hp_shutdown h \<and> dash_rank h = 2 \<or> hp_pc h = DServing \<and> hp_shutdown h \<and> dash_rank h = 1 \<or>
   (\<exists>e. hp_pc h = DReturned e) \<and> dash_rank h = 0"
  by (cases "hp_pc h"; cases "hp_shutdown h") (simp_all add: dash_rank_def)

interpretation dash_ends: fair_rounds "daemon_step w" cancelling "alive (\<lambda>d. dash_rank (dm_dash d))" dash_help for w
proof unfold_locales
  fix d ev
  assume c: "cancelling d"
  have "dash_rank (dm_dash (daemon_act w ev d)) \<le> dash_rank (dm_dash d)"
    using daemon_dash_cases [of w ev d]
    by (elim disjE exE conjE) (simp add: dash_rank_def del: daemon_act.simps, simp only: dash_rank_step)
  then show "alive (\<lambda>d. dash_rank (dm_dash d)) (daemon_step w ev d) \<le> alive (\<lambda>d. dash_rank (dm_dash d)) d"
    by (rule alive_step)
  assume n: "alive (\<lambda>d. dash_rank (dm_dash d)) d \<noteq> 0" and ev: "ev \<in> dash_help (alive (\<lambda>d. dash_rank (dm_dash d)) d)"
  have "dash_rank (dm_dash (daemon_act w ev d)) < dash_rank (dm_dash d)" if "\<not> exited d"
    using ev that n c dash_rank_cases [of "dm_dash d"]
    by (auto simp: alive_def dash_help_def cancelling_def dash_rank_def split: outcome.splits)
  then show "alive (\<lambda>d. dash_rank (dm_dash d)) (daemon_step w ev d) < alive (\<lambda>d. dash_rank (dm_dash d)) d"
    by (rule alive_helps [OF n])
qed (rule cancelling_step)

subsection \<open>The shutdown\<close>

text \<open>What is left of the shutdown once the signal has come.\<close>

fun stop_rank_of :: "stop_pc \<Rightarrow> nat" where
  "stop_rank_of StopTun = 4"
| "stop_rank_of StopSocks = 3"
| "stop_rank_of StopSsh = 2"
| "stop_rank_of StopDone = 1"
| "stop_rank_of StopIdle = 0"

definition main_help :: "nat \<Rightarrow> daemon_event set" where
  "main_help n = (if n = 1 then {DMain} else {DStopper})"

definition signalled :: "daemon \<Rightarrow> bool" where
  "signalled d \<longleftrightarrow> daemon_wf d \<and> dm_main d \<noteq> MWait"

lemma main_act:
  "dm_main d \<noteq> MWait \<Longrightarrow> dm_main (daemon_act w ev d) \<noteq> MWait"
  "dm_main d \<noteq> MWait \<Longrightarrow> stop_rank_of (dm_stop (daemon_act w ev d)) \<le> stop_rank_of (dm_stop d)"
  by (cases ev; cases "dm_stop d"; auto simp: stopper_def daemon_tick daemon_poll split: start_pc.split option.split)+

lemma not_exited: "signalled d \<Longrightarrow> \<not> exited d \<longleftrightarrow> dm_main d = MStopping"
  by (cases "dm_main d") (auto simp: signalled_def exited_def daemon_wf_def)

interpretation main_ends: fair_rounds "daemon_step w" signalled "alive (\<lambda>d. stop_rank_of (dm_stop d))" main_help for w
proof unfold_locales
  fix d ev
  assume c: "signalled d"
  show "signalled (daemon_step w ev d)"
    using c daemon_wf_step [of d w ev] main_act(1) [of d w ev] by (auto simp: signalled_def daemon_step_def simp del: daemon_act.simps)
  show "alive (\<lambda>d. stop_rank_of (dm_stop d)) (daemon_step w ev d) \<le> alive (\<lambda>d. stop_rank_of (dm_stop d)) d"
    by (rule alive_step, rule main_act(2)) (use c in \<open>simp add: signalled_def\<close>)
  assume n: "alive (\<lambda>d. stop_rank_of (dm_stop d)) d \<noteq> 0" and ev: "ev \<in> main_help (alive (\<lambda>d. stop_rank_of (dm_stop d)) d)"
  then have x: "\<not> exited d" by (simp add: alive_def split: if_splits)
  then have m: "dm_main d = MStopping" using not_exited [OF c] by simp
  show "alive (\<lambda>d. stop_rank_of (dm_stop d)) (daemon_step w ev d) < alive (\<lambda>d. stop_rank_of (dm_stop d)) d"
    using n ev x m
    by (cases "dm_stop d") (auto simp: alive_def main_help_def daemon_step_def stopper_def exited_def split: option.split)
qed

section \<open>The counters and the limits\<close>

text \<open>The dashboard's polls change no counter and no limit.\<close>

lemma tun_counts_poll:
  "tun_counts s0 p \<Longrightarrow> same_tun_counts (tun_srv p) s \<Longrightarrow> tun_counts s0 (set_srv s p)"
  by (simp add: tun_counts_def Let_def same_tun_counts_def tun_srv_def)

definition socks_counts :: "socks_server \<Rightarrow> socks_proc \<Rightarrow> bool" where
  "socks_counts s0 p \<longleftrightarrow>
     (let S = ac_sys (sp_acc p); st = s_stats (server S) in
      s_sem (server S) = length (running S) \<and> length (running S) \<le> s_slots s0 \<and> s_slots (server S) = s_slots s0 \<and>
      s_conns_active st = s_conns_active (s_stats s0) + of_nat (length (running S)) \<and>
      s_conns_total st = s_conns_total (s_stats s0) + of_nat (length (served S)))"

lemma socks_counts_poll:
  "socks_counts s0 p \<Longrightarrow> same_socks_counts (socks_srv p) s \<Longrightarrow> socks_counts s0 (set_socks_srv s p)"
  by (simp add: socks_counts_def Let_def same_socks_counts_def socks_srv_def)

lemma socks_counts_sys:
  assumes "socks_counts s0 p" and "ac_sys (sp_acc q) = socks_sys ev (ac_sys (sp_acc p))"
  shows "socks_counts s0 q"
proof -
  let ?S = "ac_sys (sp_acc p)" and ?T = "socks_sys ev (ac_sys (sp_acc p))"
  have w: "s_sem (server ?S) = length (running ?S)" "length (running ?S) \<le> s_slots (server ?S)"
    using assms(1) by (simp_all add: socks_counts_def Let_def)
  note g = sgate.gate_step [OF w, of socks_effects ev]
  have a: "s_conns_active (s_stats (server ?T)) =
      s_conns_active (s_stats (server ?S)) + of_nat (length (running ?T)) - of_nat (length (running ?S))"
    using g by (simp add: eq_diff_eq)
  have t: "s_conns_total (s_stats (server ?T)) =
      s_conns_total (s_stats (server ?S)) + of_nat (length (served ?T)) - of_nat (length (served ?S))"
    using g by (simp add: eq_diff_eq)
  show ?thesis
    using assms(1) g unfolding socks_counts_def Let_def assms(2) a t by (simp add: algebra_simps)
qed

lemma socks_counts_step:
  assumes "socks_counts s0 p"
  shows "socks_counts s0 (socks_step outer ev p)"
proof (cases ev)
  case (SocksAccept e)
  show ?thesis
  proof (rule accept_step_sys [of socks_sys outer e "sp_acc p"])
    assume "ac_sys (accept_step socks_sys outer e (sp_acc p)) = ac_sys (sp_acc p)"
    with assms show ?thesis unfolding SocksAccept socks_counts_def by simp
  next
    fix e' assume "ac_sys (accept_step socks_sys outer e (sp_acc p)) = socks_sys e' (ac_sys (sp_acc p))"
    then show ?thesis unfolding SocksAccept by (intro socks_counts_sys [OF assms]) simp
  qed
qed (use assms in \<open>simp add: socks_counts_def\<close>)

definition daemon_counts :: "tun_server \<Rightarrow> socks_server \<Rightarrow> daemon \<Rightarrow> bool" where
  "daemon_counts tun socks d \<longleftrightarrow> daemon_wf d \<and> tun_counts tun (dm_tun d) \<and> socks_counts socks (dm_socks d)"

lemma daemon_counts_step:
  assumes "daemon_counts tun socks d"
  shows "daemon_counts tun socks (daemon_step w ev d)"
proof -
  have t: "tun_wf (dm_tun d)" "tun_counts tun (dm_tun d)" and s: "socks_counts socks (dm_socks d)"
    using assms by (simp_all add: daemon_counts_def daemon_wf_def)
  have stop: "socks_counts socks (socks_Stop (dm_socks d))"
    using s by (simp add: socks_counts_def socks_Stop_def)
  have "tun_counts tun (dm_tun (daemon_act w ev d))"
    using daemon_tun_cases [of w ev d] t
    by (elim disjE exE conjE) (simp_all only: tun_counts_step tun_counts_stop tun_counts_poll)
  moreover have "socks_counts socks (dm_socks (daemon_act w ev d))"
    using daemon_socks_cases [of w ev d] s stop
    by (elim disjE exE conjE) (simp_all only: socks_counts_step socks_counts_poll)
  moreover have "daemon_wf (daemon_step w ev d)" using assms by (simp add: daemon_counts_def daemon_wf_step)
  ultimately show ?thesis using assms by (simp add: daemon_counts_def daemon_step_def)
qed

interpretation counts_inv: step_invariant "daemon_step w" "daemon_counts tun socks" for w tun socks
  by unfold_locales (rule daemon_counts_step)

lemma daemon_counts_start:
  assumes "daemon_start w t1 t2 t3 = Some d"
  obtains tun socks where "daemon_servers (w_env w) t1 t2 = Some (tun, socks)" "daemon_counts tun socks d"
proof -
  obtain tun socks where sv: "daemon_servers (w_env w) t1 t2 = Some (tun, socks)"
    using assms by (cases "daemon_servers (w_env w) t1 t2") (auto simp: daemon_start_def)
  then have "tn_sem tun = 0" "s_sem socks = 0"
    by (auto simp: daemon_servers_def tun_SetMaxConns_def socks_SetMaxConns_def Let_def split: option.splits if_splits)
  with sv assms have "tun_counts tun (dm_tun d)" "socks_counts socks (dm_socks d)"
    by (auto simp: daemon_start_def tun_counts_init socks_counts_def socks_proc_init_def accept_idle_def sys_start_def)
  with sv daemon_wf_start [OF assms] that show thesis by (simp add: daemon_counts_def)
qed

section \<open>Runs\<close>

lemma daemon_run_append: "daemon_run w (xs @ ys) d = daemon_run w ys (daemon_run w xs d)"
  by (simp add: daemon_run_def)

lemma run_keeps:
  assumes "P d" and "\<And>d ev. P d \<Longrightarrow> ev \<in> set evs \<Longrightarrow> P (daemon_step w ev d)"
  shows "P (daemon_run w evs d)"
  using assms unfolding daemon_run_def by (induction evs arbitrary: d) simp_all

lemma signal_act: "dm_main (daemon_act w DSignal d) \<noteq> MWait"
  by simp

lemma after_signal: "DSignal \<in> set evs \<Longrightarrow> dm_main (daemon_run w evs d) \<noteq> MWait"
proof -
  assume "DSignal \<in> set evs"
  then obtain xs ys where evs: "evs = xs @ DSignal # ys" by (meson split_list)
  let ?d = "daemon_step w DSignal (daemon_run w xs d)"
  have "dm_main ?d \<noteq> MWait" by (cases "exited (daemon_run w xs d)") (auto simp: daemon_step_def exited_def)
  then have "dm_main (daemon_run w ys ?d) \<noteq> MWait"
    by (rule run_keeps) (simp add: daemon_step_def main_act(1) del: daemon_act.simps)
  then show ?thesis by (simp add: evs daemon_run_def)
qed

lemma no_signal_act: "ev \<noteq> DSignal \<Longrightarrow> daemon_wf d \<Longrightarrow> dm_main d = MWait \<Longrightarrow> dm_main (daemon_act w ev d) = MWait"
  by (cases ev) (auto simp: daemon_wf_def stopper_def daemon_tick daemon_poll split: start_pc.split)

lemma no_signal_run:
  assumes "DSignal \<notin> set evs" and "daemon_wf d" and "dm_main d = MWait"
  shows "dm_main (daemon_run w evs d) = MWait"
proof -
  have "daemon_wf (daemon_run w evs d) \<and> dm_main (daemon_run w evs d) = MWait"
  proof (rule run_keeps)
    fix d :: daemon and ev assume d: "daemon_wf d \<and> dm_main d = MWait" and "ev \<in> set evs"
    then have "ev \<noteq> DSignal" using assms(1) by blast
    with d show "daemon_wf (daemon_step w ev d) \<and> dm_main (daemon_step w ev d) = MWait"
      by (simp add: daemon_wf_step) (simp add: daemon_step_def no_signal_act del: daemon_act.simps)
  qed (use assms in simp)
  then show ?thesis ..
qed

lemma no_timeout_act: "ev \<noteq> DTimeout \<Longrightarrow> dm_main d \<noteq> MExit False \<Longrightarrow> dm_main (daemon_act w ev d) \<noteq> MExit False"
  by (cases ev) (auto simp: stopper_def daemon_tick daemon_poll split: start_pc.split stop_pc.split option.split)

lemma no_timeout_run:
  assumes "DTimeout \<notin> set evs" and "dm_main d \<noteq> MExit False"
  shows "dm_main (daemon_run w evs d) \<noteq> MExit False"
proof (rule run_keeps)
  fix d :: daemon and ev assume "dm_main d \<noteq> MExit False" and "ev \<in> set evs"
  moreover from this have "ev \<noteq> DTimeout" using assms(1) by blast
  ultimately show "dm_main (daemon_step w ev d) \<noteq> MExit False"
    by (simp add: daemon_step_def no_timeout_act del: daemon_act.simps)
qed (rule assms(2))

lemma start_waits: "daemon_start w t1 t2 t3 = Some d \<Longrightarrow> dm_main d = MWait"
  by (auto simp: daemon_start_def split: option.splits)

text \<open>A round that neglects no goroutine of the servers.\<close>

definition daemon_fair :: "daemon_event list \<Rightarrow> bool" where
  "daemon_fair es \<longleftrightarrow>
     {DSocks SocksStart, DSocks (SocksAccept Closer), DTun TunStart, DTun (TunTcp Closer), DTun (TunUdp UCloser),
      DDash DashStart, DDash DashShutdown} \<subseteq> set es \<and>
     (\<exists>x. DSocks (SocksAccept (Loop x)) \<in> set es) \<and> (\<exists>x. DTun (TunTcp (Loop x)) \<in> set es) \<and>
     (\<exists>x now. DTun (TunUdp (ULoop x now)) \<in> set es) \<and> (\<exists>x. DDash (DashLoop x) \<in> set es)"

lemma daemon_fairD:
  assumes "daemon_fair es"
  shows "tcp_ends.fair es" "udp_ends.fair es" "socks_ends.fair es" "dash_ends.fair es"
proof -
  have hit: "set es \<inter> K \<noteq> {}" if "e \<in> set es" "e \<in> K" for e K using that by blast
  obtain x y z u v where *: "DTun TunStart \<in> set es" "DTun (TunTcp Closer) \<in> set es" "DTun (TunTcp (Loop x)) \<in> set es"
      "DTun (TunUdp UCloser) \<in> set es" "DTun (TunUdp (ULoop y z)) \<in> set es"
      "DSocks SocksStart \<in> set es" "DSocks (SocksAccept Closer) \<in> set es" "DSocks (SocksAccept (Loop u)) \<in> set es"
      "DDash DashStart \<in> set es" "DDash DashShutdown \<in> set es" "DDash (DashLoop v) \<in> set es"
    using assms unfolding daemon_fair_def insert_subset by (elim conjE exE) (rule that)
  show "tcp_ends.fair es" unfolding tcp_ends.fair_def
    by (rule allI, simp add: tcp_help_def *(1,2)) (use hit [OF *(3)] in blast)
  show "udp_ends.fair es" unfolding udp_ends.fair_def
    by (rule allI, simp add: udp_help_def *(1,4)) (use hit [OF *(5)] in blast)
  show "socks_ends.fair es" unfolding socks_ends.fair_def
    by (rule allI, simp add: socks_help_def *(6,7)) (use hit [OF *(8)] in blast)
  show "dash_ends.fair es" unfolding dash_ends.fair_def
    by (rule allI, simp add: dash_help_def *(9,10)) (use hit [OF *(11)] in blast)
qed

text \<open>Every server has returned and nothing listens.\<close>

definition servers_ended :: "daemon \<Rightarrow> bool" where
  "servers_ended d \<longleftrightarrow>
     (\<exists>r. ac_pc (tp_tcp (dm_tun d)) = Finished r) \<and> ac_listener (tp_tcp (dm_tun d)) \<noteq> Bound \<and>
     (\<exists>r. ul_pc (tp_udp (dm_tun d)) = UQuit r) \<and> ul_sock (tp_udp (dm_tun d)) \<noteq> Bound \<and>
     (\<exists>r. ac_pc (sp_acc (dm_socks d)) = Finished r) \<and> ac_listener (sp_acc (dm_socks d)) \<noteq> Bound \<and>
     (\<exists>e. hp_pc (dm_dash d) = DReturned e) \<and> hp_listener (dm_dash d) \<noteq> Bound"

lemma servers_end:
  assumes "cancelling d" and "\<forall>es\<in>set rounds. daemon_fair es" and "7 \<le> length rounds"
  shows "exited (daemon_run w (concat rounds) d) \<or> servers_ended (daemon_run w (concat rounds) d)"
proof -
  let ?e = "daemon_run w (concat rounds) d"
  have le: "alive f d \<le> length rounds" if "f d \<le> 7" for f using that assms(3) by (simp add: alive_def)
  have dash: "dash_rank h \<le> 7" for h using dash_rank_cases [of h] by auto
  note fair = daemon_fairD [OF bspec [OF assms(2)]]
  have w: "daemon_wf ?e"
    using tcp_ends.descent_ends(1) [OF assms(1) _ le, OF ballI [OF fair(1)] accept_rank_le] by (simp add: daemon_run_def cancelling_def)
  have z: "alive (\<lambda>d. accept_rank (tp_tcp (dm_tun d))) ?e = 0" "alive (\<lambda>d. udp_rank (tp_udp (dm_tun d))) ?e = 0"
    "alive (\<lambda>d. accept_rank (sp_acc (dm_socks d))) ?e = 0" "alive (\<lambda>d. dash_rank (dm_dash d)) ?e = 0"
    using tcp_ends.descent_ends(2) [OF assms(1) _ le, OF ballI [OF fair(1)] accept_rank_le]
      udp_ends.descent_ends(2) [OF assms(1) _ le, OF ballI [OF fair(2)] udp_rank_le]
      socks_ends.descent_ends(2) [OF assms(1) _ le, OF ballI [OF fair(3)] accept_rank_le]
      dash_ends.descent_ends(2) [OF assms(1) _ le, OF ballI [OF fair(4)] dash]
    by (simp_all add: daemon_run_def)
  show ?thesis
  proof (cases "exited ?e")
    case False
    moreover have "dash_wf (dm_dash ?e)" "accept_wf (tp_tcp (dm_tun ?e))" "accept_wf (sp_acc (dm_socks ?e))"
      using w by (simp_all add: daemon_wf_def tun_wf_def)
    ultimately show ?thesis
      using z dash_rank_cases [of "dm_dash ?e"]
      by (auto simp: alive_def servers_ended_def accept_rank_zero udp_rank_zero dash_wf_def)
  qed simp
qed

section \<open>When the tunnel cannot listen\<close>

definition listen_failed :: "daemon \<Rightarrow> bool" where
  "listen_failed d \<longleftrightarrow>
     (\<exists>e. ac_pc (tp_tcp (dm_tun d)) = Finished (Some e)) \<or> (\<exists>e. ul_pc (tp_udp (dm_tun d)) = UQuit (Some e))"

definition failing :: "daemon \<Rightarrow> bool" where
  "failing d \<longleftrightarrow> daemon_wf d \<and> listen_failed d"

definition fail_rank :: "daemon \<Rightarrow> nat" where
  "fail_rank d = (if dm_cancelled d then 0 else 2 - start_returned (tp_start (dm_tun d)))"

definition fail_help :: "nat \<Rightarrow> daemon_event set" where
  "fail_help n = (if n = 1 then {DTunFails} else {DTun TunReturn})"

lemma failed_iff:
  "(\<exists>e. pc = Finished (Some e)) \<longleftrightarrow> tcp_failed pc \<noteq> 0" "(\<exists>e. upc = UQuit (Some e)) \<longleftrightarrow> udp_failed upc \<noteq> 0"
  by (cases pc rule: tcp_failed.cases; simp) (cases upc rule: udp_failed.cases; simp)

lemma failed_step:
  assumes "tcp_failed (ac_pc (tp_tcp p)) \<noteq> 0 \<or> udp_failed (ul_pc (tp_udp p)) \<noteq> 0"
    and "tun_wf p"
  shows "tcp_failed (ac_pc (tp_tcp (tun_step outer ev p))) \<noteq> 0 \<or> udp_failed (ul_pc (tp_udp (tun_step outer ev p))) \<noteq> 0"
proof (cases ev)
  case TunStart
  with assms show ?thesis by (auto simp: tun_wf_def)
next
  case (TunTcp e)
  have "tcp_failed (ac_pc (tp_tcp p)) \<noteq> 0 \<Longrightarrow> ac_pc (tp_tcp p) \<noteq> Binding" by auto
  with assms(1) TunTcp accept_step_pc(2) [of "tp_tcp p" tun_sys "tun_done outer p" e] show ?thesis
    by (auto simp del: accept_step.simps)
next
  case (TunUdp e)
  have "udp_failed (ul_pc (tp_udp p)) \<noteq> 0 \<Longrightarrow> ul_pc (tp_udp p) \<noteq> UBinding" by auto
  with assms(1) TunUdp udp_loop_step_pc(2) [of "lent p" "tun_done outer p" e] show ?thesis
    by (auto simp del: udp_loop_step.simps)
qed (use assms in \<open>simp del: tun_step.simps(4)\<close>)

lemma returned_step: "start_returned (tp_start p) \<le> start_returned (tp_start (tun_step outer ev p))"
  by (cases ev) (auto split: start_pc.split list.split)

interpretation fail_ends: fair_rounds "daemon_step w" failing "alive fail_rank" fail_help for w
proof unfold_locales
  fix d ev
  assume f: "failing d"
  then have t: "tun_wf (dm_tun d)" "tcp_failed (ac_pc (tp_tcp (dm_tun d))) \<noteq> 0 \<or> udp_failed (ul_pc (tp_udp (dm_tun d))) \<noteq> 0"
    by (auto simp: failing_def daemon_wf_def listen_failed_def)
  have stop: "ac_pc (tp_tcp (tun_Stop p)) = ac_pc (tp_tcp p)" "ul_pc (tp_udp (tun_Stop p)) = ul_pc (tp_udp p)"
    "tp_start (tun_Stop p) = tp_start p" for p
    by (simp_all add: tun_Stop_def)
  have "tcp_failed (ac_pc (tp_tcp (dm_tun (daemon_act w ev d)))) \<noteq> 0 \<or> udp_failed (ul_pc (tp_udp (dm_tun (daemon_act w ev d)))) \<noteq> 0"
    using daemon_tun_cases [of w ev d] t failed_step [OF t(2,1)]
    by (elim disjE exE conjE) (simp_all only: stop set_srv_frame simp_thms)
  then show "failing (daemon_step w ev d)"
    using f daemon_wf_step [of d w ev]
    by (auto simp: failing_def listen_failed_def daemon_step_def failed_iff simp del: daemon_act.simps)
  have "start_returned (tp_start (dm_tun d)) \<le> start_returned (tp_start (dm_tun (daemon_act w ev d)))"
    using daemon_tun_cases [of w ev d] returned_step
    by (elim disjE exE conjE) (simp_all only: stop set_srv_frame order_refl)
  then show "alive fail_rank (daemon_step w ev d) \<le> alive fail_rank d"
    using cancelled_act [of d w ev] by (intro alive_step) (auto simp: fail_rank_def diff_le_mono2 simp del: daemon_act.simps)
  assume n: "alive fail_rank d \<noteq> 0" and ev: "ev \<in> fail_help (alive fail_rank d)"
  have "fail_rank (daemon_act w ev d) < fail_rank d" if "\<not> exited d"
  proof (cases "tp_start (dm_tun d)")
    case NotCalled
    with t show ?thesis by (auto simp: tun_wf_def)
  next
    case Awaiting
    with t(1) have "length (tp_errs (dm_tun d)) = tcp_failed (ac_pc (tp_tcp (dm_tun d))) + udp_failed (ul_pc (tp_udp (dm_tun d)))"
      by (simp add: tun_wf_def)
    with t(2) obtain e es where "tp_errs (dm_tun d) = e # es" by (cases "tp_errs (dm_tun d)") auto
    with Awaiting n ev that show ?thesis by (auto simp: alive_def fail_rank_def fail_help_def split: if_splits)
  next
    case (Returned e)
    with n ev that show ?thesis by (auto simp: alive_def fail_rank_def fail_help_def split: if_splits)
  qed
  then show "alive fail_rank (daemon_step w ev d) < alive fail_rank d" by (rule alive_helps [OF n])
qed

section \<open>After the listeners are closed\<close>

lemma tun_service: "service tun_sys"
  by unfold_locales (auto split: prod.split bool.split list.split)

lemma socks_service: "service socks_sys"
  by unfold_locales (auto split: prod.split bool.split list.split)

interpretation tserve: service tun_sys by (rule tun_service)

interpretation sserve: service socks_sys by (rule socks_service)

lemma shut_since_same:
  "shut_since a b \<Longrightarrow> ac_pc c = ac_pc b \<Longrightarrow> ac_listener c = ac_listener b \<Longrightarrow> served (ac_sys c) = served (ac_sys b) \<Longrightarrow>
    shut_since a c"
  by (simp add: shut_since_def in_hand_def)

lemma tun_shut_since:
  assumes "shut_since a (tp_tcp (dm_tun d))" and "daemon_wf d"
  shows "shut_since a (tp_tcp (dm_tun (daemon_step w ev d)))"
proof -
  have wf: "tun_wf (dm_tun d)" using assms(2) by (simp add: daemon_wf_def)
  have start: "tp_start (dm_tun d) \<noteq> NotCalled"
    using assms(1) wf by (auto simp: shut_since_def tun_wf_def accept_wf_def unbound_at_def)
  have "shut_since a (tp_tcp (tun_step outer e (dm_tun d)))" for outer e
  proof (cases e)
    case (TunTcp x)
    with tserve.shut_since_step [OF assms(1)] wf show ?thesis by (simp add: tun_wf_def del: accept_step.simps)
  next
    case (TunUdp x)
    show ?thesis by (rule shut_since_same [OF assms(1)]) (simp_all add: TunUdp)
  qed (use assms(1) start in \<open>simp_all del: tun_step.simps(4)\<close>)
  moreover have "shut_since a (tp_tcp (tun_Stop (dm_tun d)))"
    by (rule shut_since_same [OF assms(1)]) (use assms(1) in \<open>simp_all add: tun_Stop_def shut_since_def shut_def\<close>)
  moreover have "shut_since a (tp_tcp (set_srv s (dm_tun d)))" for s
    by (rule shut_since_same [OF assms(1)]) simp_all
  ultimately have "shut_since a (tp_tcp (dm_tun (daemon_act w ev d)))"
    using daemon_tun_cases [of w ev d] assms(1) by (elim disjE exE conjE) (simp_all only:)
  with assms(1) show ?thesis by (simp add: daemon_step_def)
qed

lemma socks_shut_step:
  assumes "shut_since a (sp_acc p)" and "accept_wf (sp_acc p)"
  shows "shut_since a (sp_acc (socks_step outer e p))"
proof (cases e)
  case SocksStart
  with assms show ?thesis by (auto simp: shut_since_def accept_wf_def unbound_at_def in_hand_def)
next
  case (SocksAccept x)
  with sserve.shut_since_step [OF assms] show ?thesis by simp
qed

lemma socks_shut_since:
  assumes "shut_since a (sp_acc (dm_socks d))" and "daemon_wf d"
  shows "shut_since a (sp_acc (dm_socks (daemon_step w ev d)))"
proof -
  have "accept_wf (sp_acc (dm_socks d))" using assms(2) by (simp add: daemon_wf_def)
  note step = socks_shut_step [OF assms(1) this]
  have "shut_since a (sp_acc (socks_Stop (dm_socks d)))"
    by (rule shut_since_same [OF assms(1)]) (use assms(1) in \<open>simp_all add: socks_Stop_def shut_since_def shut_def\<close>)
  moreover have "shut_since a (sp_acc (set_socks_srv s (dm_socks d)))" for s
    by (rule shut_since_same [OF assms(1)]) simp_all
  ultimately have "shut_since a (sp_acc (dm_socks (daemon_act w ev d)))"
    using daemon_socks_cases [of w ev d] assms(1) step by (elim disjE exE conjE) (simp_all only:)
  with assms(1) show ?thesis by (simp add: daemon_step_def)
qed

text \<open>Stopping the SOCKS5 server alone: the loop never finds its context done.\<close>

definition spinning :: "socks_proc \<Rightarrow> socks_proc \<Rightarrow> bool" where
  "spinning p q \<longleftrightarrow> shut_since (sp_acc p) (sp_acc q) \<and> accept_wf (sp_acc q) \<and> ac_pc (sp_acc q) \<noteq> Finished None"

lemma socks_never_nil: "ac_pc (sp_acc p) \<noteq> Finished None \<Longrightarrow> ac_pc (sp_acc (socks_step False ev p)) \<noteq> Finished None"
proof (cases ev)
  case (SocksAccept e)
  then show "ac_pc (sp_acc p) \<noteq> Finished None \<Longrightarrow> ?thesis"
    by (cases "(socks_sys, False, e, sp_acc p)" rule: accept_step.cases)
      (auto simp: accept_loop.simps split: accept_pc.splits outcome.splits)
qed simp

lemma spinning_step: "spinning p q \<Longrightarrow> spinning p (socks_step False ev q)"
  by (simp add: spinning_def socks_shut_step socks_wf_step socks_never_nil del: socks_step.simps)

interpretation spin: step_invariant "socks_step False" "spinning p" for p
  by unfold_locales (rule spinning_step)

interpretation never_nil: step_invariant "socks_step False" "\<lambda>p. accept_wf (sp_acc p) \<and> ac_pc (sp_acc p) \<noteq> Finished None"
  by unfold_locales (simp add: socks_wf_step socks_never_nil del: socks_step.simps)

section \<open>A sample\<close>

definition sample_world :: world where
  "sample_world = \<lparr>w_env = (\<lambda>k. if k = ''ZETPROXY_TUNNEL'' then ''u@h'' else []), w_net = (\<lambda>_ _. None), w_ssh = (\<lambda>_. Runs)\<rparr>"

lemma sample_launch: "daemon_tunnel (w_env sample_world) = LaunchSSH ''1088'' ''u@h''"
  by code_simp

lemma sample_start:
  obtains d where "daemon_start sample_world 0 0 0 = Some d"
proof -
  have "getEnvInt (w_env sample_world) ''ZETPROXY_MAX_CONNS'' 4096 = 4096"
    by (simp add: sample_world_def getEnvInt_def)
  with daemon_slots [of "w_env sample_world" 0 0] that show thesis
    by (auto simp: daemon_start_def Let_def)
qed

text \<open>A round with a turn for everybody.\<close>

definition sample_round :: "daemon_event list" where
  "sample_round = [DSocks SocksStart, DSocks (SocksAccept Closer), DSocks (SocksAccept (Loop Fine)),
     DTun TunStart, DTun (TunTcp Closer), DTun (TunTcp (Loop Fine)), DTun (TunUdp UCloser), DTun (TunUdp (ULoop UFine 0)),
     DDash DashStart, DDash DashShutdown, DDash (DashLoop Fine), DTun TunReturn, DTunFails, DStopper, DMain]"

lemma sample_round_fair: "daemon_fair sample_round"
  by (auto simp: daemon_fair_def sample_round_def)

section \<open>Properties\<close>

lemma daemon_servers_zero:
  assumes "daemon_servers env t1 t2 = Some (tun, socks)"
  shows "tn_conns_active (tn_stats tun) = 0" "tn_conns_total (tn_stats tun) = 0" "tn_tcp_accepts (tn_stats tun) = 0"
    "s_conns_active (s_stats socks) = 0" "s_conns_total (s_stats socks) = 0"
  using assms
  by (auto simp: daemon_servers_def tun_SetMaxConns_def socks_SetMaxConns_def NewServer_def NewSOCKS5Server_def
      zero_tun_stats_def zero_socks_stats_def Let_def split: option.splits if_splits)

text \<open>
  C6. The limits and the connection counters of the running daemon, in every interleaving of its
  goroutines, the dashboard's polls and the shutdown included. At most the configured number of TCP
  connections of the tunnel are handled at a time, and at most half of it by the SOCKS5 server;
  UDP sessions take no slot. \<^verbatim>\<open>ConnsActive\<close> and \<^verbatim>\<open>ConnsTotal\<close> of the SOCKS5 server count exactly its
  running handlers and its served connections, and \<^verbatim>\<open>TCPAccepts\<close> of the tunnel the TCP connections
  served. \<^verbatim>\<open>ConnsTotal\<close> of the tunnel adds the UDP sessions made. Its \<^verbatim>\<open>ConnsActive\<close> drifts: it is the
  TCP handlers and UDP readers that run, less one for each session the reaper ever closed.
\<close>

theorem daemon_limits_and_counters:
  assumes "daemon_start w t1 t2 t3 = Some d"
  shows "let k = getEnvInt (w_env w) ''ZETPROXY_MAX_CONNS'' 4096 mod 2 ^ 32; e = daemon_run w evs d;
      T = ac_sys (tp_tcp (dm_tun e)); u = ul_state (tp_udp (dm_tun e)); S = ac_sys (sp_acc (dm_socks e)) in
    int (length (running T)) \<le> k \<and> int (length (running S)) \<le> k div 2 \<and>
    tn_conns_active (tn_stats (server T)) + of_nat (u_reaped u) = of_nat (length (running T)) + of_nat (readers u) \<and>
    tn_conns_total (tn_stats (server T)) = of_nat (length (served T)) + of_nat (length (u_sess u)) \<and>
    tn_tcp_accepts (tn_stats (server T)) = of_nat (length (served T)) \<and>
    s_conns_active (s_stats (server S)) = of_nat (length (running S)) \<and>
    s_conns_total (s_stats (server S)) = of_nat (length (served S))"
proof -
  obtain tun socks where sv: "daemon_servers (w_env w) t1 t2 = Some (tun, socks)" and c: "daemon_counts tun socks d"
    using daemon_counts_start [OF assms] .
  have slots: "int (tn_slots tun) = getEnvInt (w_env w) ''ZETPROXY_MAX_CONNS'' 4096 mod 2 ^ 32"
    "int (s_slots socks) = getEnvInt (w_env w) ''ZETPROXY_MAX_CONNS'' 4096 mod 2 ^ 32 div 2"
    using daemon_slots [of "w_env w" t1 t2] sv by (auto simp: Let_def split: if_splits)
  then have half: "int (tn_slots tun) div 2 = int (s_slots socks)" by simp
  have "daemon_counts tun socks (daemon_run w evs d)"
    unfolding daemon_run_def by (rule counts_inv.run_inv [OF c])
  then show ?thesis
    unfolding Let_def slots(1) [symmetric] half
    by (simp add: daemon_counts_def tun_counts_def socks_counts_def Let_def daemon_servers_zero [OF sv])
qed

theorem daemon_limits_and_counters_witness:
  "\<exists>d. daemon_start sample_world 0 0 0 = Some d \<and>
    int (length (running (ac_sys (tp_tcp (dm_tun (daemon_run sample_world sample_round d)))))) \<le> 4096"
proof -
  obtain d where d: "daemon_start sample_world 0 0 0 = Some d" by (rule sample_start)
  have "getEnvInt (w_env sample_world) ''ZETPROXY_MAX_CONNS'' 4096 = 4096"
    by (simp add: sample_world_def getEnvInt_def)
  with daemon_limits_and_counters [OF d, of sample_round] d show ?thesis by (simp add: Let_def)
qed

text \<open>
  C7. Once the signal has come the daemon ends: in four rounds in which the goroutine of the shutdown
  and \<^verbatim>\<open>main\<close> each get a turn, whatever the other goroutines do or fail to do. It does not panic, as
  \<^verbatim>\<open>tunnelStop\<close> is closed once, and unless the ten seconds pass it ends in good order.
\<close>

theorem daemon_terminates:
  assumes "daemon_start w t1 t2 t3 = Some d" and "DSignal \<in> set evs"
    and "\<forall>es\<in>set rounds. DStopper \<in> set es \<and> DMain \<in> set es" and "4 \<le> length rounds"
  shows "\<exists>b. dm_main (daemon_run w (evs @ concat rounds) d) = MExit b \<and> (DTimeout \<notin> set (evs @ concat rounds) \<longrightarrow> b)"
proof -
  let ?d = "daemon_run w evs d" and ?e = "daemon_run w (evs @ concat rounds) d"
  have s: "signalled ?d"
    using after_signal [OF assms(2)] daemon_wf_run [OF assms(1)] by (simp add: signalled_def)
  have f: "\<forall>es\<in>set rounds. main_ends.fair es" using assms(3) by (auto simp: main_ends.fair_def main_help_def)
  have "alive (\<lambda>d. stop_rank_of (dm_stop d)) ?d \<le> length rounds"
    using assms(4) by (cases "dm_stop ?d") (simp_all add: alive_def)
  from main_ends.descent_ends [OF s f this, of w] have "signalled ?e" "alive (\<lambda>d. stop_rank_of (dm_stop d)) ?e = 0"
    by (simp_all add: daemon_run_def)
  then have "exited ?e" "dm_main ?e \<noteq> MCrash"
    by (cases "dm_stop ?e"; auto simp: alive_def signalled_def daemon_wf_def split: if_splits)+
  then obtain b where b: "dm_main ?e = MExit b" by (auto simp: exited_def)
  moreover have "b" if "DTimeout \<notin> set (evs @ concat rounds)"
    using no_timeout_run [OF that, of d w] start_waits [OF assms(1)] b by (cases b) simp_all
  ultimately show ?thesis by blast
qed

theorem daemon_terminates_witness:
  "\<exists>d. daemon_start sample_world 0 0 0 = Some d \<and>
    dm_main (daemon_run sample_world (DSignal # concat (replicate 4 sample_round)) d) = MExit True"
proof -
  obtain d where d: "daemon_start sample_world 0 0 0 = Some d" by (rule sample_start)
  have "\<forall>es\<in>set (replicate 4 sample_round). DStopper \<in> set es \<and> DMain \<in> set es" by (simp add: sample_round_def)
  from daemon_terminates [OF d, of "[DSignal]", OF _ this] d show ?thesis by (auto simp: sample_round_def)
qed

text \<open>
  C8. Once the context of the daemon is done, by the signal or because the tunnel could not listen,
  the four accept and read loops end and the listeners are closed: after seven rounds in which each
  loop and each goroutine that waits for the context gets a turn, with any other events around
  them, unless the process has ended before.
\<close>

theorem daemon_servers_stop:
  assumes "daemon_start w t1 t2 t3 = Some d" and "dm_cancelled (daemon_run w evs d)"
    and "\<forall>es\<in>set rounds. daemon_fair es" and "7 \<le> length rounds"
  shows "exited (daemon_run w (evs @ concat rounds) d) \<or> servers_ended (daemon_run w (evs @ concat rounds) d)"
proof -
  have "cancelling (daemon_run w evs d)" using daemon_wf_run [OF assms(1)] assms(2) by (simp add: cancelling_def)
  from servers_end [OF this assms(3,4)] show ?thesis by (simp add: daemon_run_append)
qed

theorem daemon_servers_stop_witness:
  "\<exists>d. daemon_start sample_world 0 0 0 = Some d \<and>
    (exited (daemon_run sample_world (DSignal # concat (replicate 7 sample_round)) d) \<or>
     servers_ended (daemon_run sample_world (DSignal # concat (replicate 7 sample_round)) d))"
proof -
  obtain d where d: "daemon_start sample_world 0 0 0 = Some d" by (rule sample_start)
  then have "dm_main d = MWait" by (rule start_waits)
  then have "dm_cancelled (daemon_run sample_world [DSignal] d)"
    by (simp add: daemon_run_def daemon_step_def exited_def)
  from daemon_servers_stop [OF d this, of "replicate 7 sample_round"] d sample_round_fair show ?thesis by auto
qed

text \<open>
  C27. When the tunnel cannot listen on one of its addresses, every server is stopped, the SOCKS5
  server and the dashboard included, but the process stays: as long as no signal comes, after nine fair
  rounds it waits with nothing listening.
\<close>

theorem daemon_failed_listen:
  assumes "daemon_start w t1 t2 t3 = Some d" and "listen_failed (daemon_run w evs d)"
    and "\<forall>es\<in>set rounds. daemon_fair es \<and> DTun TunReturn \<in> set es \<and> DTunFails \<in> set es" and "9 \<le> length rounds"
    and "DSignal \<notin> set (evs @ concat rounds)"
  shows "dm_main (daemon_run w (evs @ concat rounds) d) = MWait \<and> servers_ended (daemon_run w (evs @ concat rounds) d)"
proof -
  let ?d = "daemon_run w evs d" and ?r = "take 2 rounds" and ?q = "drop 2 rounds"
  let ?m = "daemon_run w (concat ?r) ?d" and ?e = "daemon_run w (evs @ concat rounds) d"
  have rounds: "concat rounds = concat ?r @ concat ?q" by (metis append_take_drop_id concat_append)
  have wait: "dm_main (daemon_run w xs d) = MWait" if "set xs \<subseteq> set (evs @ concat rounds)" for xs
    using that assms(5) by (intro no_signal_run daemon_wf_start [OF assms(1)] start_waits [OF assms(1)]) blast
  have m: "failing ?d" using daemon_wf_run [OF assms(1)] assms(2) by (simp add: failing_def)
  have f: "\<forall>es\<in>set ?r. fail_ends.fair es"
    using assms(3) by (auto simp: fail_ends.fair_def fail_help_def dest!: in_set_takeD)
  have "alive fail_rank ?d \<le> length ?r" using assms(4) by (simp add: alive_def fail_rank_def)
  from fail_ends.descent_ends [OF m f this, of w] have z: "failing ?m" "alive fail_rank ?m = 0"
    by (simp_all add: daemon_run_def)
  have "set (evs @ concat ?r) \<subseteq> set (evs @ concat rounds)" by (auto dest: in_set_takeD)
  from wait [OF this] have "dm_main ?m = MWait" by (simp only: daemon_run_append)
  then have "\<not> exited ?m" by (simp add: exited_def)
  moreover have "start_returned (tp_start (dm_tun ?m)) \<le> 1" by (cases "tp_start (dm_tun ?m)") simp_all
  ultimately have "dm_cancelled ?m" using z(2) by (simp add: alive_def fail_rank_def split: if_splits)
  with z(1) have "cancelling ?m" by (simp add: cancelling_def failing_def)
  moreover have "\<forall>es\<in>set ?q. daemon_fair es" using assms(3) by (meson in_set_dropD)
  moreover have "7 \<le> length ?q" using assms(4) by simp
  ultimately have "exited ?e \<or> servers_ended ?e"
    using servers_end [of ?m ?q w] by (simp add: rounds daemon_run_append)
  moreover have w: "dm_main ?e = MWait" by (rule wait) simp
  ultimately show ?thesis by (simp add: exited_def)
qed

theorem daemon_failed_listen_witness:
  "\<exists>d. daemon_start sample_world 0 0 0 = Some d \<and>
    servers_ended (daemon_run sample_world
      ([DTun TunStart, DTun (TunTcp (Loop (Fails ''in use'')))] @ concat (replicate 9 sample_round)) d)"
proof -
  obtain d where d: "daemon_start sample_world 0 0 0 = Some d" by (rule sample_start)
  then obtain tun where "dm_tun d = tun_proc_init tun" by (auto simp: daemon_start_def split: option.splits)
  with start_waits [OF d] have "listen_failed (daemon_run sample_world [DTun TunStart, DTun (TunTcp (Loop (Fails ''in use'')))] d)"
    by (simp add: daemon_run_def daemon_step_def exited_def listen_failed_def tun_proc_init_def accept_idle_def accept_loop.simps)
  from daemon_failed_listen [OF d this, of "replicate 9 sample_round"] d sample_round_fair show ?thesis
    by (auto simp: sample_round_def)
qed

text \<open>
  C30. The orderly shutdown and the \<^verbatim>\<open>ssh\<close> child. A process that \<^verbatim>\<open>trySSHRemote\<close> has kept is killed
  before the daemon ends; one that is still in its first three seconds is in no variable yet and
  survives the daemon.
\<close>

theorem shutdown_ssh_child:
  assumes "daemon_start w t1 t2 t3 = Some d" and "e = daemon_run w evs d" and "dm_main e = MWait"
  shows "let f = daemon_run w [DSignal, DStopper, DStopper, DStopper, DMain] e in
    dm_main f = MExit True \<and>
    ssh_child (dm_launch f) = (case la_pc (dm_launch e) of TTrying args url \<Rightarrow> Some args | _ \<Rightarrow> None)"
proof -
  have w: "daemon_wf e" using daemon_wf_run [OF assms(1)] assms(2) by simp
  with assms(3) have "dm_stop e = StopIdle" "tunnel_stop (la_ssh (dm_launch e)) \<noteq> ClosedChan"
    by (simp_all add: daemon_wf_def)
  with assms(3) show ?thesis
    by (cases "tunnel_stop (la_ssh (dm_launch e))")
      (auto simp: daemon_run_def daemon_step_def exited_def stopper_def StopTunnel_def ssh_child_def Let_def split: tunnel_pc.split)
qed

theorem shutdown_ssh_child_witness:
  "\<exists>d. daemon_start sample_world 0 0 0 = Some d \<and>
    ssh_child (dm_launch (daemon_run sample_world [DSignal, DStopper, DStopper, DStopper, DMain]
      (daemon_run sample_world [DLaunch] d))) = Some (ssh_args ''u@h'' ''1088'' ''1088'')"
proof -
  obtain d where d: "daemon_start sample_world 0 0 0 = Some d" by (rule sample_start)
  then have i: "dm_launch d = launch_init" by (auto simp: daemon_start_def split: option.splits)
  have p: "ssh_host ''u@h'' = ''u@h''" "ssh_port ''u@h'' ''1088'' = ''1088''" by code_simp+
  have "w_ssh sample_world = (\<lambda>_. Runs)" by (simp add: sample_world_def)
  then have "dm_main (daemon_run sample_world [DLaunch] d) = MWait"
    "la_pc (dm_launch (daemon_run sample_world [DLaunch] d)) = TTrying (ssh_args ''u@h'' ''1088'' ''1088'') ''u@h:1088''"
    using i start_waits [OF d]
    by (simp_all add: daemon_run_def daemon_step_def exited_def launch_step.simps await_stop_def launch_init_def launch_first_def sample_launch p Let_def)
  with shutdown_ssh_child [OF d refl, of "[DLaunch]"] d show ?thesis by (simp add: Let_def)
qed

text \<open>
  C26. No connection is taken into service once its listener is closed, except the one that the
  accept loop has in hand at that moment, whatever follows.
\<close>

theorem daemon_no_late_service:
  assumes "daemon_start w t1 t2 t3 = Some d" and "e = daemon_run w evs d"
    and "ac_listener (tp_tcp (dm_tun e)) = Shut" and "ac_listener (sp_acc (dm_socks e)) = Shut"
  shows "let f = daemon_run w more_evs e; T = tp_tcp (dm_tun e); S = sp_acc (dm_socks e) in
    served (ac_sys (tp_tcp (dm_tun f))) \<in> {served (ac_sys T), served (ac_sys T) @ in_hand T} \<and>
    served (ac_sys (sp_acc (dm_socks f))) \<in> {served (ac_sys S), served (ac_sys S) @ in_hand S}"
proof -
  let ?f = "daemon_run w more_evs e"
  have wf: "daemon_wf e" using daemon_wf_run [OF assms(1)] assms(2) by simp
  have "daemon_wf ?f \<and> shut_since (tp_tcp (dm_tun e)) (tp_tcp (dm_tun ?f)) \<and> shut_since (sp_acc (dm_socks e)) (sp_acc (dm_socks ?f))"
    proof (rule run_keeps)
    show "daemon_wf e \<and> shut_since (tp_tcp (dm_tun e)) (tp_tcp (dm_tun e)) \<and> shut_since (sp_acc (dm_socks e)) (sp_acc (dm_socks e))"
      using wf assms(3,4) by (simp add: shut_since_def)
  qed (simp add: daemon_wf_step tun_shut_since socks_shut_since)
  then show ?thesis by (auto simp: shut_since_def Let_def)
qed

definition sample_opening :: "daemon_event list" where
  "sample_opening = [DTun TunStart, DTun (TunTcp (Loop Fine)), DSocks SocksStart, DSocks (SocksAccept (Loop Fine)),
     DSignal, DStopper, DStopper]"

theorem daemon_no_late_service_witness:
  "\<exists>d. daemon_start sample_world 0 0 0 = Some d \<and>
    (let e = daemon_run sample_world sample_opening d; f = daemon_run sample_world sample_round e in
     served (ac_sys (tp_tcp (dm_tun f))) \<in> {[], in_hand (tp_tcp (dm_tun e))})"
proof -
  obtain d where d: "daemon_start sample_world 0 0 0 = Some d" by (rule sample_start)
  let ?e = "daemon_run sample_world sample_opening d"
  obtain tun socks where i: "dm_tun d = tun_proc_init tun" "dm_socks d = socks_proc_init socks" "\<not> dm_cancelled d"
    using d by (auto simp: daemon_start_def split: option.splits)
  have "ac_listener (tp_tcp (dm_tun ?e)) = Shut \<and> ac_listener (sp_acc (dm_socks ?e)) = Shut \<and> served (ac_sys (tp_tcp (dm_tun ?e))) = []"
    using i start_waits [OF d]
    by (simp add: sample_opening_def daemon_run_def daemon_step_def exited_def tun_proc_init_def socks_proc_init_def
        accept_idle_def accept_loop.simps stopper_def tun_Stop_def socks_Stop_def shut_def sys_start_def)
  with daemon_no_late_service [OF d refl, of sample_opening sample_round] d show ?thesis by (simp add: Let_def)
qed

text \<open>
  C29. \<^verbatim>\<open>Stop\<close> of the SOCKS5 server does not end its \<^verbatim>\<open>Start\<close>. It cancels a context that nobody watches
  and closes the listener; the loop then fails to accept, does not find its own context done, and
  tries again for ever: \<^verbatim>\<open>Start\<close> never returns, each two turns lead from a failed accept to the
  next, and nobody is served. Only the outer context ends it.
\<close>

theorem socks_stop_spins:
  assumes "p = fold (socks_step False) evs (socks_proc_init s)" and "ac_listener (sp_acc p) \<noteq> Unbound"
  shows "let q = fold (socks_step False) more_evs (socks_Stop p) in
    ac_listener (sp_acc q) = Shut \<and> (\<forall>r. ac_pc (sp_acc q) \<noteq> Finished r) \<and>
    (ac_pc (sp_acc q) = Failed \<longrightarrow>
       ac_pc (sp_acc (fold (socks_step False) [SocksAccept (Loop x), SocksAccept (Loop y)] q)) = Failed) \<and>
    served (ac_sys (sp_acc q)) \<in> {served (ac_sys (sp_acc p)), served (ac_sys (sp_acc p)) @ in_hand (sp_acc p)}"
proof -
  let ?q = "fold (socks_step False) more_evs (socks_Stop p)"
  have "accept_wf (sp_acc p) \<and> ac_pc (sp_acc p) \<noteq> Finished None"
    unfolding assms(1) by (rule never_nil.run_inv) (simp add: socks_proc_init_def, simp add: accept_idle_def)
  with assms(2) have "spinning (socks_Stop p) (socks_Stop p)"
    by (simp add: spinning_def shut_since_def socks_Stop_def shut_def accept_wf_def)
  from spin.run_inv [OF this] have q: "spinning (socks_Stop p) ?q" .
  then have l: "ac_listener (sp_acc ?q) = Shut" and n: "ac_pc (sp_acc ?q) \<noteq> Finished r" for r
    by (cases r; auto simp: spinning_def shut_since_def accept_wf_def unbound_at_def)+
  have "ac_pc (sp_acc (fold (socks_step False) [SocksAccept (Loop x), SocksAccept (Loop y)] ?q)) = Failed" if "ac_pc (sp_acc ?q) = Failed"
    using that l by (simp add: accept_loop.simps)
  moreover have "in_hand (sp_acc (socks_Stop p)) = in_hand (sp_acc p)" "ac_sys (sp_acc (socks_Stop p)) = ac_sys (sp_acc p)"
    by (simp_all add: socks_Stop_def in_hand_def)
  ultimately show ?thesis using q l n by (auto simp: spinning_def shut_since_def Let_def)
qed

theorem socks_stop_spins_witness:
  "\<forall>r. ac_pc (sp_acc (fold (socks_step False) [SocksAccept (Loop Fine), SocksAccept Closer, SocksAccept (Loop Fine)]
    (socks_Stop (fold (socks_step False) [SocksStart, SocksAccept (Loop Fine)] (socks_proc_init (NewSOCKS5Server ''a'' 0)))))) \<noteq> Finished r"
  using socks_stop_spins [OF refl, of "[SocksStart, SocksAccept (Loop Fine)]" "NewSOCKS5Server ''a'' 0"
      "[SocksAccept (Loop Fine), SocksAccept Closer, SocksAccept (Loop Fine)]"]
  by (simp add: socks_proc_init_def accept_idle_def accept_loop.simps socks_Stop_def shut_def)

end
