(* ===== verification/Relay_Main.thy ===== *)
theory Relay_Main
  imports Relay_Sessions Host_Addresses
begin

text \<open>
  \<^verbatim>\<open>main\<close> of the relay server (\<^verbatim>\<open>cmd/relay/main.go\<close>): the address, the accept loop, which starts
  \<^verbatim>\<open>safeHandle\<close> for each connection and goes on after every error, and the goroutine that waits for
  a signal, closes the listener and ends the process.
\<close>

definition relay_listen :: "env \<Rightarrow> string" where
  "relay_listen env = CHR '':'' # getEnv env ''PORT'' ''8080''"

datatype relay_main_pc = RServing | RClosed | RExited

record relay_proc =
  rm_pc :: relay_main_pc      \<comment> \<open>what the goroutine of the signal has done\<close>
  rm_state :: relay_state

datatype relay_main_event =
    RMAccept conn             \<comment> \<open>\<open>Accept\<close> returns a connection\<close>
  | RMError                   \<comment> \<open>\<open>Accept\<close> returns an error, and the loop goes on\<close>
  | RMRun nat
  | RMTimeout nat
  | RMSignal
  | RMExit

text \<open>If it cannot listen the process ends at once.\<close>

definition relay_main :: "bool \<Rightarrow> relay_proc option" where
  "relay_main listens = (if listens then Some \<lparr>rm_pc = RServing, rm_state = relay_init\<rparr> else None)"

fun relay_main_act :: "relay_main_event \<Rightarrow> relay_proc \<Rightarrow> relay_proc" where
  "relay_main_act (RMAccept c) p =
     (if rm_pc p = RServing then p\<lparr>rm_state := relay_step (RAccept c) (rm_state p)\<rparr> else p)"
| "relay_main_act RMError p = p"
| "relay_main_act (RMRun i) p = p\<lparr>rm_state := relay_step (RRun i) (rm_state p)\<rparr>"
| "relay_main_act (RMTimeout i) p = p\<lparr>rm_state := relay_step (RTimeout i) (rm_state p)\<rparr>"
| "relay_main_act RMSignal p = (if rm_pc p = RServing then p\<lparr>rm_pc := RClosed\<rparr> else p)"
| "relay_main_act RMExit p = (if rm_pc p = RClosed then p\<lparr>rm_pc := RExited\<rparr> else p)"

definition relay_main_step :: "relay_main_event \<Rightarrow> relay_proc \<Rightarrow> relay_proc" where
  "relay_main_step ev p = (if rm_pc p = RExited then p else relay_main_act ev p)"

text \<open>The server behind \<open>main\<close> makes runs of its own, so that its invariants hold in the process.\<close>

definition relay_proc_ok :: "relay_proc \<Rightarrow> bool" where
  "relay_proc_ok p \<longleftrightarrow> (\<exists>evs. rm_state p = relay_run evs relay_init)"

lemma relay_run_snoc: "relay_step e (relay_run evs s) = relay_run (evs @ [e]) s"
  by (simp add: relay_run_def)

lemma relay_proc_ok_step: "relay_proc_ok p \<Longrightarrow> relay_proc_ok (relay_main_step ev p)"
proof (cases ev)
  case (RMAccept c)
  then show "relay_proc_ok p \<Longrightarrow> ?thesis"
    by (auto simp: relay_proc_ok_def relay_main_step_def relay_run_snoc simp del: relay_step.simps)
qed (auto simp: relay_proc_ok_def relay_main_step_def relay_run_snoc simp del: relay_step.simps)

interpretation relay_main_inv: step_invariant relay_main_step relay_proc_ok
  by unfold_locales (rule relay_proc_ok_step)

lemma relay_main_safe:
  "relay_main listens = Some p \<Longrightarrow> relay_ok (rm_state (fold relay_main_step evs p))"
proof -
  assume "relay_main listens = Some p"
  then have "rm_state p = relay_run [] relay_init"
    by (auto simp: relay_main_def relay_run_def split: if_splits)
  then have "relay_proc_ok p" unfolding relay_proc_ok_def by blast
  from relay_main_inv.run_inv [OF this, of evs] show ?thesis
    using relay_reachable_ok by (auto simp: relay_proc_ok_def)
qed

text \<open>After the signal no connection is accepted, and the next step of its goroutine ends the process.\<close>

lemma relay_main_closed:
  "rm_pc p \<noteq> RServing \<Longrightarrow> rm_pc (relay_main_step ev p) \<noteq> RServing \<and>
    length (rl_threads (rm_state (relay_main_step ev p))) = length (rl_threads (rm_state p)) \<and>
    rm_pc (relay_main_step RMExit p) = RExited"
  by (cases "rm_pc p"; cases ev) (auto simp: relay_main_step_def relay_refuse_def split: pc.split)

end
