(* ===== verification/Pipe_Rounds.thy ===== *)
theory Pipe_Rounds
  imports Relay_Server
begin

text \<open>
  The pipe of the relay server in its rounds: the two goroutines of \<^verbatim>\<open>pipe\<close>, each one read and one
  write at a time, and the thread that handed the data connection over, which closes it at some
  moment. \<^verbatim>\<open>Relay_Server\<close> runs a pipe in one step; here that is justified, and what a close in its
  midst cuts off is determined.
\<close>

section \<open>Rounds\<close>

record piping =
  pg_a :: conn               \<comment> \<open>the client\<close>
  pg_b :: conn               \<comment> \<open>the data connection\<close>
  pg_buf :: "byte list"      \<comment> \<open>what the client's reader has buffered and not yet passed on\<close>
  pg_up :: bool              \<comment> \<open>the goroutine from the client to the data connection is done\<close>
  pg_down :: bool

datatype pipe_event = PUp | PDown | PClose

text \<open>
  One round of \<^verbatim>\<open>io.Copy(dst, r)\<close>, where \<open>r\<close> reads from \<open>src\<close> behind a buffer, and of the half-close that
  follows the copy.
\<close>

definition half_round :: "byte list \<Rightarrow> conn \<Rightarrow> conn \<Rightarrow> byte list \<times> conn \<times> conn \<times> bool" where
  "half_round buf src dst =
     (if buf \<noteq> [] then
        (let (ok, d) = conn_write buf dst in if ok then ([], src, d, False) else ([], src, halfClose d, True))
      else
        (case conn_read 65536 src of
           None \<Rightarrow> ([], src, halfClose dst, True)
         | Some (b, s) \<Rightarrow>
             if b = [] then ([], s, dst, False)
             else (let (ok, d) = conn_write b dst in if ok then ([], s, d, False) else ([], s, halfClose d, True))))"

fun pipe_step :: "pipe_event \<Rightarrow> piping \<Rightarrow> piping" where
  "pipe_step PUp p =
     (if pg_up p then p
      else (let (buf, a, b, fin) = half_round (pg_buf p) (pg_a p) (pg_b p)
            in p\<lparr>pg_buf := buf, pg_a := a, pg_b := b, pg_up := fin\<rparr>))"
| "pipe_step PDown p =
     (if pg_down p then p
      else (let (_, b, a, fin) = half_round [] (pg_b p) (pg_a p) in p\<lparr>pg_a := a, pg_b := b, pg_down := fin\<rparr>))"
| "pipe_step PClose p = p\<lparr>pg_b := conn_close (pg_b p)\<rparr>"

definition pipe_start :: "byte list \<Rightarrow> conn \<Rightarrow> conn \<Rightarrow> piping" where
  "pipe_start buf a b = \<lparr>pg_a = a, pg_b = b, pg_buf = buf, pg_up = False, pg_down = False\<rparr>"

definition pipe_run :: "pipe_event list \<Rightarrow> piping \<Rightarrow> piping" where
  "pipe_run evs p = fold pipe_step evs p"

lemma pipe_run_simps [simp]:
  "pipe_run [] p = p" "pipe_run (e # es) p = pipe_run es (pipe_step e p)" "pipe_run (xs @ ys) p = pipe_run ys (pipe_run xs p)"
  by (simp_all add: pipe_run_def)

declare pipe_step.simps [simp del]

section \<open>A round is one turn of the loop\<close>

lemma copy_loop_add:
  "copy_loop n src dst (v + w) = (let (s, d, k) = copy_loop n src dst w in (s, d, v + k))"
proof (induction src dst w rule: copy_loop_cases [of n])
  case (wrote src dst w b s d)
  then show ?case using wrote(5) by (simp add: copy_loop_wrote add.assoc)
qed (simp_all add: copy_loop_stop copy_loop_skip copy_loop_failed)

lemma copy_loop_count: "copy_loop n src dst w = (let (s, d, k) = copy_loop n src dst 0 in (s, d, w + k))"
  using copy_loop_add [of n src dst w 0] by simp

lemma half_round_loop:
  assumes "half_round buf src dst = (buf', s, d, fin)"
  shows "pipe_half buf src dst = (if fin then (s, d) else pipe_half buf' s d)"
proof (cases "buf = []")
  case False
  with assms show ?thesis
    by (cases "conn_write buf dst") (auto simp: half_round_def pipe_half_def Let_def split: if_splits)
next
  case True
  show ?thesis
  proof (cases "conn_read 65536 src")
    case None
    with assms True show ?thesis by (simp add: half_round_def pipe_half_def copy_loop_stop)
  next
    case (Some r)
    obtain b s1 where r: "r = (b, s1)" by fastforce
    obtain ok d1 where w: "conn_write b dst = (ok, d1)" by fastforce
    have c: "copy_loop 65536 s1 d1 (length b) = (let (s, d, k) = copy_loop 65536 s1 d1 0 in (s, d, length b + k))"
      by (rule copy_loop_count)
    show ?thesis
      using assms True Some r w c
      by (cases "b = []"; cases ok)
        (auto simp: half_round_def pipe_half_def copy_loop_skip copy_loop_wrote copy_loop_failed Let_def split: prod.splits)
  qed
qed

section \<open>The two directions touch different halves\<close>

lemma halfClose_tcp: "is_tcp c \<Longrightarrow> halfClose c = c\<lparr>wclosed := True\<rparr>"
  by (simp add: halfClose_def)

lemma halfClose_in_half: "halfClose (d\<lparr>inq := q\<rparr>) = (halfClose d)\<lparr>inq := q\<rparr>"
  by (simp add: halfClose_def conn_close_def)

lemma half_round_halves:
  "half_round buf (src\<lparr>outq := x, wq := y, wclosed := z\<rparr>) (dst\<lparr>inq := q\<rparr>) =
    (let (bf, s, d, fin) = half_round buf src dst in (bf, s\<lparr>outq := x, wq := y, wclosed := z\<rparr>, d\<lparr>inq := q\<rparr>, fin))"
  by (simp add: half_round_def conn_read_out_half conn_write_in_half halfClose_in_half Let_def split: option.split prod.split)

lemma pipe_half_halves:
  "pipe_half buf (src\<lparr>outq := x, wq := y, wclosed := z\<rparr>) (dst\<lparr>inq := q\<rparr>) =
    (let (s, d) = pipe_half buf src dst in (s\<lparr>outq := x, wq := y, wclosed := z\<rparr>, d\<lparr>inq := q\<rparr>))"
  by (simp add: pipe_half_def copy_loop_out_half copy_loop_in_half conn_write_in_half halfClose_in_half Let_def split: prod.split)

lemma write_frame:
  assumes "conn_write b dst = (ok, d)" and "is_tcp dst"
  shows "\<exists>x y z. d = dst\<lparr>outq := x, wq := y, wclosed := z\<rparr>" "\<exists>x y z. halfClose d = dst\<lparr>outq := x, wq := y, wclosed := z\<rparr>"
proof -
  obtain x y where d: "d = dst\<lparr>outq := x, wq := y\<rparr>" using conn_write_out(2) [OF assms(1)] by blast
  then show "\<exists>x y z. d = dst\<lparr>outq := x, wq := y, wclosed := z\<rparr>"
    by (intro exI [of _ x] exI [of _ y] exI [of _ "wclosed dst"]) simp
  from d show "\<exists>x y z. halfClose d = dst\<lparr>outq := x, wq := y, wclosed := z\<rparr>"
    using assms(2) by (intro exI [of _ x] exI [of _ y] exI [of _ True]) (simp add: halfClose_tcp)
qed

lemma same_frame:
  assumes "is_tcp dst"
  shows "\<exists>x y z. dst = dst\<lparr>outq := x, wq := y, wclosed := z\<rparr>" "\<exists>x y z. halfClose dst = dst\<lparr>outq := x, wq := y, wclosed := z\<rparr>"
    "\<exists>q. (src :: conn) = src\<lparr>inq := q\<rparr>"
proof -
  show "\<exists>x y z. dst = dst\<lparr>outq := x, wq := y, wclosed := z\<rparr>"
    by (intro exI [of _ "outq dst"] exI [of _ "wq dst"] exI [of _ "wclosed dst"]) simp
  show "\<exists>x y z. halfClose dst = dst\<lparr>outq := x, wq := y, wclosed := z\<rparr>"
    using assms by (intro exI [of _ "outq dst"] exI [of _ "wq dst"] exI [of _ True]) (simp add: halfClose_tcp)
  show "\<exists>q. src = src\<lparr>inq := q\<rparr>" by (intro exI [of _ "inq src"]) simp
qed

lemma half_round_frame:
  assumes "half_round buf src dst = (bf, s, d, fin)" and "is_tcp dst"
  shows "(\<exists>q. s = src\<lparr>inq := q\<rparr>) \<and> (\<exists>x y z. d = dst\<lparr>outq := x, wq := y, wclosed := z\<rparr>)"
proof (cases "buf = []")
  case False
  obtain ok d1 where w: "conn_write buf dst = (ok, d1)" by fastforce
  with False assms(1) have "s = src" "d = d1 \<or> d = halfClose d1" by (auto simp: half_round_def split: if_splits)
  with write_frame [OF w assms(2)] same_frame(3) [OF assms(2), of src] show ?thesis
    by (elim disjE) (simp_all only:)
next
  case True
  show ?thesis
  proof (cases "conn_read 65536 src")
    case None
    with assms(1) True same_frame(2,3) [OF assms(2)] show ?thesis by (auto simp: half_round_def)
  next
    case (Some r)
    obtain b s1 where r: "r = (b, s1)" by fastforce
    obtain ok d1 where w: "conn_write b dst = (ok, d1)" by fastforce
    have "\<exists>q. s1 = src\<lparr>inq := q\<rparr>" using conn_read_Some(2) [OF Some [unfolded r]] by blast
    moreover have "s = s1" "d = dst \<or> d = d1 \<or> d = halfClose d1"
      using assms(1) True Some r w by (auto simp: half_round_def split: if_splits)
    ultimately show ?thesis using write_frame [OF w assms(2)] same_frame(1) [OF assms(2)]
      by (elim disjE) (simp_all only:)
  qed
qed

lemma pipe_half_frame:
  assumes "pipe_half buf src dst = (s, d)" and "is_tcp dst"
  shows "(\<exists>q. s = src\<lparr>inq := q\<rparr>) \<and> (\<exists>x y z. d = dst\<lparr>outq := x, wq := y, wclosed := z\<rparr>)"
proof -
  obtain ok d1 where w: "(if buf = [] then (True, dst) else conn_write buf dst) = (ok, d1)" by fastforce
  have "\<exists>x y. d1 = dst\<lparr>outq := x, wq := y\<rparr>"
  proof (cases "buf = []")
    case True
    with w show ?thesis by (intro exI [of _ "outq dst"] exI [of _ "wq dst"]) simp
  next
    case False
    with w conn_write_out(2) [of buf dst ok d1] show ?thesis by auto
  qed
  then obtain x y where d1: "d1 = dst\<lparr>outq := x, wq := y\<rparr>" by blast
  obtain s2 d2 k where c: "copy_loop 65536 src d1 0 = (s2, d2, k)" by (metis prod_cases3)
  obtain q x2 y2 where f: "s2 = src\<lparr>inq := q\<rparr>" "d2 = d1\<lparr>outq := x2, wq := y2\<rparr>"
    using copy_loop_frame [of 65536 src d1 0, unfolded c fst_conv snd_conv] by blast
  have "d = halfClose (if ok then d2 else d1)" "s = (if ok then s2 else src)"
    using assms(1) w c by (auto simp: pipe_half_def split: if_splits)
  then have "d = dst\<lparr>outq := (if ok then x2 else x), wq := (if ok then y2 else y), wclosed := True\<rparr>"
    and "s = src\<lparr>inq := (if ok then q else inq src)\<rparr>"
    using assms(2) by (simp_all add: f d1 halfClose_tcp)
  then show ?thesis by blast
qed

section \<open>Every interleaving of the rounds is the pipe\<close>

text \<open>What the pipe makes of the rest.\<close>

definition pipe_rest :: "piping \<Rightarrow> conn \<times> conn" where
  "pipe_rest p =
     (let (a, b) = (if pg_up p then (pg_a p, pg_b p) else pipe_half (pg_buf p) (pg_a p) (pg_b p));
          (b, a) = (if pg_down p then (b, a) else pipe_half [] b a)
      in (a, b))"

definition both_tcp :: "piping \<Rightarrow> bool" where
  "both_tcp p \<longleftrightarrow> is_tcp (pg_a p) \<and> is_tcp (pg_b p)"

lemma pipe_rest_up: "pipe_rest (pipe_step PUp p) = pipe_rest p"
proof (cases "pg_up p")
  case False
  obtain buf a b fin where h: "half_round (pg_buf p) (pg_a p) (pg_b p) = (buf, a, b, fin)" by (metis prod_cases4)
  from half_round_loop [OF h] False show ?thesis by (simp add: pipe_rest_def pipe_step.simps h)
qed (simp add: pipe_step.simps)

lemma pipe_rest_down:
  assumes "both_tcp p"
  shows "pipe_rest (pipe_step PDown p) = pipe_rest p"
proof (cases "pg_down p")
  case False
  obtain bf b a fin where h: "half_round [] (pg_b p) (pg_a p) = (bf, b, a, fin)" by (metis prod_cases4)
  have bf: "bf = []" using h by (auto simp: half_round_def Let_def split: option.splits prod.splits if_splits)
  obtain q x y z where f: "b = (pg_b p)\<lparr>inq := q\<rparr>" "a = (pg_a p)\<lparr>outq := x, wq := y, wclosed := z\<rparr>"
    using half_round_frame [OF h] assms unfolding both_tcp_def by blast
  show ?thesis
  proof (cases "pg_up p")
    case True
    with half_round_loop [OF h] False bf show ?thesis by (simp add: pipe_rest_def pipe_step.simps h)
  next
    case up: False
    obtain s d where u: "pipe_half (pg_buf p) (pg_a p) (pg_b p) = (s, d)" by fastforce
    have u': "pipe_half (pg_buf p) a b = (s\<lparr>outq := x, wq := y, wclosed := z\<rparr>, d\<lparr>inq := q\<rparr>)"
      by (simp add: f pipe_half_halves u)
    obtain q2 x2 y2 z2 where f2: "s = (pg_a p)\<lparr>inq := q2\<rparr>" "d = (pg_b p)\<lparr>outq := x2, wq := y2, wclosed := z2\<rparr>"
      using pipe_half_frame [OF u] assms unfolding both_tcp_def by blast
    have "half_round [] d s = ([], d\<lparr>inq := q\<rparr>, s\<lparr>outq := x, wq := y, wclosed := z\<rparr>, fin)"
      unfolding f2 half_round_halves h bf by (simp add: f)
    from half_round_loop [OF this] False up show ?thesis
      by (simp add: pipe_rest_def pipe_step.simps h u u')
  qed
qed (simp add: pipe_step.simps)

lemma both_tcp_step: "both_tcp p \<Longrightarrow> both_tcp (pipe_step e p)"
proof (cases e)
  case PUp
  obtain buf a b fin where h: "half_round (pg_buf p) (pg_a p) (pg_b p) = (buf, a, b, fin)" by (metis prod_cases4)
  assume "both_tcp p"
  with half_round_frame [OF h] PUp h show ?thesis by (auto simp: both_tcp_def pipe_step.simps)
next
  case PDown
  obtain bf b a fin where h: "half_round [] (pg_b p) (pg_a p) = (bf, b, a, fin)" by (metis prod_cases4)
  assume "both_tcp p"
  with half_round_frame [OF h] PDown h show ?thesis by (auto simp: both_tcp_def pipe_step.simps)
qed (simp add: pipe_step.simps both_tcp_def conn_close_def)

lemma pipe_rest_run:
  assumes "both_tcp p" and "PClose \<notin> set evs"
  shows "pipe_rest (pipe_run evs p) = pipe_rest p"
  using assms
proof (induction evs arbitrary: p)
  case (Cons e evs)
  then have "pipe_rest (pipe_step e p) = pipe_rest p"
    by (cases e) (auto simp: pipe_rest_up pipe_rest_down)
  with Cons.IH [OF both_tcp_step [OF Cons.prems(1)]] Cons.prems(2) show ?case by simp
qed simp

section \<open>Both directions end\<close>

definition up_rank :: "piping \<Rightarrow> nat" where
  "up_rank p = (if pg_up p then 0 else (if pg_buf p = [] then 1 else 2) + pending (pg_a p))"

definition down_rank :: "piping \<Rightarrow> nat" where
  "down_rank p = (if pg_down p then 0 else 1 + pending (pg_b p))"

lemma pending_frame [simp]:
  "pending (c\<lparr>outq := x, wq := y, wclosed := z\<rparr>) = pending c" "pending (conn_close c) = pending c"
  by (simp_all add: pending_def conn_close_def)

text \<open>A round ends its direction or leaves less to read.\<close>

lemma half_round_less:
  assumes "half_round buf src dst = (bf, s, d, fin)"
  shows "fin \<or> bf = [] \<and> (buf \<noteq> [] \<and> s = src \<or> buf = [] \<and> pending s < pending src)"
proof (cases "buf = []")
  case True
  with assms show ?thesis
    by (auto simp: half_round_def Let_def split: option.splits prod.splits if_splits dest: conn_read_pending [rotated])
qed (use assms in \<open>auto simp: half_round_def split: prod.splits if_splits\<close>)

lemma up_rank_step:
  "both_tcp p \<Longrightarrow> up_rank (pipe_step e p) \<le> up_rank p" "both_tcp p \<Longrightarrow> up_rank p \<noteq> 0 \<Longrightarrow> up_rank (pipe_step PUp p) < up_rank p"
proof -
  have up: "pg_up p \<or> up_rank (pipe_step PUp p) < up_rank p"
  proof -
    obtain buf a b fin where h: "half_round (pg_buf p) (pg_a p) (pg_b p) = (buf, a, b, fin)" by (metis prod_cases4)
    from half_round_less [OF h] show ?thesis by (auto simp: up_rank_def pipe_step.simps h)
  qed
  then show "up_rank p \<noteq> 0 \<Longrightarrow> up_rank (pipe_step PUp p) < up_rank p" by (auto simp: up_rank_def)
  assume t: "both_tcp p"
  show "up_rank (pipe_step e p) \<le> up_rank p"
  proof (cases e)
    case PUp
    with up show ?thesis by (auto simp: pipe_step.simps)
  next
    case PDown
    obtain bf b a fin where h: "half_round [] (pg_b p) (pg_a p) = (bf, b, a, fin)" by (metis prod_cases4)
    then have "pending a = pending (pg_a p)" using half_round_frame [OF h] t by (auto simp: both_tcp_def)
    with PDown h show ?thesis by (simp add: up_rank_def pipe_step.simps)
  qed (simp add: up_rank_def pipe_step.simps)
qed

lemma down_rank_step:
  "both_tcp p \<Longrightarrow> down_rank (pipe_step e p) \<le> down_rank p" "both_tcp p \<Longrightarrow> down_rank p \<noteq> 0 \<Longrightarrow> down_rank (pipe_step PDown p) < down_rank p"
proof -
  have down: "pg_down p \<or> down_rank (pipe_step PDown p) < down_rank p"
  proof -
    obtain bf b a fin where h: "half_round [] (pg_b p) (pg_a p) = (bf, b, a, fin)" by (metis prod_cases4)
    from half_round_less [OF h] show ?thesis by (auto simp: down_rank_def pipe_step.simps h)
  qed
  then show "down_rank p \<noteq> 0 \<Longrightarrow> down_rank (pipe_step PDown p) < down_rank p" by (auto simp: down_rank_def)
  assume t: "both_tcp p"
  show "down_rank (pipe_step e p) \<le> down_rank p"
  proof (cases e)
    case PDown
    with down show ?thesis by (auto simp: pipe_step.simps)
  next
    case PUp
    obtain bf a b fin where h: "half_round (pg_buf p) (pg_a p) (pg_b p) = (bf, a, b, fin)" by (metis prod_cases4)
    then have "pending b = pending (pg_b p)" using half_round_frame [OF h] t by (auto simp: both_tcp_def)
    with PUp h show ?thesis by (simp add: down_rank_def pipe_step.simps)
  qed (simp add: down_rank_def pipe_step.simps)
qed

interpretation up_ends: fair_rounds pipe_step both_tcp up_rank "\<lambda>_. {PUp}"
  by unfold_locales (auto simp: both_tcp_step up_rank_step)

interpretation down_ends: fair_rounds pipe_step both_tcp down_rank "\<lambda>_. {PDown}"
  by unfold_locales (auto simp: both_tcp_step down_rank_step)

section \<open>A close in the midst\<close>

text \<open>What has crossed and what has not add up, as long as nobody closes.\<close>

definition flows :: "byte list \<Rightarrow> byte list \<Rightarrow> piping \<Rightarrow> bool" where
  "flows up down p \<longleftrightarrow> both_tcp p \<and> \<not> closed (pg_a p) \<and> \<not> closed (pg_b p) \<and>
     (pg_up p \<longrightarrow> pg_buf p = [] \<and> stream (pg_a p) = []) \<and> (\<not> pg_up p \<longrightarrow> writable (pg_b p)) \<and>
     (pg_down p \<longrightarrow> stream (pg_b p) = []) \<and> (\<not> pg_down p \<longrightarrow> writable (pg_a p)) \<and>
     outq (pg_b p) @ pg_buf p @ stream (pg_a p) = up \<and> outq (pg_a p) @ stream (pg_b p) = down"

text \<open>A round into a connection that takes every write.\<close>

lemma half_round_writable:
  assumes "half_round buf src dst = (bf, s, d, fin)" and "writable dst" and "is_tcp dst" and "\<not> closed src"
  shows "outq d @ bf @ stream s = outq dst @ buf @ stream src" "fin \<Longrightarrow> bf = [] \<and> stream s = []"
    "\<not> fin \<Longrightarrow> writable d" "stream d = stream dst" "writable s = writable src" "outq s = outq src"
    "closed s = closed src" "closed d = closed dst"
proof -
  have "outq d @ bf @ stream s = outq dst @ buf @ stream src \<and> (fin \<longrightarrow> bf = [] \<and> stream s = []) \<and>
    (\<not> fin \<longrightarrow> writable d) \<and> stream d = stream dst \<and> writable s = writable src \<and> outq s = outq src \<and>
    closed s = closed src \<and> closed d = closed dst"
  proof (cases "buf = []")
    case True
    show ?thesis
    proof (cases "conn_read 65536 src")
      case None
      with conn_read_None_stream [OF None] assms True show ?thesis
        by (auto simp: half_round_def halfClose_tcp stream_def)
    next
      case (Some r)
      obtain b s1 where r: "r = (b, s1)" by fastforce
      note R = conn_read_Some [OF Some [unfolded r]]
      have "writable s1 = writable src" "outq s1 = outq src" by (subst R(2), simp)+
      with assms True Some r R show ?thesis by (auto simp: half_round_def split: if_splits)
    qed
  qed (use assms in \<open>auto simp: half_round_def\<close>)
  then show "outq d @ bf @ stream s = outq dst @ buf @ stream src" "fin \<Longrightarrow> bf = [] \<and> stream s = []"
    "\<not> fin \<Longrightarrow> writable d" "stream d = stream dst" "writable s = writable src" "outq s = outq src"
    "closed s = closed src" "closed d = closed dst" by simp_all
qed

lemma flows_step:
  assumes "flows up down p" and "e \<noteq> PClose"
  shows "flows up down (pipe_step e p)"
proof (cases e)
  case PUp
  show ?thesis
  proof (cases "pg_up p")
    case False
    obtain bf a b fin where h: "half_round (pg_buf p) (pg_a p) (pg_b p) = (bf, a, b, fin)" by (metis prod_cases4)
    have "writable (pg_b p)" "is_tcp (pg_b p)" "\<not> closed (pg_a p)" using assms False by (simp_all add: flows_def both_tcp_def)
    note H = half_round_writable [OF h this]
    have "both_tcp (pipe_step PUp p)" using assms(1) by (simp add: both_tcp_step flows_def)
    with H assms(1) False show ?thesis by (auto simp: PUp flows_def pipe_step.simps h)
  qed (use assms in \<open>simp add: PUp pipe_step.simps\<close>)
next
  case PDown
  show ?thesis
  proof (cases "pg_down p")
    case False
    obtain bf b a fin where h: "half_round [] (pg_b p) (pg_a p) = (bf, b, a, fin)" by (metis prod_cases4)
    have bf: "bf = []" using h by (auto simp: half_round_def Let_def split: option.splits prod.splits if_splits)
    have "writable (pg_a p)" "is_tcp (pg_a p)" "\<not> closed (pg_b p)" using assms False by (simp_all add: flows_def both_tcp_def)
    note H = half_round_writable [OF h this]
    have "both_tcp (pipe_step PDown p)" using assms(1) by (simp add: both_tcp_step flows_def)
    with H bf assms(1) False show ?thesis by (auto simp: PDown flows_def pipe_step.simps h)
  qed (use assms in \<open>simp add: PDown pipe_step.simps\<close>)
qed (use assms in simp)

lemma flows_run: "flows up down p \<Longrightarrow> PClose \<notin> set evs \<Longrightarrow> flows up down (pipe_run evs p)"
  by (induction evs arbitrary: p) (auto simp: flows_step)

text \<open>Once the data connection is closed nothing crosses any more.\<close>

definition cut_off :: "byte list \<Rightarrow> byte list \<Rightarrow> piping \<Rightarrow> bool" where
  "cut_off a b p \<longleftrightarrow> closed (pg_b p) \<and> outq (pg_a p) = a \<and> outq (pg_b p) = b"

lemma conn_write_shut: "closed c \<Longrightarrow> conn_write b c = (False, c)"
  by (simp add: conn_write_def)

lemma conn_read_shut: "closed c \<Longrightarrow> conn_read n c = None"
  by (simp add: conn_read_def)

lemma halfClose_keeps [simp]: "outq (halfClose c) = outq c" "closed c \<Longrightarrow> closed (halfClose c)"
  by (simp_all add: halfClose_def conn_close_def)

lemma conn_read_outq: "conn_read n c = Some (b, c') \<Longrightarrow> outq c' = outq c"
  by (auto simp: conn_read_def split: list.splits if_splits)

lemma cut_off_step: "cut_off a b p \<Longrightarrow> cut_off a b (pipe_step e p)"
  by (cases e)
    (auto simp: cut_off_def pipe_step.simps half_round_def conn_write_shut conn_read_shut conn_read_outq conn_close_def
      split: option.split prod.split)

interpretation cut: step_invariant pipe_step "cut_off a b" for a b
  by unfold_locales (rule cut_off_step)

section \<open>Properties\<close>

text \<open>
  C21. The two goroutines of a pipe end, whatever the interleaving of their rounds: after as many rounds
  as there are segments and bytes to read, and two more, in which each gets a turn, even if the data
  connection is closed in their midst. If it is not, both connections end as they do when the pipe runs
  in one step, the client's direction first.
\<close>

theorem relay_pipe_interleaved:
  assumes "is_tcp a" and "is_tcp b" and "\<forall>es\<in>set rounds. PUp \<in> set es \<and> PDown \<in> set es"
    and "2 + pending a + pending b \<le> length rounds"
  shows "let p = pipe_run (concat rounds) (pipe_start buf a b) in
    pg_up p \<and> pg_down p \<and> (PClose \<notin> set (concat rounds) \<longrightarrow> (pg_a p, pg_b p) = pipe buf a b)"
proof -
  let ?s = "pipe_start buf a b" and ?p = "pipe_run (concat rounds) (pipe_start buf a b)"
  have t: "both_tcp ?s" using assms(1,2) by (simp add: both_tcp_def pipe_start_def)
  have "up_rank ?s \<le> length rounds" "down_rank ?s \<le> length rounds"
    using assms(4) by (simp_all add: up_rank_def down_rank_def pipe_start_def)
  moreover have "\<forall>es\<in>set rounds. up_ends.fair es" "\<forall>es\<in>set rounds. down_ends.fair es"
    using assms(3) by (auto simp: up_ends.fair_def down_ends.fair_def)
  ultimately have "up_rank ?p = 0" "down_rank ?p = 0"
    using up_ends.descent_ends(2) [OF t] down_ends.descent_ends(2) [OF t] by (simp_all add: pipe_run_def)
  then have d: "pg_up ?p" "pg_down ?p" by (auto simp: up_rank_def down_rank_def split: if_splits)
  then have "pipe_rest ?p = (pg_a ?p, pg_b ?p)" by (simp add: pipe_rest_def)
  moreover have "pipe_rest ?s = pipe buf a b" by (simp add: pipe_rest_def pipe_start_def pipe_def)
  ultimately show ?thesis using d pipe_rest_run [OF t, of "concat rounds"] by (auto simp: Let_def)
qed

theorem relay_pipe_interleaved_witness:
  "let p = pipe_run (concat (replicate 6 [PDown, PUp])) (pipe_start [] (fresh_conn [[1]] []) (fresh_conn [[2]] [])) in
    (pg_a p, pg_b p) = pipe [] (fresh_conn [[1]] []) (fresh_conn [[2]] [])"
  using relay_pipe_interleaved [of "fresh_conn [[1]] []" "fresh_conn [[2]] []" "replicate 6 [PDown, PUp]" "[]"]
  by (simp add: fresh_conn_def pending_def Let_def)

text \<open>
  What a close in the midst of a pipe cuts off. Whatever rounds have run before the thread of
  the data connection closes it and whatever rounds follow: neither side gets a byte after the close;
  before it each has got, in order, a prefix of what the other sent, and what is missing is exactly what
  was still buffered or unread.
\<close>

lemma relay_pipe_cut:
  assumes "writable a" and "writable b" and "is_tcp a" and "is_tcp b" and "PClose \<notin> set evs"
  shows "let p = pipe_run evs (pipe_start buf a b); q = pipe_run (evs @ PClose # evs') (pipe_start buf a b) in
    outq (pg_a q) = outq (pg_a p) \<and> outq (pg_b q) = outq (pg_b p) \<and>
    outq (pg_a p) @ stream (pg_b p) = outq a @ stream b \<and>
    outq (pg_b p) @ pg_buf p @ stream (pg_a p) = outq b @ buf @ stream a"
proof -
  let ?s = "pipe_start buf a b" and ?p = "pipe_run evs (pipe_start buf a b)"
  have "flows (outq b @ buf @ stream a) (outq a @ stream b) ?s"
    using assms(1-4) by (simp add: flows_def pipe_start_def both_tcp_def writable_def)
  from flows_run [OF this assms(5)] have f: "flows (outq b @ buf @ stream a) (outq a @ stream b) ?p" .
  have "cut_off (outq (pg_a ?p)) (outq (pg_b ?p)) (pipe_step PClose ?p)"
    by (simp add: cut_off_def pipe_step.simps conn_close_def)
  from cut.run_inv [OF this, of evs'] f show ?thesis
    by (simp add: flows_def cut_off_def Let_def pipe_run_def)
qed

lemma relay_pipe_cut_witness:
  "let q = pipe_run [PDown, PClose, PDown, PUp] (pipe_start [] (fresh_conn [[1]] []) (fresh_conn [[2], [3]] [])) in
    outq (pg_a q) = [2] \<and> outq (pg_b q) = []"
proof -
  have "pipe_run [PDown] (pipe_start [] (fresh_conn [[1]] []) (fresh_conn [[2], [3]] [])) =
    \<lparr>pg_a = (fresh_conn [[1]] [])\<lparr>outq := [2]\<rparr>, pg_b = fresh_conn [[3]] [], pg_buf = [], pg_up = False, pg_down = False\<rparr>"
    by (simp add: pipe_start_def pipe_step.simps half_round_def conn_read_def conn_write_def fresh_conn_def)
  with relay_pipe_cut [of "fresh_conn [[1]] []" "fresh_conn [[2], [3]] []" "[PDown]" "[]" "[PDown, PUp]"] show ?thesis
    by (simp add: fresh_conn_def writable_def Let_def)
qed

end
