(* ===== verification/Relay_Pipes.thy ===== *)
theory Relay_Pipes
  imports Relay_Sessions Pipe_Rounds
begin

text \<open>
  The relay server with its pipes in rounds among the other threads: a thread that has been handed a
  data connection starts the two goroutines of \<^verbatim>\<open>pipe\<close>, whose rounds interleave with every step of
  the server, waits for both and returns. All other steps are those of \<^verbatim>\<open>Relay_Server\<close>.
\<close>

section \<open>Steps\<close>

text \<open>The two goroutines of a pipe: what the client's reader has buffered, and which of them are done.\<close>

record copying =
  cp_buf :: "byte list"
  cp_up :: bool
  cp_down :: bool

record fine_state =
  fn_relay :: relay_state
  fn_pipes :: "nat \<Rightarrow> copying option"    \<comment> \<open>by the thread that waits for them\<close>

datatype fine_event =
    FServer relay_event
  | FUp nat                  \<comment> \<open>a round from the client of this thread to its data connection\<close>
  | FDown nat

definition fine_init :: fine_state where
  "fine_init = \<lparr>fn_relay = relay_init, fn_pipes = (\<lambda>_. None)\<rparr>"

text \<open>The data connection that thread \<open>i\<close> pipes.\<close>

definition piped_by :: "nat \<Rightarrow> relay_state \<Rightarrow> nat option" where
  "piped_by i s =
     (if i < length (rl_threads s) then (case th_pc (rl_threads s ! i) of Piping d \<Rightarrow> Some d | _ \<Rightarrow> None) else None)"

definition piping_of :: "nat \<Rightarrow> nat \<Rightarrow> copying \<Rightarrow> relay_state \<Rightarrow> piping" where
  "piping_of i d k s =
     \<lparr>pg_a = rl_conns s ! i, pg_b = rl_conns s ! d, pg_buf = cp_buf k, pg_up = cp_up k, pg_down = cp_down k\<rparr>"

definition put_piping :: "nat \<Rightarrow> nat \<Rightarrow> piping \<Rightarrow> fine_state \<Rightarrow> fine_state" where
  "put_piping i d p f =
     \<lparr>fn_relay = on_conn d (\<lambda>_. pg_b p) (on_conn i (\<lambda>_. pg_a p) (fn_relay f)),
      fn_pipes = (fn_pipes f)(i \<mapsto> \<lparr>cp_buf = pg_buf p, cp_up = pg_up p, cp_down = pg_down p\<rparr>)\<rparr>"

definition fine_round :: "pipe_event \<Rightarrow> nat \<Rightarrow> fine_state \<Rightarrow> fine_state" where
  "fine_round e i f =
     (case (piped_by i (fn_relay f), fn_pipes f i) of
        (Some d, Some k) \<Rightarrow> put_piping i d (pipe_step e (piping_of i d k (fn_relay f))) f
      | _ \<Rightarrow> f)"

definition fine_turn :: "nat \<Rightarrow> fine_state \<Rightarrow> fine_state" where
  "fine_turn i f =
     (case piped_by i (fn_relay f) of
        None \<Rightarrow> f\<lparr>fn_relay := relay_step (RRun i) (fn_relay f)\<rparr>
      | Some d \<Rightarrow>
          (case fn_pipes f i of
             None \<Rightarrow>
               f\<lparr>fn_pipes := (fn_pipes f)(i \<mapsto> \<lparr>cp_buf = th_buf (rl_threads (fn_relay f) ! i), cp_up = False, cp_down = False\<rparr>)\<rparr>
           | Some k \<Rightarrow> if cp_up k \<and> cp_down k then f\<lparr>fn_relay := goto i Returning (fn_relay f)\<rparr> else f))"

fun fine_step :: "fine_event \<Rightarrow> fine_state \<Rightarrow> fine_state" where
  "fine_step (FServer (RRun i)) f = fine_turn i f"
| "fine_step (FServer (RAccept c)) f = f\<lparr>fn_relay := relay_step (RAccept c) (fn_relay f)\<rparr>"
| "fine_step (FServer (RTimeout i)) f = f\<lparr>fn_relay := relay_step (RTimeout i) (fn_relay f)\<rparr>"
| "fine_step (FUp i) f = fine_round PUp i f"
| "fine_step (FDown i) f = fine_round PDown i f"

definition fine_run :: "fine_event list \<Rightarrow> fine_state \<Rightarrow> fine_state" where
  "fine_run evs f = fold fine_step evs f"

section \<open>Phones and data connections are different\<close>

text \<open>
  The threads of phones, those that have registered: a message goes to one of them, and none of them
  hands its connection over.
\<close>

definition phone_pc :: "pc \<Rightarrow> bool" where
  "phone_pc p \<longleftrightarrow> pid_of p \<noteq> None \<or> p = Returning \<or> p = Ended"

definition fits :: "nat set \<Rightarrow> nat \<Rightarrow> pc \<Rightarrow> bool" where
  "fits P i p \<longleftrightarrow> (pid_of p \<noteq> None \<longrightarrow> i \<in> P) \<and> (\<forall>cid ch sc target. p = Telling cid ch sc target \<longrightarrow> sc \<in> P) \<and>
     (i \<in> P \<longrightarrow> phone_pc p) \<and> (\<forall>d. p = Piping d \<longrightarrow> d \<notin> P)"

definition phones_ok :: "nat set \<Rightarrow> relay_state \<Rightarrow> bool" where
  "phones_ok P s \<longleftrightarrow> (\<forall>i p. at_pc i p s \<longrightarrow> fits P i p) \<and> (\<forall>d. Some d \<in> set (rl_chans s) \<longrightarrow> d \<notin> P) \<and>
     (\<forall>i\<in>P. i < length (rl_threads s))"

lemma phones_ok_frame [simp]:
  "phones_ok P (on_conn i f s) = phones_ok P s" "phones_ok P (s\<lparr>rl_wait := w\<rparr>) = phones_ok P s"
  "phones_ok P (s\<lparr>rl_cid := n\<rparr>) = phones_ok P s" "phones_ok P (s\<lparr>rl_next := n\<rparr>) = phones_ok P s"
  "phones_ok P (s\<lparr>rl_ctrl := m\<rparr>) = phones_ok P s" "phones_ok P (s\<lparr>rl_last := l\<rparr>) = phones_ok P s"
  by (simp_all add: phones_ok_def at_pc_def)

lemma phones_ok_goto: "phones_ok P s \<Longrightarrow> fits P i p \<Longrightarrow> phones_ok P (goto i p s)"
  by (simp add: phones_ok_def at_pc_goto)

lemma phones_ok_chans: "phones_ok P s \<Longrightarrow> (\<And>d. Some d \<in> set cs \<Longrightarrow> d \<notin> P) \<Longrightarrow> phones_ok P (s\<lparr>rl_chans := cs\<rparr>)"
  by (simp add: phones_ok_def at_pc_def)

lemma phones_ok_new_chan [simp]: "phones_ok P (new_chan k s) = phones_ok P s"
  by (auto simp: phones_ok_def at_pc_def new_chan_def)

lemma phones_ok_take: "phones_ok P s \<Longrightarrow> phones_ok P (take_chan ch s)"
  unfolding take_chan_def by (rule phones_ok_chans) (auto simp: phones_ok_def dest: in_set_update)

lemma phones_okD: "phones_ok P s \<Longrightarrow> at_pc i p s \<Longrightarrow> fits P i p"
  by (simp add: phones_ok_def)

lemma not_phone: "phones_ok P s \<Longrightarrow> at_pc i p s \<Longrightarrow> \<not> phone_pc p \<Longrightarrow> i \<notin> P"
  using phones_okD by (auto simp: fits_def)

text \<open>What a thread may go to that is no phone, and what a phone may go to.\<close>

lemma fits_simps [simp]:
  "fits P i Returning" "fits P i Ended" "fits P i (Announce pid) \<longleftrightarrow> i \<in> P" "fits P i (Listening pid) \<longleftrightarrow> i \<in> P"
  "fits P i (Knocking w ch) \<longleftrightarrow> i \<notin> P" "fits P i (AwaitData ch) \<longleftrightarrow> i \<notin> P" "fits P i (HandOver ch) \<longleftrightarrow> i \<notin> P"
  "fits P i (Targeted t) \<longleftrightarrow> i \<notin> P" "fits P i (Chosen l t) \<longleftrightarrow> i \<notin> P" "fits P i (Noted cid ch l t) \<longleftrightarrow> i \<notin> P"
  "fits P i (Telling cid ch sc t) \<longleftrightarrow> i \<notin> P \<and> sc \<in> P" "fits P i (AwaitSocks cid ch) \<longleftrightarrow> i \<notin> P"
  "fits P i (Piping d) \<longleftrightarrow> i \<notin> P \<and> d \<notin> P" "fits P i Fresh \<longleftrightarrow> i \<notin> P"
  by (auto simp: fits_def phone_pc_def)

lemma fits_old: "fits P i p \<Longrightarrow> \<not> phone_pc p \<Longrightarrow> i \<notin> P"
  by (simp add: fits_def)

lemma phones_ok_refuse: "phones_ok P s \<Longrightarrow> phones_ok P (relay_refuse i cid rep s)"
  by (simp add: relay_refuse_def phones_ok_goto)

text \<open>A connection that is still read from has not been handed over, so that its thread may become a phone.\<close>

lemma fresh_not_data:
  assumes "relay_ok s" and "at_pc i Fresh s"
  shows "Some i \<notin> set (rl_chans s)" "\<not> at_pc j (Piping i) s"
proof -
  have c: "chan_ok (roles s) (rl_wait s) (rl_chans s)" using assms(1) by (simp add: relay_ok_def)
  have r: "roles s ! i = Elsewhere" using at_pcD(2) [OF assms(2)] by simp
  show "Some i \<notin> set (rl_chans s)"
  proof
    assume "Some i \<in> set (rl_chans s)"
    then obtain ch where "ch < length (rl_chans s)" "rl_chans s ! ch = Some i" by (metis in_set_conv_nth)
    from chan_okD(5) [OF c this] r show False by simp
  qed
  show "\<not> at_pc j (Piping i) s"
  proof
    assume "at_pc j (Piping i) s"
    from at_pcD [OF this] have "Pipes i \<in> set (roles s)" using nth_mem [of j "roles s"] by simp
    from chan_okD(7) [OF c this] r show False by simp
  qed
qed

lemma phones_ok_register:
  assumes "phones_ok P s" and "relay_ok s" and "at_pc i Fresh s"
  shows "phones_ok (insert i P) (goto i (Announce pid) s)"
proof -
  note F = fresh_not_data [OF assms(2,3)]
  have "fits (insert i P) j p" if "at_pc j p s" "j \<noteq> i" for j p
  proof -
    have "p \<noteq> Piping i" using F(2) that by auto
    with phones_okD [OF assms(1) that(1)] that(2) show ?thesis by (auto simp: fits_def)
  qed
  with assms(1) F(1) at_pc_threads [OF assms(3)] show ?thesis by (auto simp: phones_ok_def at_pc_goto)
qed

lemma phones_ok_line:
  assumes "phones_ok P s" and "relay_ok s" and i: "at_pc i Fresh s"
  shows "\<exists>P. phones_ok P (relay_line i line rest s)"
proof -
  have n: "i \<notin> P" using phones_okD [OF assms(1) i] by simp
  note q = phones_ok_goto [OF assms(1)]
  have th: "phones_ok P (t\<lparr>rl_threads := ts[i := \<lparr>th_pc = p, th_buf = b\<rparr>]\<rparr>)"
    if "phones_ok P t" "ts = rl_threads t" "fits P i p" for t ts p b
    using that by (cases "i < length (rl_threads t)") (auto simp: phones_ok_def at_pc_def nth_list_update)
  show ?thesis
  proof (cases "line = ''register''")
    case True
    have "phones_ok (insert i P) (goto i (Announce pid) t)" if "rl_threads t = rl_threads s" "rl_chans t = rl_chans s" for pid t
      using phones_ok_register [OF assms, of pid] that by (simp add: phones_ok_def at_pc_def goto_def)
    then have "\<exists>P. phones_ok P (goto i (Announce pid) t)" if "rl_threads t = rl_threads s" "rl_chans t = rl_chans s" for pid t
      using that by blast
    with True show ?thesis by (simp add: relay_line_def Let_def)
  next
    case False
    with assms(1) n have "phones_ok P (relay_line i line rest s)"
      by (simp add: relay_line_def Let_def phones_ok_goto th split: option.split)
    then show ?thesis by blast
  qed
qed

lemma phones_ok_fresh:
  assumes "phones_ok P s" and "relay_ok s" and i: "at_pc i Fresh s"
  shows "\<exists>P. phones_ok P (relay_fresh i s)"
proof -
  have "i \<notin> P" using phones_okD [OF assms(1) i] by simp
  with assms(1) have "\<exists>P. phones_ok P (goto i p (on_conn i f s))" if "p = Returning \<or> (\<exists>t. p = Targeted t)" for f p
    using that by (intro exI [of _ P] phones_ok_goto) auto
  moreover have "\<exists>P. phones_ok P (relay_line i line rest (on_conn i f s))" for line rest f
    using assms by (intro phones_ok_line) simp_all
  ultimately show ?thesis by (simp add: relay_fresh_def Let_def split: option.split sum.split prod.split)
qed

lemma registered_phone:
  assumes "phones_ok P s" and "relay_ok s" and "map_of (rl_ctrl s) k = Some sc"
  shows "sc \<in> P" "at_pc sc p s \<Longrightarrow> pid_of p \<noteq> None"
proof -
  have "(k, sc) \<in> set (rl_ctrl s)" using assms(3) by (rule map_of_SomeD)
  then have sc: "sc < length (rl_threads s)" "pid_of (th_pc (rl_threads s ! sc)) = Some k"
    using assms(2) by (auto simp: relay_ok_def registry_ok_def pids_def)
  then have "at_pc sc (th_pc (rl_threads s ! sc)) s" by (simp add: at_pc_def)
  from phones_okD [OF assms(1) this] sc show "sc \<in> P" by (simp add: fits_def)
  show "at_pc sc p s \<Longrightarrow> pid_of p \<noteq> None" using sc by (auto simp: at_pc_def)
qed

lemma phones_ok_pc:
  assumes P: "phones_ok P s" and ok: "relay_ok s" and i: "at_pc i p s"
  shows "\<exists>P. phones_ok P (relay_pc i p s)"
proof -
  have held: "d \<notin> P" if "rl_chans s ! ch = Some d" "ch < length (rl_chans s)" for ch d
    using P that by (metis nth_mem phones_ok_def)
  have w: "ch < length (rl_chans s)" if "role_of p = Waits ch" for ch
  proof -
    have "Waits ch \<in> set (roles s)" using at_pcD [OF i] that nth_mem [of i "roles s"] by simp
    then show ?thesis using ok chan_okD(3) by (auto simp: relay_ok_def)
  qed
  note F = phones_okD [OF P i]
  show ?thesis
  proof (cases p)
    case Fresh
    with phones_ok_fresh [OF P ok] i show ?thesis by simp
  next
    case (Noted cid ch phone target)
    with F registered_phone(1) [OF P ok] P show ?thesis
      by (auto simp: phones_ok_goto phones_ok_refuse intro!: exI [of _ P] split: option.split)
  next
    case (HandOver ch)
    then have "i \<notin> P" using F by simp
    with P have "phones_ok P (s\<lparr>rl_chans := (rl_chans s)[ch := Some i]\<rparr>)"
      by (intro phones_ok_chans) (auto simp: phones_ok_def dest: in_set_update)
    then show ?thesis by (auto simp: HandOver intro!: exI [of _ P] phones_ok_goto)
  next
    case (AwaitData ch)
    with F P held [of ch] w [of ch] show ?thesis
      by (auto simp: phones_ok_goto phones_ok_take intro!: exI [of _ P] split: option.split)
  next
    case (AwaitSocks cid ch)
    with F P held [of ch] w [of ch] show ?thesis
      by (auto simp: phones_ok_goto phones_ok_take intro!: exI [of _ P] split: option.split)
  qed (use F P in \<open>auto simp: phones_ok_goto phones_ok_refuse relay_leave_def Let_def
         intro!: exI [of _ P] split: option.split prod.split\<close>)
qed

lemma phones_ok_step:
  assumes P: "phones_ok P s" and ok: "relay_ok s"
  shows "\<exists>P. phones_ok P (relay_step e s)"
proof (cases e)
  case (RAccept c)
  let ?n = "length (rl_threads s)"
  have "?n \<notin> P" using P by (auto simp: phones_ok_def)
  then have "fits P j p" if "at_pc j p (relay_step e s)" for j p
    using that P by (auto simp: RAccept at_pc_def nth_append phones_ok_def split: if_splits)
  then have "phones_ok P (relay_step e s)"
    using P by (simp add: phones_ok_def RAccept less_SucI)
  then show ?thesis by blast
next
  case (RRun i)
  with phones_ok_pc [OF P ok, of i "th_pc (rl_threads s ! i)"] P show ?thesis by (auto simp: at_pc_def)
next
  case (RTimeout i)
  have "phones_ok P (relay_step e s)"
    using P by (auto simp: RTimeout phones_ok_goto phones_ok_refuse split: pc.split)
  then show ?thesis by blast
qed

section \<open>The invariant\<close>

definition fine_ok :: "fine_state \<Rightarrow> bool" where
  "fine_ok f \<longleftrightarrow> relay_ok (fn_relay f) \<and> (\<exists>P. phones_ok P (fn_relay f))"

lemma piped_by_at: "piped_by i s = Some d \<longleftrightarrow> at_pc i (Piping d) s"
  by (simp add: piped_by_def at_pc_def split: pc.split)

lemma fine_ok_step:
  assumes "fine_ok f"
  shows "fine_ok (fine_step e f)"
proof -
  have server: "fine_ok (f\<lparr>fn_relay := relay_step ev (fn_relay f)\<rparr>)" for ev
    using assms relay_ok_step phones_ok_step by (auto simp: fine_ok_def simp del: relay_step.simps)
  have round: "fine_ok (fine_round pe i f)" for pe i
    using assms by (simp add: fine_ok_def fine_round_def put_piping_def split: option.split)
  have turn: "fine_ok (fine_turn i f)" for i
  proof (cases "piped_by i (fn_relay f)")
    case (Some d)
    then have at: "at_pc i (Piping d) (fn_relay f)" by (simp add: piped_by_at)
    have "relay_ok (goto i Returning (fn_relay f))"
      using assms at by (intro relay_ok_goto(1) [OF _ at]) (simp_all add: fine_ok_def)
    moreover obtain P where "phones_ok P (fn_relay f)" using assms by (auto simp: fine_ok_def)
    then have "phones_ok P (goto i Returning (fn_relay f))" by (rule phones_ok_goto) simp
    ultimately have "fine_ok (f\<lparr>fn_relay := goto i Returning (fn_relay f)\<rparr>)" by (auto simp: fine_ok_def)
    with assms Some show ?thesis by (auto simp: fine_turn_def fine_ok_def split: option.split)
  qed (use server in \<open>simp add: fine_turn_def del: relay_step.simps\<close>)
  show ?thesis using server round turn by (cases e rule: fine_event.exhaust; cases "(e, f)" rule: fine_step.cases) (auto simp del: relay_step.simps)
qed

interpretation fine_inv: step_invariant fine_step fine_ok
  by unfold_locales (rule fine_ok_step)

lemma fine_ok_init: "fine_ok fine_init"
proof -
  have "phones_ok {} relay_init" by (simp add: phones_ok_def at_pc_def relay_init_def)
  then show ?thesis using relay_ok_init by (auto simp: fine_ok_def fine_init_def)
qed

lemma fine_run_simps [simp]:
  "fine_run [] f = f" "fine_run (e # es) f = fine_run es (fine_step e f)" "fine_run (xs @ ys) f = fine_run ys (fine_run xs f)"
  by (simp_all add: fine_run_def)

lemma fine_run_ok: "fine_ok f \<Longrightarrow> fine_ok (fine_run evs f)"
  unfolding fine_run_def by (rule fine_inv.run_inv)

section \<open>Nobody else touches a piped connection\<close>

lemma thread_other:
  assumes "k \<noteq> j"
  shows "rl_threads (relay_pc j p s) ! k = rl_threads s ! k"
proof -
  have line: "rl_threads (relay_line j line rest t) ! k = rl_threads t ! k" for line rest t
    using assms by (simp add: relay_line_def Let_def goto_def split: option.split)
  then have "rl_threads (relay_fresh j s) ! k = rl_threads s ! k"
    using assms by (simp add: relay_fresh_def Let_def goto_def split: option.split sum.split prod.split)
  then show ?thesis
    using assms by (cases p) (simp_all add: relay_leave_def relay_refuse_def Let_def goto_def split: option.split prod.split)
qed

lemma conn_other:
  assumes "k \<noteq> j" and "\<And>d. p \<noteq> Piping d" and "\<And>cid ch sc target. p = Telling cid ch sc target \<Longrightarrow> sc \<noteq> k"
    and "\<And>w sc. map_of (rl_ctrl s) w = Some sc \<Longrightarrow> sc \<noteq> k"
  shows "rl_conns (relay_pc j p s) ! k = rl_conns s ! k"
proof -
  have line: "rl_conns (relay_line j line rest t) ! k = rl_conns t ! k" for line rest t
    using assms(1) by (simp add: relay_line_def Let_def split: option.split)
  then have "rl_conns (relay_fresh j s) ! k = rl_conns s ! k"
    using assms(1) by (simp add: relay_fresh_def Let_def split: option.split sum.split prod.split)
  then show ?thesis
    using assms by (cases p) (auto simp: relay_leave_def relay_refuse_def Let_def split: option.split prod.split)
qed

text \<open>What is known of the two threads of a pipe.\<close>

lemma pipe_threads:
  assumes "relay_ok s" and i: "at_pc i (Piping d) s"
  shows "d \<noteq> i" "at_pc d Returning s \<or> at_pc d Ended s" "at_pc j (Piping d) s \<Longrightarrow> j = i" "\<not> at_pc j (Piping i) s"
    "i < length (rl_conns s)" "d < length (rl_conns s)"
proof -
  have c: "chan_ok (roles s) (rl_wait s) (rl_chans s)" and l: "length (rl_conns s) = length (rl_threads s)"
    using assms(1) by (simp_all add: relay_ok_def)
  have pipes: "Pipes e \<in> set (roles s) \<and> roles s ! j = Pipes e" if "at_pc j (Piping e) s" for j e
    using at_pcD [OF that] nth_mem [of j "roles s"] by simp
  note D = chan_okD(7) [OF c conjunct1 [OF pipes]]
  show "d \<noteq> i" using D [OF i] pipes [OF i] by auto
  have "d < length (rl_threads s)" "role_of (th_pc (rl_threads s ! d)) = Over"
    using D [OF i] by (auto simp: roles_def)
  then show "at_pc d Returning s \<or> at_pc d Ended s"
    by (cases "th_pc (rl_threads s ! d)") (simp_all add: at_pc_def)
  show "j = i" if "at_pc j (Piping d) s"
    using count_list_once [of "roles s" "Pipes d" j i] D [OF i] pipes [OF i] pipes [OF that] at_pcD(1) [OF i] at_pcD(1) [OF that]
    by simp
  show "\<not> at_pc j (Piping i) s" using D pipes [OF i] by auto
  show "i < length (rl_conns s)" using l at_pcD(1) [OF i] by simp
  show "d < length (rl_conns s)" using l \<open>d < length (rl_threads s)\<close> by simp
qed

lemma pipe_alone:
  assumes "relay_ok s" and "phones_ok P s" and i: "at_pc i (Piping d) s" and k: "k = i \<or> k = d"
    and j: "at_pc j p s" "j \<noteq> i" "j \<noteq> d" "\<And>e. p \<noteq> Piping e"
  shows "rl_conns (relay_pc j p s) ! k = rl_conns s ! k" "rl_threads (relay_pc j p s) ! k = rl_threads s ! k"
proof -
  note T = pipe_threads [OF assms(1) i]
  have "k \<notin> P" using phones_okD [OF assms(2) i] k by auto
  moreover have "sc \<noteq> k" if "p = Telling cid ch sc target" for cid ch sc target
    using phones_okD [OF assms(2) j(1)] \<open>k \<notin> P\<close> that by auto
  moreover have "sc \<noteq> k" if "map_of (rl_ctrl s) w = Some sc" for w sc
    using registered_phone(1) [OF assms(2,1) that] \<open>k \<notin> P\<close> by blast
  ultimately show "rl_conns (relay_pc j p s) ! k = rl_conns s ! k" using j k by (intro conn_other) auto
  show "rl_threads (relay_pc j p s) ! k = rl_threads s ! k" using j k by (intro thread_other) auto
qed

section \<open>A pipe among the threads is a pipe\<close>

text \<open>The pipe of thread \<open>i\<close> as \<^verbatim>\<open>Pipe_Rounds\<close> has it, from the handover on, and what it sees of an event.\<close>

definition copying_of :: "nat \<Rightarrow> fine_state \<Rightarrow> copying" where
  "copying_of i f =
     (case fn_pipes f i of
        None \<Rightarrow> \<lparr>cp_buf = th_buf (rl_threads (fn_relay f) ! i), cp_up = False, cp_down = False\<rparr>
      | Some k \<Rightarrow> k)"

definition view :: "nat \<Rightarrow> nat \<Rightarrow> fine_state \<Rightarrow> piping" where
  "view i d f = piping_of i d (copying_of i f) (fn_relay f)"

fun seen :: "nat \<Rightarrow> nat \<Rightarrow> fine_state \<Rightarrow> fine_event \<Rightarrow> pipe_event list" where
  "seen i d f (FUp j) = (if j = i \<and> fn_pipes f i \<noteq> None then [PUp] else [])"
| "seen i d f (FDown j) = (if j = i \<and> fn_pipes f i \<noteq> None then [PDown] else [])"
| "seen i d f (FServer (RRun j)) = (if j = d \<and> at_pc d Returning (fn_relay f) then [PClose] else [])"
| "seen i d f (FServer _) = []"

definition untouched :: "nat \<Rightarrow> nat \<Rightarrow> fine_state \<Rightarrow> fine_state \<Rightarrow> bool" where
  "untouched i d f g \<longleftrightarrow> rl_conns (fn_relay g) ! i = rl_conns (fn_relay f) ! i \<and> rl_conns (fn_relay g) ! d = rl_conns (fn_relay f) ! d \<and>
     rl_threads (fn_relay g) ! i = rl_threads (fn_relay f) ! i \<and> th_pc (rl_threads (fn_relay g) ! d) = th_pc (rl_threads (fn_relay f) ! d) \<and>
     fn_pipes g i = fn_pipes f i"

lemma untouched_view: "untouched i d f g \<Longrightarrow> view i d g = view i d f"
  by (simp add: untouched_def view_def piping_of_def copying_of_def split: option.split)

lemma relay_touches:
  assumes "relay_ok s" and "phones_ok P s" and i: "at_pc i (Piping d) s" and e: "e \<noteq> RRun i" "e \<noteq> RRun d"
    and pj: "\<And>j c. e = RRun j \<Longrightarrow> \<not> at_pc j (Piping c) s" and k: "k = i \<or> k = d"
  shows "rl_conns (relay_step e s) ! k = rl_conns s ! k \<and> rl_threads (relay_step e s) ! k = rl_threads s ! k"
proof -
  note T = pipe_threads [OF assms(1) i]
  have n: "i < length (rl_threads s)" "d < length (rl_threads s)" using at_pcD(1) [OF i] T(2) at_pcD(1) by blast+
  show ?thesis
  proof (cases e)
    case (RAccept c)
    with k n T(5,6) show ?thesis by (auto simp: nth_append)
  next
    case (RRun j)
    show ?thesis
    proof (cases "j < length (rl_threads s)")
      case True
      then have j: "at_pc j (th_pc (rl_threads s ! j)) s" by (simp add: at_pc_def)
      have np: "th_pc (rl_threads s ! j) \<noteq> Piping c" for c using pj [OF RRun, of c] j by auto
      have "j \<noteq> i" "j \<noteq> d" using RRun e by auto
      from pipe_alone [OF assms(1,2) i k j this np] True show ?thesis by (simp add: RRun)
    qed (simp add: RRun)
  next
    case (RTimeout j)
    have "th_pc (rl_threads s ! i) = Piping d" "th_pc (rl_threads s ! d) = Returning \<or> th_pc (rl_threads s ! d) = Ended"
      using i T(2) by (auto simp: at_pc_def)
    with k show ?thesis by (auto simp: RTimeout relay_refuse_def goto_def nth_list_update split: pc.split)
  qed
qed

lemma pipe_rounds_touch:
  assumes "relay_ok (fn_relay f)" and i: "at_pc i (Piping d) (fn_relay f)" and "j \<noteq> i"
  shows "untouched i d f (fine_round e j f)"
proof (cases "(piped_by j (fn_relay f), fn_pipes f j)")
  case (Pair c k)
  note T = pipe_threads [OF assms(1) i]
  have "j \<noteq> d" if "c = Some b" for b
    using T(2) that Pair by (auto simp: piped_by_at at_pc_def)
  moreover have "b \<noteq> i \<and> b \<noteq> d" if "c = Some b" for b
    using T(3,4) [of j] that Pair assms(3) by (auto simp: piped_by_at)
  ultimately show ?thesis
    using Pair assms(3) by (auto simp: untouched_def fine_round_def put_piping_def split: option.split)
qed

text \<open>The state after an event, seen from the pipe of thread \<open>i\<close>, while the thread stays in it.\<close>

definition follows :: "nat \<Rightarrow> nat \<Rightarrow> fine_state \<Rightarrow> fine_event \<Rightarrow> fine_state \<Rightarrow> bool" where
  "follows i d f e g \<longleftrightarrow> view i d g = pipe_run (seen i d f e) (view i d f) \<and>
     (at_pc d Ended (fn_relay g) \<longleftrightarrow> at_pc d Ended (fn_relay f) \<or> PClose \<in> set (seen i d f e)) \<and>
     (fn_pipes f i \<noteq> None \<longrightarrow> fn_pipes g i \<noteq> None) \<and> at_pc i (Piping d) (fn_relay g)"

text \<open>Or the thread leaves it, both goroutines being done.\<close>

definition finishes :: "nat \<Rightarrow> fine_state \<Rightarrow> fine_event \<Rightarrow> bool" where
  "finishes i f e \<longleftrightarrow> e = FServer (RRun i) \<and> (\<exists>k. fn_pipes f i = Some k \<and> cp_up k \<and> cp_down k)"

lemma follows_untouched:
  assumes "untouched i d f g" and "seen i d f e = []" and "at_pc i (Piping d) (fn_relay f)" "relay_ok (fn_relay f)"
    and "length (rl_threads (fn_relay f)) \<le> length (rl_threads (fn_relay g))"
  shows "follows i d f e g"
proof -
  have "d < length (rl_threads (fn_relay f))" using pipe_threads(2) [OF assms(4,3)] by (auto simp: at_pc_def)
  with assms untouched_view [OF assms(1)] show ?thesis
    by (auto simp: follows_def at_pc_def untouched_def)
qed

lemma fine_round_active:
  "piped_by i (fn_relay f) = Some d \<Longrightarrow> fn_pipes f i = Some k \<Longrightarrow>
    fine_round e i f = put_piping i d (pipe_step e (piping_of i d k (fn_relay f))) f"
  by (simp add: fine_round_def)

lemma fine_round_threads: "rl_threads (fn_relay (fine_round e i f)) = rl_threads (fn_relay f)"
proof (cases "\<exists>d k. piped_by i (fn_relay f) = Some d \<and> fn_pipes f i = Some k")
  case True
  then show ?thesis by (auto simp: fine_round_active put_piping_def)
qed (auto simp: fine_round_def split: option.split)

lemma follows_round:
  assumes "relay_ok (fn_relay f)" and i: "at_pc i (Piping d) (fn_relay f)"
    and "seen i d f ev = (if fn_pipes f i \<noteq> None then [e] else [])" and "e \<noteq> PClose"
  shows "follows i d f ev (fine_round e i f)"
proof -
  note T = pipe_threads [OF assms(1) i]
  have p: "piped_by i (fn_relay f) = Some d" using i by (simp add: piped_by_at)
  show ?thesis
  proof (cases "fn_pipes f i")
    case None
    with assms(3) i p show ?thesis by (simp add: follows_def fine_round_def)
  next
    case (Some k)
    then have v: "view i d f = piping_of i d k (fn_relay f)" by (simp add: view_def copying_of_def)
    let ?q = "pipe_step e (piping_of i d k (fn_relay f))"
    have w: "view i d (put_piping i d ?q f) = ?q"
      using T(1,5,6) by (simp add: view_def copying_of_def put_piping_def piping_of_def)
    have "\<forall>j q. at_pc j q (fn_relay (put_piping i d ?q f)) = at_pc j q (fn_relay f)" "fn_pipes (put_piping i d ?q f) i \<noteq> None"
      by (simp_all add: put_piping_def)
    with Some assms(3,4) i w show ?thesis by (simp add: follows_def fine_round_active [OF p Some] v)
  qed
qed

lemma follows_close:
  assumes "relay_ok (fn_relay f)" and i: "at_pc i (Piping d) (fn_relay f)"
  shows "follows i d f (FServer (RRun d)) (fine_turn d f)"
proof -
  note T = pipe_threads [OF assms]
  have n: "piped_by d (fn_relay f) = None" "d < length (rl_threads (fn_relay f))" using T(2) by (auto simp: piped_by_def at_pc_def)
  from T(2) show ?thesis
  proof
    assume d: "at_pc d Ended (fn_relay f)"
    then have "fine_turn d f = f" "seen i d f (FServer (RRun d)) = []" using n by (auto simp: fine_turn_def at_pc_def)
    with i show ?thesis by (simp add: follows_def)
  next
    assume d: "at_pc d Returning (fn_relay f)"
    then have t: "fine_turn d f = f\<lparr>fn_relay := goto d Ended (on_conn d conn_close (fn_relay f))\<rparr>"
      using n by (simp add: fine_turn_def at_pc_def)
    have "view i d (fine_turn d f) = pipe_step PClose (view i d f)"
      using T(1,5,6) n by (simp add: t view_def piping_of_def copying_of_def pipe_step.simps goto_def split: option.split)
    with d i T(1) n show ?thesis by (simp add: follows_def t at_pc_goto)
  qed
qed

lemma view_step:
  assumes ok: "fine_ok f" and i: "at_pc i (Piping d) (fn_relay f)"
  shows "follows i d f e (fine_step e f) \<or> finishes i f e"
proof -
  have r: "relay_ok (fn_relay f)" using ok by (simp add: fine_ok_def)
  obtain P where P: "phones_ok P (fn_relay f)" using ok by (auto simp: fine_ok_def)
  note T = pipe_threads [OF r i]
  have server: "follows i d f (FServer ev) (f\<lparr>fn_relay := relay_step ev (fn_relay f)\<rparr>)"
    if "ev \<noteq> RRun i" "ev \<noteq> RRun d" "\<And>j c. ev = RRun j \<Longrightarrow> \<not> at_pc j (Piping c) (fn_relay f)" for ev
  proof (rule follows_untouched [OF _ _ i r])
    show "untouched i d f (f\<lparr>fn_relay := relay_step ev (fn_relay f)\<rparr>)"
      using relay_touches [OF r P i that] by (simp add: untouched_def)
    show "seen i d f (FServer ev) = []" using that by (cases ev) simp_all
  qed (simp add: threads_step)
  have round: "follows i d f ev (fine_round pe j f)" if "j \<noteq> i" "seen i d f ev = []" for ev pe j
    by (rule follows_untouched [OF pipe_rounds_touch [OF r i that(1)] that(2) i r])
      (simp add: fine_round_threads)
  show ?thesis
  proof (cases "(e, f)" rule: fine_step.cases)
    case (1 j f')
    consider "j = i" | "j = d" | "j \<noteq> i" "j \<noteq> d" by blast
    then show ?thesis
    proof cases
      case 1
      have p: "piped_by i (fn_relay f) = Some d" using i by (simp add: piped_by_at)
      have e: "e = FServer (RRun i)" using 1 \<open>(e, f) = _\<close> by simp
      have "finishes i f e \<or> untouched i d f (fine_step e f) \<or> fn_pipes f i = None"
        by (cases "fn_pipes f i") (auto simp: e finishes_def fine_turn_def p untouched_def)
      then consider "finishes i f e" | "\<not> finishes i f e" "untouched i d f (fine_step e f)" | "fn_pipes f i = None" by argo
      then show ?thesis
      proof cases
        case 2
        have "follows i d f e (fine_step e f)"
          by (rule follows_untouched [OF 2(2) _ i r]) (use T(1) in \<open>simp_all add: e fine_turn_def p split: option.split\<close>)
        then show ?thesis ..
      next
        case 3
        then have "follows i d f e (fine_step e f)"
          using i T(1) by (simp add: e follows_def fine_turn_def p view_def copying_of_def)
        then show ?thesis ..
      qed simp
    next
      case 2
      with follows_close [OF r i] \<open>(e, f) = _\<close> show ?thesis by simp
    next
      case 3
      show ?thesis
      proof (cases "piped_by j (fn_relay f)")
        case None
        then have "\<not> at_pc j (Piping c) (fn_relay f)" for c by (simp flip: piped_by_at)
        then have "follows i d f (FServer (RRun j)) (f\<lparr>fn_relay := relay_step (RRun j) (fn_relay f)\<rparr>)"
          using 3 by (intro server) auto
        with None \<open>(e, f) = _\<close> show ?thesis by (simp add: fine_turn_def)
      next
        case (Some c)
        have "untouched i d f (fine_turn j f)"
          using 3 Some by (auto simp: untouched_def fine_turn_def goto_def split: option.split)
        then have "follows i d f (FServer (RRun j)) (fine_turn j f)"
          by (rule follows_untouched [OF _ _ i r]) (use 3 Some in \<open>auto simp: fine_turn_def split: option.split\<close>)
        with \<open>(e, f) = _\<close> show ?thesis by simp
      qed
    qed
  next
    case (2 c f')
    with server [of "RAccept c"] show ?thesis by (simp del: relay_step.simps)
  next
    case (3 j f')
    with server [of "RTimeout j"] show ?thesis by (simp del: relay_step.simps)
  next
    case (4 j f')
    with round [of j "FUp j"] follows_round [OF r i, of "FUp j" PUp] show ?thesis by (cases "j = i") simp_all
  next
    case (5 j f')
    with round [of j "FDown j"] follows_round [OF r i, of "FDown j" PDown] show ?thesis by (cases "j = i") simp_all
  qed
qed

lemma finishes_step:
  "finishes i f e \<Longrightarrow> at_pc i (Piping d) (fn_relay f) \<Longrightarrow> fine_step e f = f\<lparr>fn_relay := goto i Returning (fn_relay f)\<rparr>"
  by (auto simp: finishes_def fine_turn_def piped_by_def at_pc_def)

text \<open>Out of the pipe a thread only closes its connection.\<close>

definition over :: "nat \<Rightarrow> relay_state \<Rightarrow> bool" where
  "over i s \<longleftrightarrow> at_pc i Returning s \<or> at_pc i Ended s"

lemma over_rank: "over i s \<longleftrightarrow> i < length (rl_threads s) \<and> rank_at i s \<le> 1"
  by (cases "th_pc (rl_threads s ! i)") (auto simp: over_def at_pc_def rank_at_def)

lemma over_step:
  assumes "over i (fn_relay f)"
  shows "over i (fn_relay (fine_step e f))"
proof -
  have server: "over i (relay_step ev (fn_relay f))" for ev
    using assms rank_step [of i "fn_relay f" ev] threads_step [of "fn_relay f" ev] by (simp add: over_rank del: relay_step.simps)
  have turn: "over i (fn_relay (fine_turn j f))" for j
    using server assms by (auto simp: fine_turn_def over_def at_pc_goto piped_by_at simp del: relay_step.simps dest: at_pc_threads split: option.split)
  have round: "over i (fn_relay (fine_round pe j f))" for pe j
    using assms by (simp add: over_def at_pc_def fine_round_threads)
  show ?thesis using server turn round by (cases "(e, f)" rule: fine_step.cases) (simp_all del: relay_step.simps)
qed

interpretation over_inv: step_invariant fine_step "\<lambda>f. over i (fn_relay f)" for i
  by unfold_locales (rule over_step)

lemma over_run: "over i (fn_relay f) \<Longrightarrow> over i (fn_relay (fine_run evs f))"
  unfolding fine_run_def by (rule over_inv.run_inv)

text \<open>A run of the server, seen from a pipe, is a run of the pipe.\<close>

lemma view_run:
  assumes "fine_ok f" and "at_pc i (Piping d) (fn_relay f)" and "at_pc i (Piping d) (fn_relay (fine_run evs f))"
  shows "\<exists>tr. view i d (fine_run evs f) = pipe_run tr (view i d f) \<and>
    (at_pc d Ended (fn_relay (fine_run evs f)) \<longleftrightarrow> at_pc d Ended (fn_relay f) \<or> PClose \<in> set tr)"
  using assms
proof (induction evs arbitrary: f)
  case Nil
  then show ?case by (intro exI [of _ "[]"]) simp
next
  case (Cons e evs)
  have "\<not> finishes i f e"
  proof
    assume "finishes i f e"
    from finishes_step [OF this Cons.prems(2)] have "over i (fn_relay (fine_step e f))"
      using at_pc_threads [OF Cons.prems(2)] by (simp add: over_def at_pc_goto)
    from over_run [OF this, of evs] Cons.prems(3) show False by (auto simp: over_def at_pc_def)
  qed
  then have F: "follows i d f e (fine_step e f)" using view_step [OF Cons.prems(1,2)] by blast
  then have "at_pc i (Piping d) (fn_relay (fine_step e f))" by (simp add: follows_def)
  from Cons.IH [OF fine_ok_step [OF Cons.prems(1)] this] Cons.prems(3)
  obtain tr where "view i d (fine_run (e # evs) f) = pipe_run tr (view i d (fine_step e f))"
    "at_pc d Ended (fn_relay (fine_run (e # evs) f)) \<longleftrightarrow> at_pc d Ended (fn_relay (fine_step e f)) \<or> PClose \<in> set tr" by auto
  with F show ?case by (intro exI [of _ "seen i d f e @ tr"]) (auto simp: follows_def)
qed

section \<open>What crosses\<close>

text \<open>Bytes that were written stay written.\<close>

definition grown :: "byte list \<Rightarrow> byte list \<Rightarrow> piping \<Rightarrow> bool" where
  "grown u d p \<longleftrightarrow> (\<exists>x. outq (pg_a p) = u @ x) \<and> (\<exists>x. outq (pg_b p) = d @ x)"

lemma conn_write_grows: "conn_write b c = (ok, c') \<Longrightarrow> \<exists>x. outq c' = outq c @ x"
  by (auto simp: conn_write_def split: list.splits wres.splits if_splits)

lemma half_round_grows:
  assumes "half_round buf src dst = (bf, s, d, fin)"
  shows "\<exists>x. outq d = outq dst @ x" "outq s = outq src"
proof -
  have "(\<exists>x. outq d = outq dst @ x) \<and> outq s = outq src"
    using assms conn_write_grows [of _ dst] conn_read_outq [of _ src]
    by (auto simp: half_round_def split: if_splits option.splits prod.splits)
  then show "\<exists>x. outq d = outq dst @ x" "outq s = outq src" by simp_all
qed

lemma grown_step: "grown u d p \<Longrightarrow> grown u d (pipe_step e p)"
proof (cases e)
  case PUp
  obtain bf a b fin where h: "half_round (pg_buf p) (pg_a p) (pg_b p) = (bf, a, b, fin)" by (metis prod_cases4)
  with half_round_grows [OF h] show "grown u d p \<Longrightarrow> ?thesis" by (auto simp: PUp grown_def pipe_step.simps)
next
  case PDown
  obtain bf b a fin where h: "half_round [] (pg_b p) (pg_a p) = (bf, b, a, fin)" by (metis prod_cases4)
  with half_round_grows [OF h] show "grown u d p \<Longrightarrow> ?thesis" by (auto simp: PDown grown_def pipe_step.simps)
qed (simp add: grown_def pipe_step.simps)

interpretation grown_inv: step_invariant pipe_step "grown u d" for u d
  by unfold_locales (rule grown_step)

text \<open>
  What a run of a pipe carries over, with a close in it or not, when both connections take every write.
\<close>

lemma pipe_run_carries:
  fixes buf a b tr
  assumes w: "writable a" "writable b" "is_tcp a" "is_tcp b"
  defines "p \<equiv> pipe_run tr (pipe_start buf a b)"
  shows "\<exists>up down x y. outq (pg_a p) = outq a @ down \<and> outq (pg_b p) = outq b @ up \<and>
    stream b = down @ x \<and> buf @ stream a = up @ y \<and>
    (PClose \<notin> set tr \<longrightarrow> (pg_up p \<longrightarrow> y = []) \<and> (pg_down p \<longrightarrow> x = []))"
proof -
  let ?s = "pipe_start buf a b"
  have f: "flows (outq b @ buf @ stream a) (outq a @ stream b) (pipe_run t ?s)" if "PClose \<notin> set t" for t
    using w that by (intro flows_run) (simp_all add: flows_def pipe_start_def both_tcp_def writable_def)
  have "grown (outq a) (outq b) ?s" by (simp add: grown_def pipe_start_def)
  then have g: "grown (outq a) (outq b) (pipe_run t ?s)" for t unfolding pipe_run_def by (rule grown_inv.run_inv)
  have c: "\<exists>up down. outq (pg_a q) = outq a @ down \<and> outq (pg_b q) = outq b @ up \<and>
      stream b = down @ stream (pg_b q) \<and> buf @ stream a = up @ pg_buf q @ stream (pg_a q)"
    if "q = pipe_run t ?s" "PClose \<notin> set t" for q t
    using f [OF that(2)] g [of t] that(1) by (auto simp: flows_def grown_def)
  show ?thesis
  proof (cases "PClose \<in> set tr")
    case False
    from c [OF p_def [THEN meta_eq_to_obj_eq] False] f [OF False] False show ?thesis
      by (auto simp: flows_def p_def)
  next
    case True
    then obtain t1 t2 where t: "tr = t1 @ PClose # t2" "PClose \<notin> set t1" by (meson split_list_first)
    let ?q = "pipe_run t1 ?s"
    have "cut_off (outq (pg_a ?q)) (outq (pg_b ?q)) (pipe_step PClose ?q)" by (simp add: cut_off_def pipe_step.simps)
    from cut.run_inv [OF this, of t2] have "outq (pg_a p) = outq (pg_a ?q)" "outq (pg_b p) = outq (pg_b ?q)"
      by (simp_all add: p_def t(1) cut_off_def pipe_run_def)
    with c [OF refl t(2)] True show ?thesis by auto
  qed
qed

section \<open>A pipe ends\<close>

text \<open>Thread \<open>i\<close> pipes \<open>d\<close>, or is done with it.\<close>

definition in_pipe :: "nat \<Rightarrow> nat \<Rightarrow> fine_state \<Rightarrow> bool" where
  "in_pipe i d f \<longleftrightarrow> fine_ok f \<and> (at_pc i (Piping d) (fn_relay f) \<and> both_tcp (view i d f) \<or> over i (fn_relay f))"

definition begun :: "nat \<Rightarrow> nat \<Rightarrow> fine_state \<Rightarrow> bool" where
  "begun i d f \<longleftrightarrow> in_pipe i d f \<and> (fn_pipes f i \<noteq> None \<or> over i (fn_relay f))"

definition copied :: "nat \<Rightarrow> nat \<Rightarrow> fine_state \<Rightarrow> bool" where
  "copied i d f \<longleftrightarrow> begun i d f \<and> (pg_up (view i d f) \<and> pg_down (view i d f) \<or> over i (fn_relay f))"

definition while_piping :: "nat \<Rightarrow> (piping \<Rightarrow> nat) \<Rightarrow> nat \<Rightarrow> fine_state \<Rightarrow> nat" where
  "while_piping i r d f = (if over i (fn_relay f) then 0 else r (view i d f))"

lemma pipe_ranks_run:
  "both_tcp p \<Longrightarrow> both_tcp (pipe_run evs p)" "both_tcp p \<Longrightarrow> up_rank (pipe_run evs p) \<le> up_rank p"
  "both_tcp p \<Longrightarrow> down_rank (pipe_run evs p) \<le> down_rank p"
  unfolding pipe_run_def by (simp_all add: up_ends.run_inv up_ends.descent_run down_ends.descent_run)

lemma not_over: "at_pc i (Piping d) s \<Longrightarrow> \<not> over i s"
  by (auto simp: over_def at_pc_def)

lemma in_pipe_cases:
  assumes "in_pipe i d f"
  obtains "over i (fn_relay f)" "over i (fn_relay (fine_step e f))" "fine_ok f"
  | "at_pc i (Piping d) (fn_relay f)" "both_tcp (view i d f)" "fine_ok f" "finishes i f e" "over i (fn_relay (fine_step e f))"
  | "at_pc i (Piping d) (fn_relay f)" "both_tcp (view i d f)" "fine_ok f" "follows i d f e (fine_step e f)"
      "at_pc i (Piping d) (fn_relay (fine_step e f))"
proof (cases "over i (fn_relay f)")
  case True
  with that(1) over_step assms show thesis by (simp add: in_pipe_def)
next
  case False
  with assms have p: "at_pc i (Piping d) (fn_relay f)" "both_tcp (view i d f)" "fine_ok f" by (simp_all add: in_pipe_def)
  from view_step [OF p(3,1), of e] show thesis
  proof
    assume "follows i d f e (fine_step e f)"
    with that(3) p show thesis by (simp add: follows_def)
  next
    assume F: "finishes i f e"
    then have "over i (fn_relay (fine_step e f))"
      using finishes_step [OF F p(1)] at_pc_threads [OF p(1)] by (simp add: over_def at_pc_goto)
    with that(2) p F show thesis by simp
  qed
qed

lemma in_pipe_step: "in_pipe i d f \<Longrightarrow> in_pipe i d (fine_step e f)"
  by (erule in_pipe_cases [of i d f e])
    (auto simp: in_pipe_def fine_ok_step follows_def pipe_ranks_run)

lemma begun_step: "begun i d f \<Longrightarrow> begun i d (fine_step e f)"
proof -
  assume b: "begun i d f"
  then have "in_pipe i d f" by (simp add: begun_def)
  from this in_pipe_step [OF this, of e] b show ?thesis
    by (elim in_pipe_cases [of i d f e]) (auto simp: begun_def follows_def not_over)
qed

lemma pipe_done_run: "pg_up p \<Longrightarrow> pg_up (pipe_run evs p)" "pg_down p \<Longrightarrow> pg_down (pipe_run evs p)"
proof -
  have "pg_up p \<Longrightarrow> pg_up (pipe_step e p)" "pg_down p \<Longrightarrow> pg_down (pipe_step e p)" for e and p :: piping
    by (cases e; simp add: pipe_step.simps split: prod.split)+
  then show "pg_up p \<Longrightarrow> pg_up (pipe_run evs p)" "pg_down p \<Longrightarrow> pg_down (pipe_run evs p)"
    by (induction evs arbitrary: p) simp_all
qed

lemma copied_step: "copied i d f \<Longrightarrow> copied i d (fine_step e f)"
proof -
  assume b: "copied i d f"
  then have "in_pipe i d f" by (simp add: copied_def begun_def)
  from this begun_step [of i d f e] b show ?thesis
    by (elim in_pipe_cases [of i d f e]) (auto simp: copied_def follows_def not_over pipe_done_run)
qed

lemma pipe_run_single: "pipe_run [e] p = pipe_step e p"
  by simp

lemma follows_up:
  assumes "follows i d f (FUp i) g" and "both_tcp (view i d f)" and "fn_pipes f i \<noteq> None" and "up_rank (view i d f) \<noteq> 0"
  shows "up_rank (view i d g) < up_rank (view i d f)"
  using assms up_rank_step(2) by (auto simp: follows_def)

lemma follows_down:
  assumes "follows i d f (FDown i) g" and "both_tcp (view i d f)" and "fn_pipes f i \<noteq> None" and "down_rank (view i d f) \<noteq> 0"
  shows "down_rank (view i d g) < down_rank (view i d f)"
  using assms down_rank_step(2) by (auto simp: follows_def)

text \<open>The thread starts the pipe; both goroutines end; the thread waits for both, returns and closes.\<close>

definition start_left :: "nat \<Rightarrow> fine_state \<Rightarrow> nat" where
  "start_left i f = (if over i (fn_relay f) \<or> fn_pipes f i \<noteq> None then 0 else 1)"

definition turns_left :: "nat \<Rightarrow> fine_state \<Rightarrow> nat" where
  "turns_left i f = rank_at i (fn_relay f)"

lemma while_piping_step:
  assumes "in_pipe i d f"
  shows "while_piping i up_rank d (fine_step e f) \<le> while_piping i up_rank d f"
    "while_piping i down_rank d (fine_step e f) \<le> while_piping i down_rank d f"
  using assms by (elim in_pipe_cases [of i d f e]; auto simp: while_piping_def not_over follows_def pipe_ranks_run)+

lemma while_piping_run:
  assumes "in_pipe i d f"
  shows "while_piping i up_rank d (fine_run evs f) \<le> while_piping i up_rank d f"
    "while_piping i down_rank d (fine_run evs f) \<le> while_piping i down_rank d f"
proof -
  have "while_piping i up_rank d (fine_run evs f) \<le> while_piping i up_rank d f \<and>
    while_piping i down_rank d (fine_run evs f) \<le> while_piping i down_rank d f"
    using assms
  proof (induction evs arbitrary: f)
    case (Cons e evs)
    from Cons.IH [OF in_pipe_step [OF Cons.prems], of e] while_piping_step [OF Cons.prems, of e] show ?case by simp
  qed simp
  then show "while_piping i up_rank d (fine_run evs f) \<le> while_piping i up_rank d f"
    "while_piping i down_rank d (fine_run evs f) \<le> while_piping i down_rank d f" by simp_all
qed

interpretation pipe_starts: fair_rounds fine_step "in_pipe i d" "start_left i" "\<lambda>_. {FServer (RRun i)}" for i d
proof unfold_locales
  fix f e
  assume p: "in_pipe i d f"
  then show "in_pipe i d (fine_step e f)" by (rule in_pipe_step)
  from p show "start_left i (fine_step e f) \<le> start_left i f"
    by (elim in_pipe_cases [of i d f e]) (auto simp: start_left_def follows_def not_over)
  assume n: "start_left i f \<noteq> 0" and e: "e \<in> {FServer (RRun i)}"
  from n p have "at_pc i (Piping d) (fn_relay f)" "fn_pipes f i = None" by (auto simp: start_left_def in_pipe_def split: if_splits)
  then have "fn_pipes (fine_step e f) i \<noteq> None" using e by (simp add: fine_turn_def piped_by_at [THEN iffD2])
  with n show "start_left i (fine_step e f) < start_left i f" by (simp add: start_left_def split: if_splits)
qed

interpretation ups_end: fair_rounds fine_step "begun i d" "while_piping i up_rank d" "\<lambda>_. {FUp i}" for i d
proof unfold_locales
  fix f e
  assume b: "begun i d f"
  then show "begun i d (fine_step e f)" by (rule begun_step)
  have p: "in_pipe i d f" using b by (simp add: begun_def)
  then show "while_piping i up_rank d (fine_step e f) \<le> while_piping i up_rank d f" by (rule while_piping_step)
  assume "while_piping i up_rank d f \<noteq> 0" and "e \<in> {FUp i}"
  with b p show "while_piping i up_rank d (fine_step e f) < while_piping i up_rank d f"
    by (elim in_pipe_cases [of i d f e]) (auto simp: while_piping_def not_over begun_def follows_up simp del: fine_step.simps)
qed

interpretation downs_end: fair_rounds fine_step "begun i d" "while_piping i down_rank d" "\<lambda>_. {FDown i}" for i d
proof unfold_locales
  fix f e
  assume b: "begun i d f"
  then show "begun i d (fine_step e f)" by (rule begun_step)
  have p: "in_pipe i d f" using b by (simp add: begun_def)
  then show "while_piping i down_rank d (fine_step e f) \<le> while_piping i down_rank d f" by (rule while_piping_step)
  assume "while_piping i down_rank d f \<noteq> 0" and "e \<in> {FDown i}"
  with b p show "while_piping i down_rank d (fine_step e f) < while_piping i down_rank d f"
    by (elim in_pipe_cases [of i d f e]) (auto simp: while_piping_def not_over begun_def follows_down simp del: fine_step.simps)
qed

lemma fine_rank_over:
  assumes "over i (fn_relay f)"
  shows "rank_at i (fn_relay (fine_step e f)) \<le> rank_at i (fn_relay f)"
proof -
  have i: "i < length (rl_threads (fn_relay f))" using assms by (auto simp: over_def dest: at_pc_threads)
  note R = rank_step [OF i]
  have turn: "rank_at i (fn_relay (fine_turn j f)) \<le> rank_at i (fn_relay f)" for j
  proof (cases "piped_by j (fn_relay f)")
    case (Some c)
    then have "j \<noteq> i" using assms by (auto simp: piped_by_at over_def at_pc_def)
    with Some show ?thesis by (simp add: fine_turn_def rank_goto split: option.split)
  qed (use R in \<open>simp add: fine_turn_def del: relay_step.simps\<close>)
  have round: "rank_at i (fn_relay (fine_round pe j f)) \<le> rank_at i (fn_relay f)" for pe j
    by (simp add: rank_at_def fine_round_threads)
  show ?thesis using R turn round by (cases "(e, f)" rule: fine_step.cases) (simp_all del: relay_step.simps)
qed

lemma over_turn:
  assumes "at_pc i Returning (fn_relay f)"
  shows "rank_at i (fn_relay (fine_step (FServer (RRun i)) f)) = 0"
  using assms by (simp add: fine_turn_def piped_by_def at_pc_def rank_goto)

lemma rank_at_pc: "at_pc i p s \<Longrightarrow> rank_at i s = rank p"
  by (simp add: at_pc_def rank_at_def)

interpretation pipe_leaves: fair_rounds fine_step "copied i d" "turns_left i" "\<lambda>_. {FServer (RRun i)}" for i d
proof unfold_locales
  fix f e
  assume c: "copied i d f"
  then show "copied i d (fine_step e f)" by (rule copied_step)
  have p: "in_pipe i d f" using c by (simp add: copied_def begun_def)
  then show "turns_left i (fine_step e f) \<le> turns_left i f"
  proof (rule in_pipe_cases [of i d f e])
    assume "over i (fn_relay f)"
    then show ?thesis unfolding turns_left_def by (rule fine_rank_over)
  next
    assume "at_pc i (Piping d) (fn_relay f)" "over i (fn_relay (fine_step e f))"
    then show ?thesis by (simp add: turns_left_def rank_at_pc over_rank)
  next
    assume "at_pc i (Piping d) (fn_relay f)" "at_pc i (Piping d) (fn_relay (fine_step e f))"
    then show ?thesis by (simp add: turns_left_def rank_at_pc)
  qed
  assume n: "turns_left i f \<noteq> 0" and e: "e \<in> {FServer (RRun i)}"
  show "turns_left i (fine_step e f) < turns_left i f"
  proof (cases "over i (fn_relay f)")
    case True
    then have "at_pc i Returning (fn_relay f)" using n by (auto simp: over_def turns_left_def rank_at_pc)
    from over_turn [OF this] n e show ?thesis by (simp add: turns_left_def)
  next
    case False
    with c obtain k where "at_pc i (Piping d) (fn_relay f)" "fn_pipes f i = Some k" "cp_up k" "cp_down k"
      by (auto simp: copied_def begun_def in_pipe_def view_def piping_of_def copying_of_def)
    moreover from this e have "at_pc i Returning (fn_relay (fine_step e f))"
      by (auto simp: fine_turn_def piped_by_at [THEN iffD2] at_pc_goto dest: at_pc_threads)
    ultimately show ?thesis by (simp add: turns_left_def rank_at_pc)
  qed
qed

text \<open>A connection that its thread has closed stays closed, in the midst of a pipe too.\<close>

lemma pipe_step_closed: "closed (pg_b p) \<Longrightarrow> closed (pg_b (pipe_step e p))"
  using cut_off_step [of "outq (pg_a p)" "outq (pg_b p)" p e] by (simp add: cut_off_def)

lemma fine_closed_step:
  assumes "fine_ok f \<and> ended_closed (fn_relay f)"
  shows "fine_ok (fine_step e f) \<and> ended_closed (fn_relay (fine_step e f))"
proof -
  have ok: "relay_ok (fn_relay f)" and c: "ended_closed (fn_relay f)" using assms by (simp_all add: fine_ok_def)
  note R = ended_closed_step [OF c]
  have round: "ended_closed (fn_relay (fine_round pe j f))" for pe j
  proof (cases "\<exists>d k. piped_by j (fn_relay f) = Some d \<and> fn_pipes f j = Some k")
    case True
    then obtain d k where dk: "piped_by j (fn_relay f) = Some d" "fn_pipes f j = Some k" by blast
    then have j: "at_pc j (Piping d) (fn_relay f)" by (simp add: piped_by_at)
    note T = pipe_threads [OF ok j]
    let ?p = "pipe_step pe (piping_of j d k (fn_relay f))"
    have "closed (pg_b ?p)" if "at_pc d Ended (fn_relay f)"
      using c that by (intro pipe_step_closed) (simp add: ended_closed_def piping_of_def)
    moreover have "\<not> at_pc j Ended (fn_relay f)" using j by (auto simp: at_pc_def)
    ultimately show ?thesis
      using c T(1,5,6) by (auto simp: fine_round_active [OF dk] put_piping_def ended_closed_def nth_list_update)
  qed (use c in \<open>auto simp: fine_round_def split: option.split\<close>)
  have turn: "ended_closed (fn_relay (fine_turn j f))" for j
    using R [of "RRun j"] c
    by (auto simp: fine_turn_def ended_closed_def at_pc_goto simp del: relay_step.simps split: option.split)
  have "ended_closed (fn_relay (fine_step e f))"
    using R round turn by (cases "(e, f)" rule: fine_step.cases) (simp_all del: relay_step.simps)
  with assms fine_ok_step show ?thesis by blast
qed

interpretation fine_closed: step_invariant fine_step "\<lambda>f. fine_ok f \<and> ended_closed (fn_relay f)"
  by unfold_locales (rule fine_closed_step)

section \<open>Properties\<close>

lemma fine_reachable: "fine_ok (fine_run evs fine_init)" "ended_closed (fn_relay (fine_run evs fine_init))"
proof -
  have "fine_ok fine_init \<and> ended_closed (fn_relay fine_init)"
    using fine_ok_init ended_closed_init by (simp add: fine_init_def)
  from fine_closed.run_inv [OF this, of evs]
  show "fine_ok (fine_run evs fine_init)" "ended_closed (fn_relay (fine_run evs fine_init))"
    by (simp_all add: fine_run_def)
qed

text \<open>The state in which a pipe is about to start.\<close>

definition handed_over :: "nat \<Rightarrow> nat \<Rightarrow> fine_state \<Rightarrow> bool" where
  "handed_over i d f \<longleftrightarrow> at_pc i (Piping d) (fn_relay f) \<and> fn_pipes f i = None \<and>
     writable (rl_conns (fn_relay f) ! i) \<and> writable (rl_conns (fn_relay f) ! d) \<and>
     is_tcp (rl_conns (fn_relay f) ! i) \<and> is_tcp (rl_conns (fn_relay f) ! d)"

text \<open>
  C22. A pipe of the relay server among all its other goroutines, whatever they do and whenever the thread
  of the data connection closes it: as long as the client's thread is in the pipe, the client has
  received a prefix of what the phone sent, in order, and the phone a prefix of what the client sent,
  what its reader had buffered first; no other thread writes to either connection. While the data
  connection is open, a direction that is done has carried everything.
\<close>

theorem relay_pipe_among_threads:
  assumes "f = fine_run evs fine_init" and "handed_over i d f"
    and "g = fine_run more_evs f" and "at_pc i (Piping d) (fn_relay g)"
  shows "\<exists>up down x y.
    outq (rl_conns (fn_relay g) ! i) = outq (rl_conns (fn_relay f) ! i) @ down \<and>
    outq (rl_conns (fn_relay g) ! d) = outq (rl_conns (fn_relay f) ! d) @ up \<and>
    stream (rl_conns (fn_relay f) ! d) = down @ x \<and>
    th_buf (rl_threads (fn_relay f) ! i) @ stream (rl_conns (fn_relay f) ! i) = up @ y \<and>
    (\<forall>k. fn_pipes g i = Some k \<and> at_pc d Returning (fn_relay g) \<longrightarrow> (cp_up k \<longrightarrow> y = []) \<and> (cp_down k \<longrightarrow> x = []))"
proof -
  have i: "at_pc i (Piping d) (fn_relay f)" using assms(2) by (simp add: handed_over_def)
  from view_run [OF fine_reachable(1) [of evs, folded assms(1)] i] assms(3,4)
  obtain tr where v: "view i d g = pipe_run tr (view i d f)"
    and c: "at_pc d Ended (fn_relay g) \<longleftrightarrow> at_pc d Ended (fn_relay f) \<or> PClose \<in> set tr" by blast
  have "view i d f = pipe_start (th_buf (rl_threads (fn_relay f) ! i)) (rl_conns (fn_relay f) ! i) (rl_conns (fn_relay f) ! d)"
    using assms(2) by (simp add: view_def piping_of_def copying_of_def pipe_start_def handed_over_def)
  with v pipe_run_carries [of "rl_conns (fn_relay f) ! i" "rl_conns (fn_relay f) ! d" tr "th_buf (rl_threads (fn_relay f) ! i)"]
  obtain up down x y where H: "outq (pg_a (view i d g)) = outq (rl_conns (fn_relay f) ! i) @ down"
      "outq (pg_b (view i d g)) = outq (rl_conns (fn_relay f) ! d) @ up"
      "stream (rl_conns (fn_relay f) ! d) = down @ x"
      "th_buf (rl_threads (fn_relay f) ! i) @ stream (rl_conns (fn_relay f) ! i) = up @ y"
      "PClose \<notin> set tr \<longrightarrow> (pg_up (view i d g) \<longrightarrow> y = []) \<and> (pg_down (view i d g) \<longrightarrow> x = [])"
    using assms(2) unfolding handed_over_def by metis
  have "PClose \<notin> set tr" if "at_pc d Returning (fn_relay g)" using c that by (auto simp: at_pc_def)
  with H show ?thesis
    by (intro exI [of _ up] exI [of _ down] exI [of _ x] exI [of _ y])
      (auto simp: view_def piping_of_def copying_of_def)
qed

text \<open>
  C23. A pipe among the other goroutines ends: after as many rounds as there are segments and bytes
  to read on its two connections, and five more, in which its two goroutines and the thread that
  waits for them each get a turn, with any other events around them, that thread has returned and
  closed its connection.
\<close>

theorem relay_pipe_ends:
  assumes "f = fine_run evs fine_init" and "at_pc i (Piping d) (fn_relay f)"
    and "is_tcp (rl_conns (fn_relay f) ! i)" and "is_tcp (rl_conns (fn_relay f) ! d)"
    and "\<forall>es\<in>set rounds. {FServer (RRun i), FUp i, FDown i} \<subseteq> set es"
    and "5 + pending (rl_conns (fn_relay f) ! i) + pending (rl_conns (fn_relay f) ! d) \<le> length rounds"
  shows "let g = fine_run (concat rounds) f in at_pc i Ended (fn_relay g) \<and> closed (rl_conns (fn_relay g) ! i)"
proof -
  let ?n = "2 + pending (rl_conns (fn_relay f) ! i) + pending (rl_conns (fn_relay f) ! d)"
  define r1 where "r1 = take 1 rounds"
  define r2 where "r2 = take ?n (drop 1 rounds)"
  define r3 where "r3 = drop ?n (drop 1 rounds)"
  have r: "rounds = r1 @ r2 @ r3" unfolding r1_def r2_def r3_def by (simp only: append_take_drop_id)
  have l: "1 \<le> length r1" "?n \<le> length r2" "2 \<le> length r3" using assms(6) by (simp_all add: r1_def r2_def r3_def)
  have fair: "\<forall>es\<in>set rs. {FServer (RRun i), FUp i, FDown i} \<subseteq> set es" if "rs \<in> {r1, r2, r3}" for rs
    using assms(5) that unfolding r by auto
  let ?f1 = "fine_run (concat r1) f" and ?f2 = "fine_run (concat r2) (fine_run (concat r1) f)" and ?g = "fine_run (concat rounds) f"
  have p: "in_pipe i d f"
    using assms(1-4) fine_reachable(1) by (simp add: in_pipe_def both_tcp_def view_def piping_of_def)
  have "up_rank (view i d f) \<le> ?n" "down_rank (view i d f) \<le> ?n"
    by (simp_all add: up_rank_def down_rank_def view_def piping_of_def)
  then have u: "while_piping i up_rank d f \<le> ?n" "while_piping i down_rank d f \<le> ?n" by (simp_all add: while_piping_def)
  have 1: "\<forall>es\<in>set r1. pipe_starts.fair i es" and 2: "\<forall>es\<in>set r2. ups_end.fair i es" "\<forall>es\<in>set r2. downs_end.fair i es"
    and 3: "\<forall>es\<in>set r3. pipe_leaves.fair i es"
    using fair by (auto simp: pipe_starts.fair_def ups_end.fair_def downs_end.fair_def pipe_leaves.fair_def)
  have "start_left i f \<le> length r1" using l(1) by (simp add: start_left_def)
  from pipe_starts.descent_ends [OF p 1 this] have b: "begun i d ?f1"
    by (auto simp: begun_def start_left_def fine_run_def split: if_splits)
  have "while_piping i up_rank d ?f1 \<le> length r2" "while_piping i down_rank d ?f1 \<le> length r2"
    using while_piping_run [OF p, of "concat r1"] u l(2) by linarith+
  from ups_end.descent_ends [OF b 2(1) this(1)] downs_end.descent_ends(2) [OF b 2(2) this(2)] have c: "copied i d ?f2"
    by (auto simp: copied_def while_piping_def fine_run_def up_rank_def down_rank_def split: if_splits)
  have "turns_left i ?f2 \<le> 2"
    using c by (auto simp: turns_left_def copied_def begun_def in_pipe_def rank_at_pc over_def)
  then have "turns_left i ?f2 \<le> length r3" using l(3) by simp
  from pipe_leaves.descent_ends [OF c 3 this] have e: "copied i d ?g" "turns_left i ?g = 0"
    by (simp_all add: r fine_run_def)
  then have "at_pc i Ended (fn_relay ?g)"
    by (auto simp: turns_left_def copied_def begun_def in_pipe_def rank_at_pc over_def)
  moreover have "ended_closed (fn_relay ?g)" using fine_reachable(2) [of "evs @ concat rounds"] assms(1) by simp
  ultimately show ?thesis by (simp add: ended_closed_def)
qed

text \<open>The meeting of \<^verbatim>\<open>Relay_Sessions\<close>, up to the start of the pipe.\<close>

definition sample_fine :: "fine_event list" where
  "sample_fine = map FServer (sample_meeting @ [RRun 2, RRun 1])"

lemmas sample_evaluation = fine_init_def fine_turn_def piped_by_def
  relay_init_def relay_fresh_line sample_client_fresh relay_line_def on_conn_def goto_def
  new_chan_def has_prefix_def Let_def sample_ids at_pc_def write_to_def set_deadline_def fresh_conn_def conn_write_def
  remove_key_def take_chan_def writable_def

lemma sample_handed_over:
  "let f = fine_run sample_fine fine_init in
   handed_over 1 2 f \<and> at_pc 2 Returning (fn_relay f) \<and> th_buf (rl_threads (fn_relay f) ! 1) = [] \<and>
   length (rl_conns (fn_relay f)) = 3 \<and>
   rl_conns (fn_relay f) ! 1 = (fresh_conn [[9]] [])\<lparr>outq := no_auth @ reply_code 0\<rparr> \<and>
   rl_conns (fn_relay f) ! 2 = (fresh_conn [[7]] [])\<lparr>outq := line_ready\<rparr>"
  by (simp add: sample_fine_def sample_meeting_def sample_evaluation handed_over_def)

theorem relay_pipe_ends_witness:
  "at_pc 1 Ended (fn_relay (fine_run (concat (replicate 9 [FDown 1, FServer (RRun 1), FUp 1])) (fine_run sample_fine fine_init)))"
  using relay_pipe_ends [OF refl, of 1 2 sample_fine "replicate 9 [FDown 1, FServer (RRun 1), FUp 1]"] sample_handed_over
  by (simp add: Let_def handed_over_def pending_def fresh_conn_def)

text \<open>The target's answer crosses, then the data connection is closed: the client's byte does not.\<close>

theorem relay_pipe_among_threads_witness:
  "let g = fine_run [FServer (RRun 1), FDown 1, FDown 1, FServer (RRun 2), FUp 1] (fine_run sample_fine fine_init) in
    \<exists>down x. outq (rl_conns (fn_relay g) ! 1) = no_auth @ reply_code 0 @ down \<and> [7] = down @ x"
proof -
  let ?f = "fine_run sample_fine fine_init" and ?e = "[FServer (RRun 1), FDown 1, FDown 1, FServer (RRun 2), FUp 1]"
  note S = sample_handed_over [unfolded Let_def]
  have th: "rl_threads (fn_relay (fine_turn 1 ?f)) = rl_threads (fn_relay ?f)"
    using S by (auto simp: handed_over_def fine_turn_def piped_by_at [THEN iffD2] split: option.split)
  have "at_pc 1 (Piping 2) (fn_relay ?f)" "at_pc 2 Returning (fn_relay ?f)" using S by (simp_all add: handed_over_def)
  then have "at_pc 1 (Piping 2) (fn_relay (fine_run ?e ?f))"
    by (simp add: at_pc_def fine_round_threads th [simplified] fine_turn_def [of 2] piped_by_def goto_def)
  from relay_pipe_among_threads [OF refl _ refl this] S show ?thesis by (auto simp: Let_def fresh_conn_def stream_def)
qed

end
