(* ===== verification/Banner.thy ===== *)
theory Banner
  imports Daemon
begin

text \<open>
  What \<^verbatim>\<open>main\<close> prints of its addresses before it waits for a signal (lines 122 to 149 of
  \<^verbatim>\<open>cmd/zetproxyd/main.go\<close>), line by line; the two kinds of rule are constructors, since they are no
  ASCII text.  The addresses are cut after their first byte, which is right for \<^verbatim>\<open>:port\<close> only.
\<close>

datatype banner_line = Heavy_Rule | Light_Rule | Printed string

definition show_int :: "int \<Rightarrow> string" where
  "show_int n = (if n < 0 then CHR ''-'' # show_nat (nat (- n)) else show_nat (nat n))"

text \<open>\<^verbatim>\<open>%-12s\<close>\<close>

definition pad_right :: "nat \<Rightarrow> string \<Rightarrow> string" where
  "pad_right n s = s @ replicate (n - length s) (CHR '' '')"

definition tunnel_lines :: "env \<Rightarrow> banner_line list" where
  "tunnel_lines env =
     (let tunnelMode = env ''ZETPROXY_TUNNEL'' in
      if tunnelMode \<noteq> [] then
        (case ParseTunnelConfig tunnelMode of
           (mode, remote) \<Rightarrow>
             [Light_Rule,
              if mode = ''serveo'' then Printed ''  Tunnel mode: serveo.net (NOT SUPPORTED)''
              else if mode = ''relay'' then Printed (''  Tunnel: relay -> '' @ remote)
              else Printed (''  Tunnel: SSH -> '' @ remote)])
      else [])"

definition banner :: "env \<Rightarrow> iface list option \<Rightarrow> byte list option option \<Rightarrow> banner_line list" where
  "banner env ifaces udp =
     (let tcpPort = drop 1 (getEnv env ''ZETPROXY_TCP'' '':8888'');
          udpPort = drop 1 (getEnv env ''ZETPROXY_UDP'' '':8889'');
          socksPort = drop 1 (getEnv env ''ZETPROXY_SOCKS5'' '':1088'');
          dashPort = drop 1 (getEnv env ''ZETPROXY_DASHBOARD'' '':9092'');
          localIP = advertised_ip env ifaces udp
      in [Heavy_Rule,
          Printed (''  SOCKS5:     '' @ localIP @ '':'' @ socksPort),
          Printed (''  TCP Tunnel: '' @ localIP @ '':'' @ tcpPort),
          Printed (''  UDP Tunnel: '' @ localIP @ '':'' @ udpPort),
          Printed (''  Dashboard:  http://'' @ localIP @ '':'' @ dashPort),
          Printed (''  Max Conns:  '' @ show_int (sint (max_conns env))),
          Light_Rule,
          Printed ''  Reachable via:''] @
         concat (map (\<lambda>(label, ip).
           [Printed (''    '' @ pad_right 12 label @ '' '' @ ip @ '':'' @ socksPort @ '' (SOCKS5)''),
            Printed (''    '' @ pad_right 12 label @ '' http://'' @ ip @ '':'' @ dashPort @ '' (Dashboard)'')])
           (reachable_via ifaces)) @
         tunnel_lines env @ [Heavy_Rule])"

text \<open>
  For an address \<^verbatim>\<open>:port\<close> the banner names the port that the SOCKS5 server listens on, at the
  advertised address and at every address of the host.
\<close>

lemma banner_names_port:
  assumes "env ''ZETPROXY_SOCKS5'' = CHR '':'' # p"
  shows "Printed (''  SOCKS5:     '' @ advertised_ip env ifaces udp @ '':'' @ p) \<in> set (banner env ifaces udp)"
    and "ip \<in> set (getAllIPs ifaces) \<Longrightarrow>
      \<exists>label. Printed (''    '' @ pad_right 12 label @ '' '' @ ip @ '':'' @ p @ '' (SOCKS5)'') \<in> set (banner env ifaces udp)"
  using assms by (auto simp: banner_def getEnv_def reachable_via_def Let_def)

text \<open>
  An address with a host, which the server listens on as well, loses its first digit: the banner
  and the arguments of \<^verbatim>\<open>ssh\<close> then name a port that is none.
\<close>

lemma host_address_garbled:
  assumes "env ''ZETPROXY_SOCKS5'' = ''127.0.0.1:1088''" and "env ''ZETPROXY_TUNNEL'' = ''ssh:u@h''"
  shows "daemon_tunnel env = LaunchSSH ''27.0.0.1:1088'' ''u@h''"
    and "''27.0.0.1:1088:127.0.0.1:27.0.0.1:1088'' \<in> set (ssh_args ''u@h'' ''27.0.0.1:1088'' ''27.0.0.1:1088'')"
    and "Printed (''  SOCKS5:     '' @ advertised_ip env ifaces udp @ '':27.0.0.1:1088'') \<in> set (banner env ifaces udp)"
proof -
  have "ParseTunnelConfig ''ssh:u@h'' = (''ssh'', ''u@h'')" by code_simp
  then show "daemon_tunnel env = LaunchSSH ''27.0.0.1:1088'' ''u@h''"
    using assms by (simp add: daemon_tunnel_def getEnv_def socks_port_of_def)
  show "''27.0.0.1:1088:127.0.0.1:27.0.0.1:1088'' \<in> set (ssh_args ''u@h'' ''27.0.0.1:1088'' ''27.0.0.1:1088'')"
    by (simp add: ssh_args_def)
  show "Printed (''  SOCKS5:     '' @ advertised_ip env ifaces udp @ '':27.0.0.1:1088'') \<in> set (banner env ifaces udp)"
    using assms by (simp add: banner_def getEnv_def Let_def)
qed

end
