(* ===== verification/Spec2Isabelle.thy ===== *)
theory Spec2Isabelle
  imports Shutdown Relay_Main Relay_Pipes Banner
begin

text \<open>
  A verification development for zetproxy-turbo, a proxy server written in Go.

  \<^bold>\<open>The program.\<close> The daemon (\<^verbatim>\<open>cmd/zetproxyd\<close>) runs a SOCKS5 server (\<^verbatim>\<open>internal/proxy\<close>), a tunnel
  that detects four protocols on TCP and forwards UDP (\<^verbatim>\<open>internal/tunnel/tunnel.go\<close>) and a
  dashboard (\<^verbatim>\<open>internal/dashboard\<close>), all over a pool of buffers (\<^verbatim>\<open>internal/pool\<close>). To be
  reachable from outside it starts \<^verbatim>\<open>ssh\<close> (\<^verbatim>\<open>internal/tunnel/sshtun.go\<close>) or registers with a relay
  (\<^verbatim>\<open>internal/tunnel/relay.go\<close>), whose server is a program of its own (\<^verbatim>\<open>cmd/relay\<close>).

  \<^bold>\<open>The library of Go.\<close>
  \<^item> \<^verbatim>\<open>Go_Prelude\<close>: integers at their width, bytes and strings, decimal numbers, runs of steps.
  \<^item> \<^verbatim>\<open>Go_Strings\<close>, \<^verbatim>\<open>Go_Addr\<close>: the functions of \<^verbatim>\<open>strings\<close> and the address functions of \<^verbatim>\<open>net\<close>
    that the program calls.
  \<^item> \<^verbatim>\<open>Go_Net\<close>, \<^verbatim>\<open>Go_Bufio\<close>: connections, reads in segments, writes that may fail, buffered lines.
    The peer of a connection is a script of the segments it sends and of the outcomes of the
    writes to it; the network is a function from host and port to such a connection. All theorems
    quantify over both.

  \<^bold>\<open>The components.\<close>
  \<^item> \<^verbatim>\<open>Buffer_Pool\<close> (\<^verbatim>\<open>pool.go\<close>, lines 1 to 124): the three tiers, every get and put, warm-up and
    statistics. What \<^verbatim>\<open>sync.Pool\<close> hands out and drops is an argument. Capacities are exact in
    every run (\<^verbatim>\<open>pool_capacities\<close>).
  \<^item> \<^verbatim>\<open>Conn_Relay\<close> (\<^verbatim>\<open>pool.go\<close>, the rest): \<^verbatim>\<open>Relay\<close> and the copy loop. Each side gets a counted
    prefix of what the other sent, all of it when it takes every write, and the two goroutines
    commute.
  \<^item> \<^verbatim>\<open>Server_System\<close>, \<^verbatim>\<open>Bounded_Log\<close>, \<^verbatim>\<open>Throughput_Meter\<close>: contracts as locales, which the servers
    and the dashboard interpret: admission by a semaphore with handlers in any interleaving, a log
    cut to its last entries, and rates over windows. A call of \<^verbatim>\<open>GetStats\<close>, which keeps no other
    call out, is modelled in its steps: windows are exact while calls do not overlap, and measured
    twice when they do.
  \<^item> \<^verbatim>\<open>Socks_Protocol\<close>: the state of a handler and the SOCKS5 wire format, encoder and parser.
  \<^item> \<^verbatim>\<open>Socks5_Proxy\<close> (\<^verbatim>\<open>socks5.go\<close>): \<^verbatim>\<open>handle\<close> in the phases of its code. It refines a parser of
    the whole input on every branch; for any client it closes, dials at most once and does not
    panic.
  \<^item> \<^verbatim>\<open>Tunnel_Handlers\<close>, \<^verbatim>\<open>Tunnel_Server\<close>, \<^verbatim>\<open>Udp_Tunnel\<close> (\<^verbatim>\<open>tunnel.go\<close>): detection over a pooled
    buffer and the four handlers, against a plan computed from the first read; the server around
    them; and the UDP sessions as steps over the shared map.
  \<^item> \<^verbatim>\<open>Relay_Server\<close> (\<^verbatim>\<open>cmd/relay/main.go\<close>): goroutines as threads with explicit points, which
    share maps, write to each other's connections and hand connections over through channels.
    \<^verbatim>\<open>Relay_Invariants\<close> has the invariants of every interleaving, over the channels and over the
    registry of phones; \<^verbatim>\<open>Relay_Sessions\<close> the SOCKS5 front, the pipe, the race over the data
    connection, and that every thread ends.
  \<^item> \<^verbatim>\<open>Relay_Client\<close> (\<^verbatim>\<open>relay.go\<close>): registration, the loop of commands and the data connections,
    and the round trip from a client's request to the phone's command.
  \<^item> \<^verbatim>\<open>Ssh_Tunnel\<close> (\<^verbatim>\<open>sshtun.go\<close>), \<^verbatim>\<open>Host_Addresses\<close> and \<^verbatim>\<open>Daemon\<close> (\<^verbatim>\<open>cmd/zetproxyd/main.go\<close>),
    \<^verbatim>\<open>Dashboard\<close> (\<^verbatim>\<open>dashboard.go\<close>): the configuration and what is made of it, the history of
    metrics, and the routes and answers of the API.
  \<^item> \<^verbatim>\<open>Accept_Loop\<close>: the loop of \<^verbatim>\<open>SOCKS5Server.Start\<close> and \<^verbatim>\<open>Server.startTCP\<close>, which feeds the
    admission; \<^verbatim>\<open>Tunnel_Start\<close>: \<^verbatim>\<open>Start\<close> and \<^verbatim>\<open>Stop\<close> of the tunnel, with the UDP loop;
    \<^verbatim>\<open>Tunnel_Launch\<close>: the goroutine of \<^verbatim>\<open>main\<close> that starts \<^verbatim>\<open>ssh\<close> or registers with a relay.
  \<^item> \<^verbatim>\<open>Lifecycle\<close>: the daemon as a whole, a record of the states of its servers and goroutines and
    one event for each step one of them can make, the signal and the shutdown included. Callers of
    \<^verbatim>\<open>GetStats\<close> go step by step among all the rest. \<^verbatim>\<open>Shutdown\<close> has what holds in every
    interleaving: the limits and counters, that the daemon ends, that its loops end and its
    listeners are closed, and what \<^verbatim>\<open>Stop\<close> leaves behind.
  \<^item> \<^verbatim>\<open>Relay_Main\<close>: \<^verbatim>\<open>main\<close> of the relay server around its threads. \<^verbatim>\<open>Pipe_Rounds\<close>: its pipe one
    read and one write at a time, in any interleaving, and with a close in its midst.
    \<^verbatim>\<open>Relay_Pipes\<close> puts these rounds among the steps of all other threads: nobody else writes to
    the two connections, what has crossed at any moment is a prefix of what was sent, and the pipe
    ends.
  \<^item> \<^verbatim>\<open>Banner\<close>: what \<^verbatim>\<open>main\<close> prints of its addresses.

  This theory adds what spans components: a client, the relay server, a phone and the target.

  \<^bold>\<open>Bounds.\<close> No definition takes fuel: the loops over a connection end because each round takes a
  segment of the script, and their termination is proved by that measure. Loops that run until
  they are told to stop are steps; that they end is proved for runs of fair rounds, in each of
  which every goroutine concerned gets a turn among any other events, by a rank that no event
  raises and the right turn lowers (locale \<open>fair_rounds\<close>): as many as there are segments and bytes
  to read, and a few more, for a pipe, four for the shutdown, seven for the loops, as many as the
  greatest rank. Go's \<^verbatim>\<open>int\<close> has 64 bits where it is parsed (\<^verbatim>\<open>scan_int\<close>) and is unbounded where
  it counts ids or log sizes; counters and limits have their width and wrap. \<^verbatim>\<open>float64\<close> is exact
  rational arithmetic. Time is in nanoseconds.

  \<^bold>\<open>Coarse steps.\<close> A handler of the two servers runs against its scripts alone, since it shares
  counters, the log and the pool only; its effects on them are then interleaved. In the relay
  server a pipe runs in one step in \<^verbatim>\<open>Relay_Server\<close> (by \<^verbatim>\<open>Pipe_Rounds\<close> any interleaving of its
  rounds ends with the same connections) and in rounds in \<^verbatim>\<open>Relay_Pipes\<close>, and in \<^verbatim>\<open>Knocking\<close> the
  lookup and the write are one step. \<^verbatim>\<open>socks_GetStats\<close> and \<^verbatim>\<open>tun_GetStats\<close> are calls that no other
  overlaps, which a tick of the dashboard's history takes; the calls that do overlap take the
  steps of \<^verbatim>\<open>socks_poll_step\<close> and \<^verbatim>\<open>tun_poll_step\<close>, none of which writes a counter. Registration
  with a relay is one step of the daemon, and so is a call of \<^verbatim>\<open>Stop\<close>. Deadlines are kept in the
  state of a connection; that they expire is the end of a script, or an event of its own for the
  waits of 60 seconds.

  \<^bold>\<open>Not modelled.\<close> Socket options (keep-alive, no-delay, buffer sizes), \<^verbatim>\<open>GOMAXPROCS\<close> and the log
  output, the banner apart, have no effect on what is stated here. The operating system decides
  whether an address can be listened on, what arrives and when: these outcomes are arguments of
  the steps. Of \<^verbatim>\<open>net/http\<close> the model has what the dashboard relies on, that it serves until it is
  shut down and then returns an error, and its routes; its timeouts are left out. The page of the
  dashboard is a string constant, here a parameter. The two copies of the address functions are
  modelled once, since they are the same text.

  \<^bold>\<open>Plan.\<close> The daemon's relay tunnel as steps of the daemon, its control loop and data connections
  among the other goroutines.
\<close>

section \<open>From client to target through the relay\<close>

text \<open>
  C10. The relay server and the phone together, when the \<^verbatim>\<open>data:\<close> thread does not close its
  connection before the client's thread has piped it. The two ends of the data connection are
  linked: what the phone receives on it is what the server wrote to it, with the \<open>ready\<close> line in a
  segment of its own, and what the server has to read from it is what the phone, in answering the
  command, wrote after the \<open>data:\<close> line. Then the target of the command gets exactly the bytes of
  the client, and the client a success reply followed by exactly the bytes of the target.
\<close>

theorem relay_end_to_end:
  assumes "s = relay_run evs relay_init" and "at_pc i (AwaitSocks cid ch) s" and "at_pc d (HandOver ch) s"
    and "writable (rl_conns s ! i)" and "writable (rl_conns s ! d)" and "is_tcp (rl_conns s ! d)"
    and "outq (rl_conns s ! d) = line_ready"
    and "dial net relayAddr = Some t" and "dial net target = Some u" and "pool_wf bp"
    and "writable (t_conn t)" and "writable (t_conn u)"
    and "inq (t_conn t) = line_of ''ready'' # q"
    and "line_of ''ready'' @ concat q = outq (rl_conns (relay_run [RRun d, RRun i, RRun i, RRun d] s) ! d)"
    and "handleRelayTarget net picks bp relayAddr cid target = Some job" and "job_data job = Some dc"
    and "outq dc = outq (t_conn t) @ line_of (''data:'' @ cid) @ stream (rl_conns s ! d)"
  shows "(\<exists>tc. job_target job = Some tc \<and>
      outq tc = outq (t_conn u) @ th_buf (rl_threads s ! i) @ stream (rl_conns s ! i)) \<and>
    outq (rl_conns (relay_run [RRun d, RRun i, RRun i, RRun d] s) ! i) =
      outq (rl_conns s ! i) @ reply_code 0 @ stream (t_conn u)"
proof -
  note H = handover_outputs [OF assms(1-6), unfolded Let_def]
  have "line_ready = line_of ''ready''" by (simp add: line_ready_def line_of_def)
  then have q: "concat q = th_buf (rl_threads s ! i) @ stream (rl_conns s ! i)"
    using H assms(7,14) by simp
  have "inq (t_conn t) = (line_of ''ready'' @ []) # q" using assms(13) by simp
  from data_channel_outputs [OF assms(8-12) this, of picks cid] assms(15,16)
  obtain tc where tc: "job_target job = Some tc" "outq tc = outq (t_conn u) @ concat q"
    "outq dc = outq (t_conn t) @ line_of (''data:'' @ cid) @ stream (t_conn u)" by auto
  then have "stream (rl_conns s ! d) = stream (t_conn u)" using assms(17) by simp
  with H q tc(1,2) show ?thesis by simp
qed

definition sample_net :: network where
  "sample_net h p =
     (if h = ''r'' then Some \<lparr>t_conn = fresh_conn [line_of ''ready'', [9]] [], t_local_ip = [], t_local_port = 0\<rparr>
      else if h = ''a'' then Some \<lparr>t_conn = fresh_conn [[7]] [], t_local_ip = [], t_local_port = 0\<rparr>
      else None)"

theorem relay_end_to_end_witness:
  "let s = relay_run sample_meeting relay_init in
   \<exists>job tc. handleRelayTarget sample_net (None, None) (empty_pool \<lparr>allocated = 0, reused = 0, put_back = 0, dropped = 0\<rparr>)
       ''r:1'' ''c1'' ''a:80'' = Some job \<and> job_target job = Some tc \<and> outq tc = [9] \<and>
     outq (rl_conns (relay_run [RRun 2, RRun 1, RRun 1, RRun 2] s) ! 1) = no_auth @ reply_code 0 @ [7]"
proof -
  let ?s = "relay_run sample_meeting relay_init"
  let ?t = "\<lparr>t_conn = fresh_conn [line_of ''ready'', [9]] [], t_local_ip = [], t_local_port = 0\<rparr>"
  let ?u = "\<lparr>t_conn = fresh_conn [[7]] [], t_local_ip = [], t_local_port = 0\<rparr>"
  let ?bp = "empty_pool \<lparr>allocated = 0, reused = 0, put_back = 0, dropped = 0\<rparr>"
  have "split_host_port ''r:1'' = Some (''r'', ''1'')" "split_host_port ''a:80'' = Some (''a'', ''80'')" by code_simp+
  then have d: "dial sample_net ''r:1'' = Some ?t" "dial sample_net ''a:80'' = Some ?u"
    by (simp_all add: dial_def sample_net_def)
  have m: "at_pc 1 (AwaitSocks ''c1'' 0) ?s" "at_pc 2 (HandOver 0) ?s" "th_buf (rl_threads ?s ! 1) = []"
    "rl_conns ?s ! 1 = (fresh_conn [[9]] [])\<lparr>outq := no_auth\<rparr>" "rl_conns ?s ! 2 = (fresh_conn [[7]] [])\<lparr>outq := line_ready\<rparr>"
    using sample_meeting_run by (simp_all only: Let_def)
  have w: "writable (rl_conns ?s ! 1)" "writable (rl_conns ?s ! 2)" "is_tcp (rl_conns ?s ! 2)" "outq (rl_conns ?s ! 2) = line_ready"
    "stream (rl_conns ?s ! 1) = [9]" "stream (rl_conns ?s ! 2) = [7]" "outq (rl_conns ?s ! 1) = no_auth"
    by (simp_all only: m) (simp_all add: fresh_conn_def writable_def stream_def)
  have l: "line_of ''ready'' @ concat [[9]] = outq (rl_conns (relay_run [RRun 2, RRun 1, RRun 1, RRun 2] ?s) ! 2)"
    using handover_outputs [OF refl m(1,2) w(1-3), unfolded Let_def] w m(3)
    by (simp add: line_ready_def line_of_def del: relay_run_simps)
  have c: "writable (t_conn ?t)" "writable (t_conn ?u)" "inq (t_conn ?t) = (line_of ''ready'' @ []) # [[9]]"
    "outq (t_conn ?t) = []" "outq (t_conn ?u) = []" "stream (t_conn ?u) = [7]"
    by (simp_all add: fresh_conn_def writable_def stream_def)
  obtain job dc where j: "handleRelayTarget sample_net (None, None) ?bp ''r:1'' ''c1'' ''a:80'' = Some job"
    "job_data job = Some dc" "outq dc = outq (t_conn ?t) @ line_of (''data:'' @ ''c1'') @ stream (t_conn ?u)"
    using data_channel_outputs [OF d _ c(1-3), of ?bp "(None, None)" "''c1''"] by auto
  have "outq dc = outq (t_conn ?t) @ line_of (''data:'' @ ''c1'') @ stream (rl_conns ?s ! 2)"
    using j(3) c(6) w(6) by simp
  from relay_end_to_end [OF refl m(1,2) w(1-4) d _ c(1,2) _ l j(1,2) this] w m(3) c(3,5,6) j(1)
  show ?thesis by (simp add: Let_def del: relay_run_simps)
qed

end
